(* ===== verification/Flux_Prelude.thy ===== *)
theory Flux_Prelude
  imports Main "HOL-Library.Word"
begin

text \<open>
  What every component shares: the machine integers of the C++ code, the error codes of
  \<^verbatim>\<open>common/error.h\<close>, the fact collections of the development, and the generic lemmas on
  words, bit masks and lists that the component theories rest on.
\<close>

unbundle bit_operations_syntax

section \<open>Machine integers and error codes\<close>

type_synonym u8 = "8 word"
type_synonym u16 = "16 word"
type_synonym u32 = "32 word"
type_synonym u64 = "64 word"
type_synonym bytes = "8 word list"

datatype Error =
    Ok
  | NotInitialized
  | InvalidParam
  | InvalidState
  | LimitReached
  | ResolveFailed
  | NotImplemented
  | RandomFailed
  | AlreadyInUse
  | NotFound
  | IoFailed
  | BindFailed
  | SendFailed
  | AllocFailed
  | PoolExhausted
  | BufferFull
  | TooLarge
  | Malformed
  | NotAuthenticated
  | AlreadyPending
  | TooManyPending
  | Refused

section \<open>Fact collections\<close>

named_theorems unat_norm \<open>rules that turn a word comparison into one on natural numbers\<close>
named_theorems bit_norm \<open>rules that turn a word equation into one on bits\<close>

lemmas [unat_norm] = word_less_nat_alt word_le_nat_alt word_unat_eq_iff
lemmas [bit_norm] = bit_or_iff bit_and_iff bit_xor_iff bit_drop_bit_eq bit_push_bit_iff_nat bit_mask_iff

section \<open>Words\<close>

lemma unat_add_small:
  fixes a b :: "'a::len word"
  assumes "unat a + unat b < 2 ^ LENGTH('a)"
  shows "unat (a + b) = unat a + unat b"
  using assms by (simp add: unat_add_lem [THEN iffD1])

lemma unat_sub_le:
  fixes a b :: "'a::len word"
  assumes "b \<le> a"
  shows "unat (a - b) = unat a - unat b"
  using assms by (rule unat_sub)

lemma unat_mult_small:
  fixes a b :: "'a::len word"
  assumes "unat a * unat b < 2 ^ LENGTH('a)"
  shows "unat (a * b) = unat a * unat b"
  using assms by (simp add: unat_mult_lem [THEN iffD1])

lemma bit_unat: "bit (unat (w :: 'a::len word)) i = bit w i"
  by (simp add: bit_unsigned_iff)

lemma unat_exp:
  assumes "n < LENGTH('a)"
  shows "unat (2 ^ n :: 'a::len word) = 2 ^ n"
proof -
  have "(2 ^ n :: 'a word) = of_nat (2 ^ n)" by simp
  then have "unat (2 ^ n :: 'a word) = 2 ^ n mod 2 ^ LENGTH('a)"
    by (metis unat_of_nat)
  then show ?thesis using assms by simp
qed

lemma unat_and_mask: "unat (w AND mask n :: 'a::len word) = unat w mod 2 ^ n"
proof -
  have "unat (w AND mask n) = take_bit n (unat w)"
    by (metis take_bit_eq_mask unsigned_take_bit_eq)
  then show ?thesis by (simp add: take_bit_eq_mod)
qed

lemma unat_ucast: "unat (ucast (w :: 'a::len word) :: 'b::len word) = unat w mod 2 ^ LENGTH('b)"
  by (simp add: unsigned_ucast_eq take_bit_eq_mod)

lemma unat_ucast_up:
  assumes "LENGTH('a) \<le> LENGTH('b)"
  shows "unat (ucast (w :: 'a::len word) :: 'b::len word) = unat w"
proof -
  have "unat w < 2 ^ LENGTH('a)" by (rule unsigned_less)
  also have "\<dots> \<le> 2 ^ LENGTH('b)" using assms by (intro power_increasing) simp_all
  finally show ?thesis by (simp add: unat_ucast)
qed

lemma unat_Suc_small:
  fixes a b :: "'a::len word"
  assumes "a < b"
  shows "unat (a + 1) = Suc (unat a)"
proof -
  have "unat a < unat b" using assms by (simp add: word_less_nat_alt)
  moreover have "unat b < 2 ^ LENGTH('a)" by (rule unsigned_less)
  ultimately have "unat a + 1 < 2 ^ LENGTH('a)" by linarith
  then show ?thesis
    by (subst unat_add_small) simp_all
qed

lemma unat_u32_less: "unat (x :: u32) < 4294967296"
  using unsigned_less [of x] by simp

lemma u32_le_max: "(x :: u32) \<le> 4294967295"
  using unat_u32_less [of x] by (simp add: word_le_nat_alt)

lemma unat_u16_less: "unat (x :: u16) < 65536"
  using unsigned_less [of x] by simp

lemma unat_u64_less: "unat (x :: u64) < 18446744073709551616"
  using unsigned_less [of x] by simp

lemma hops_reach_all:
  fixes a r n :: nat
  assumes "r < n" shows "\<exists>h<n. (a + h) mod n = r"
proof -
  have n: "0 < n" using assms by simp
  have "a mod n + (n - a mod n) = n" using n by (simp add: less_imp_le)
  then have "(a mod n + (r + (n - a mod n))) mod n = (r + n) mod n" by (metis add.left_commute)
  then have "(a + (r + (n - a mod n)) mod n) mod n = r" using assms by (simp add: mod_simps)
  then show ?thesis using n by (intro exI [of _ "(r + (n - a mod n)) mod n"]) simp
qed

end
