(* ===== verification/Common_Math.thy ===== *)
theory Common_Math
  imports Flux_Prelude "HOL-Library.While_Combinator"
begin

text \<open>
  The two integer routines of \<^verbatim>\<open>common/math.h\<close>: \<open>NextPowerOfTwo\<close> (bit smearing) and
  \<open>CubeRoot\<close> (binary search over a 64-bit accumulator). Arithmetic is at machine width, so that
  the inputs on which the code wraps are visible.
\<close>

unbundle bit_operations_syntax

section \<open>Definitions\<close>

definition smear_step :: "nat \<Rightarrow> u32 \<Rightarrow> u32" where
  "smear_step k n = n OR drop_bit k n"

definition NextPowerOfTwo :: "u32 \<Rightarrow> u32" where
  "NextPowerOfTwo n =
    (if n = 0 then 1
     else let n = n - 1;
              n = smear_step 1 n;
              n = smear_step 2 n;
              n = smear_step 4 n;
              n = smear_step 8 n;
              n = smear_step 16 n
          in n + 1)"

definition cube_step :: "u64 \<Rightarrow> u64 \<times> u64 \<Rightarrow> u64 \<times> u64" where
  "cube_step n = (\<lambda>(low, high).
     let mid = low + (high - low + 1) div 2
     in if mid * mid * mid \<le> n then (mid, high) else (low, mid - 1))"

definition CubeRoot :: "u64 \<Rightarrow> u32 option" where
  "CubeRoot n =
     map_option (\<lambda>(low, high). ucast low)
       (while_option (\<lambda>(low, high). low < high) (cube_step n) (0, 2 ^ 22))"

section \<open>Bit smearing\<close>

definition reaches :: "u32 \<Rightarrow> nat \<Rightarrow> nat \<Rightarrow> bool" where
  "reaches m w i = (\<exists>j. i \<le> j \<and> j < i + w \<and> bit m j)"

lemma reaches_one [simp]: "reaches m (Suc 0) i = bit m i"
  unfolding reaches_def by (auto simp: le_less_Suc_eq)

lemma smear_step_reaches:
  assumes "\<And>i. bit n i = reaches m w i"
  shows "bit (smear_step w n) i = reaches m (w + w) i"
proof -
  have "bit (smear_step w n) i = (reaches m w i \<or> reaches m w (w + i))"
    by (simp add: smear_step_def bit_or_iff bit_drop_bit_eq assms)
  also have "\<dots> = reaches m (w + w) i"
  proof
    assume "reaches m w i \<or> reaches m w (w + i)"
    then obtain j where "(i \<le> j \<and> j < i + w) \<or> (w + i \<le> j \<and> j < w + i + w)" "bit m j"
      by (auto simp: reaches_def)
    then show "reaches m (w + w) i"
      by (auto simp: reaches_def intro!: exI [of _ j])
  next
    assume "reaches m (w + w) i"
    then obtain j where "i \<le> j" "j < i + (w + w)" "bit m j"
      by (auto simp: reaches_def)
    then show "reaches m w i \<or> reaches m w (w + i)"
      by (cases "j < i + w") (auto simp: reaches_def intro!: exI [of _ j])
  qed
  finally show ?thesis .
qed

definition smeared :: "u32 \<Rightarrow> u32" where
  "smeared m = smear_step 16 (smear_step 8 (smear_step 4 (smear_step 2 (smear_step 1 m))))"

lemma bit_smeared: "bit (smeared m) i = (\<exists>j\<ge>i. bit m j)"
proof -
  have 1: "bit (smear_step 1 m) i = reaches m 2 i" for i
    using smear_step_reaches [of m m 1 i] by (simp add: numeral_2_eq_2)
  have 2: "bit (smear_step 2 (smear_step 1 m)) i = reaches m 4 i" for i
    using smear_step_reaches [of "smear_step 1 m" m 2 i] 1 by simp
  have 3: "bit (smear_step 4 (smear_step 2 (smear_step 1 m))) i = reaches m 8 i" for i
    using smear_step_reaches [of "smear_step 2 (smear_step 1 m)" m 4 i] 2 by simp
  have 4: "bit (smear_step 8 (smear_step 4 (smear_step 2 (smear_step 1 m)))) i = reaches m 16 i" for i
    using smear_step_reaches [OF 3] by simp
  have "bit (smeared m) i = reaches m 32 i"
    unfolding smeared_def using smear_step_reaches [OF 4] by simp
  also have "\<dots> = (\<exists>j\<ge>i. bit m j)"
  proof -
    have "j < 32" if "bit m j" for j
      using bit_imp_le_length [OF that] by simp
    then show ?thesis
      unfolding reaches_def using trans_less_add2 by blast
  qed
  finally show ?thesis .
qed

text \<open>The smeared word is a mask whose width is the bit length of the input.\<close>

lemma smeared_mask:
  assumes "unat m < 2 ^ Suc k" and "2 ^ k \<le> unat m" and "k < 32"
  shows "smeared m = mask (Suc k)"
proof (rule bit_word_eqI)
  fix i :: nat
  assume "i < LENGTH(32)"
  have top: "bit m k"
  proof -
    have "unat m div 2 ^ k = 1"
      using assms by (simp add: div_nat_eqI)
    then have "odd (unat m div 2 ^ k)" by simp
    then show ?thesis by (simp add: bit_unat [symmetric] bit_iff_odd)
  qed
  have above: "\<not> bit m j" if "k < j" for j
  proof -
    have "unat m < 2 ^ j"
      using assms(1) power_increasing [of "Suc k" j "2::nat"] that by linarith
    then show ?thesis by (simp add: bit_unat [symmetric] bit_iff_odd)
  qed
  show "bit (smeared m) i = bit (mask (Suc k) :: u32) i"
    using top above \<open>i < LENGTH(32)\<close>
    by (auto simp: bit_smeared bit_mask_iff less_Suc_eq_le intro: ccontr [of "i \<le> k"])
qed

lemma NextPowerOfTwo_smeared:
  "n \<noteq> 0 \<Longrightarrow> NextPowerOfTwo n = smeared (n - 1) + 1"
  by (simp add: NextPowerOfTwo_def smeared_def Let_def)

lemma NextPowerOfTwo_exponent:
  assumes "2 ^ k < unat n" and "unat n \<le> 2 ^ Suc k" and "k < 31"
  shows "unat (NextPowerOfTwo n) = 2 ^ Suc k"
proof -
  have nz: "n \<noteq> 0" using assms(1) by auto
  then have pred: "unat (n - 1) = unat n - 1"
    by (simp add: unat_minus_one)
  have "smeared (n - 1) = mask (Suc k)"
    by (rule smeared_mask) (use assms pred in auto)
  then have "NextPowerOfTwo n = 2 ^ Suc k"
    by (simp add: NextPowerOfTwo_smeared nz mask_eq_exp_minus_1)
  then show ?thesis
    using assms(3) unat_exp [of "Suc k", where 'a = 32] by simp
qed

lemma NextPowerOfTwo_small [simp]: "NextPowerOfTwo 0 = 1" "NextPowerOfTwo 1 = 1"
  by (simp_all add: NextPowerOfTwo_def smear_step_def Let_def)

lemma nat_between_powers:
  fixes m :: nat
  assumes "1 < m"
  shows "\<exists>k. 2 ^ k < m \<and> m \<le> 2 ^ Suc k"
proof -
  define j where "j = (LEAST j. m \<le> 2 ^ j)"
  have le: "m \<le> 2 ^ j"
    unfolding j_def by (rule LeastI [of _ m]) (simp add: less_imp_le)
  have "j \<noteq> 0" using le assms by (auto intro: ccontr)
  then obtain k where k: "j = Suc k" by (cases j) auto
  have "\<not> m \<le> 2 ^ k"
    using not_less_Least [of k "\<lambda>j. m \<le> 2 ^ j"] k unfolding j_def by simp
  with le k show ?thesis by (intro exI [of _ k]) simp
qed

lemma NextPowerOfTwo_power:
  assumes "unat n \<le> 2 ^ 31"
  shows "\<exists>k\<le>31. unat (NextPowerOfTwo n) = 2 ^ k \<and> unat n \<le> 2 ^ k \<and> (\<forall>j. unat n \<le> 2 ^ j \<longrightarrow> k \<le> j)"
proof (cases "unat n \<le> 1")
  case True
  then have "n = 0 \<or> n = 1" by (metis le_neq_implies_less less_one unat_1 unat_eq_zero word_unat_eq_iff)
  then show ?thesis by auto
next
  case False
  then obtain k where k: "2 ^ k < unat n" "unat n \<le> 2 ^ Suc k"
    using nat_between_powers [of "unat n"] by auto
  then have "(2::nat) ^ k < 2 ^ 31" using assms by linarith
  then have k31: "k < 31" by (rule power_less_imp_less_exp [rotated]) simp
  have least: "Suc k \<le> j" if "unat n \<le> 2 ^ j" for j
  proof -
    have "(2::nat) ^ k < 2 ^ j" using k(1) that by linarith
    then show ?thesis by simp
  qed
  show ?thesis
    using NextPowerOfTwo_exponent [OF k k31] k(2) k31 least by (intro exI [of _ "Suc k"]) auto
qed

lemma NextPowerOfTwo_ge:
  "unat n \<le> 2 ^ 31 \<Longrightarrow> unat n \<le> unat (NextPowerOfTwo n)"
  using NextPowerOfTwo_power [of n] by auto

lemma NextPowerOfTwo_wraps:
  assumes "2 ^ 31 < unat n"
  shows "NextPowerOfTwo n = 0"
proof -
  have nz: "n \<noteq> 0" using assms by auto
  have "unat n < 2 ^ 32" using unsigned_less [of n] by simp
  then have "smeared (n - 1) = mask (Suc 31)"
    using assms by (intro smeared_mask) (simp_all add: unat_minus_one nz)
  then have "smeared (n - 1) = - 1"
    by (simp add: mask_eq_exp_minus_1)
  then show ?thesis by (simp add: NextPowerOfTwo_smeared nz)
qed

section \<open>The cube root\<close>

definition cube_inv :: "u64 \<Rightarrow> u64 \<times> u64 \<Rightarrow> bool" where
  "cube_inv n = (\<lambda>(low, high).
     unat low \<le> unat high \<and> unat low ^ 3 \<le> unat n \<and> unat n < Suc (unat high) ^ 3 \<and>
     (unat high < 2621440 \<or> (low, high) = (0, 2 ^ 22) \<or> (low, high) = (2 ^ 21, 2 ^ 22)
        \<or> (low, high) = (2 ^ 21, 3145727)))"

lemma unat_mid:
  fixes low high :: u64
  assumes "low < high" and "unat high \<le> 2 ^ 22"
  shows "unat (low + (high - low + 1) div 2) = unat low + (unat high - unat low + 1) div 2"
proof -
  have lh: "unat low < unat high" using assms(1) by (simp add: word_less_nat_alt)
  have d: "unat (high - low) = unat high - unat low"
    using assms(1) by (simp add: unat_sub less_imp_le)
  have d1: "unat (high - low + 1) = unat high - unat low + 1"
    by (subst unat_add_small) (use d assms(2) in simp_all)
  have h: "unat ((high - low + 1) div 2) = (unat high - unat low + 1) div 2"
    by (simp add: unat_div d1)
  show ?thesis
    by (subst unat_add_small) (use h lh assms(2) in simp_all)
qed

lemma unat_cube:
  fixes m :: u64
  assumes "unat m \<le> 2621440"
  shows "unat (m * m * m) = unat m ^ 3"
proof -
  have "unat m ^ 3 \<le> 2621440 ^ 3" using assms by (rule power_mono) simp
  then have c: "unat m * unat m * unat m < 2 ^ 64" by (simp add: power3_eq_cube)
  have "unat m * unat m \<le> 2621440 * 2621440" using assms by (intro mult_mono) simp_all
  then have s: "unat (m * m) = unat m * unat m" by (intro unat_mult_small) simp
  show ?thesis
    by (subst unat_mult_small) (use s c in \<open>simp_all add: power3_eq_cube\<close>)
qed

lemma cube_step_inv:
  assumes n: "unat n < 11 * 2 ^ 60" and inv: "cube_inv n s" and go: "fst s < snd s"
  shows "cube_inv n (cube_step n s)"
proof -
  obtain low high where s: "s = (low, high)" by (cases s)
  define mid where "mid = low + (high - low + 1) div 2"
  have lt: "low < high" using go s by simp
  have step: "cube_step n s = (if mid * mid * mid \<le> n then (mid, high) else (low, mid - 1))"
    by (simp add: cube_step_def s mid_def Let_def)
  have I: "unat low ^ 3 \<le> unat n" "unat n < Suc (unat high) ^ 3"
    using inv s by (simp_all add: cube_inv_def)
  consider (small) "unat high < 2621440" | (a) "(low, high) = (0, 2 ^ 22)"
    | (b) "(low, high) = (2 ^ 21, 2 ^ 22)" | (c) "(low, high) = (2 ^ 21, 3145727)"
    using inv s by (auto simp: cube_inv_def)
  then show ?thesis
  proof cases
    case small
    have mid: "unat mid = unat low + (unat high - unat low + 1) div 2"
      unfolding mid_def by (rule unat_mid) (use lt small in simp_all)
    have b: "unat low < unat mid" "unat mid \<le> unat high"
      using lt unfolding mid by (simp_all add: word_less_nat_alt)
    have c: "unat (mid * mid * mid) = unat mid ^ 3"
      by (rule unat_cube) (use b small in simp)
    have "mid \<noteq> 0" using b by auto
    then have p: "unat (mid - 1) = unat mid - 1" by (simp add: unat_minus_one)
    show ?thesis
      unfolding step cube_inv_def using I b c p small
      by (auto simp: word_le_nat_alt)
  next
    case a
    then have "mid = 2097152" by (simp add: mid_def)
    then show ?thesis
      unfolding step cube_inv_def using I a n by (simp add: word_le_nat_alt)
  next
    case b
    then have "mid = 3145728" by (simp add: mid_def)
    then show ?thesis
      unfolding step cube_inv_def using I b n by (simp add: word_le_nat_alt)
  next
    case c
    then have "mid = 2621440" by (simp add: mid_def)
    then show ?thesis
      unfolding step cube_inv_def using I c n by (simp add: word_le_nat_alt)
  qed
qed

lemma cube_step_shrinks:
  assumes "low < high" and "unat high \<le> 2 ^ 22"
  shows "case cube_step n (low, high) of (low', high') \<Rightarrow>
           unat high' - unat low' < unat high - unat low \<and> unat low' \<le> unat high' \<and> unat high' \<le> unat high \<and> unat low \<le> unat low'"
proof -
  define mid where "mid = low + (high - low + 1) div 2"
  have mid: "unat mid = unat low + (unat high - unat low + 1) div 2"
    unfolding mid_def by (rule unat_mid) (use assms in simp_all)
  have b: "unat low < unat mid" "unat mid \<le> unat high"
    using assms(1) unfolding mid by (simp_all add: word_less_nat_alt)
  have "mid \<noteq> 0" using b by auto
  then have p: "unat (mid - 1) = unat mid - 1" by (simp add: unat_minus_one)
  have "cube_step n (low, high) = (if mid * mid * mid \<le> n then (mid, high) else (low, mid - 1))"
    by (simp add: cube_step_def mid_def Let_def)
  then show ?thesis using b p by auto
qed

lemma cube_loop_terminates:
  "\<exists>t. while_option (\<lambda>(low, high). low < high) (cube_step n) (0, 2 ^ 22) = Some t"
proof -
  let ?P = "\<lambda>(low :: u64, high :: u64). unat low \<le> unat high \<and> unat high \<le> 2 ^ 22"
  let ?b = "\<lambda>(low :: u64, high :: u64). low < high"
  let ?m = "\<lambda>(low :: u64, high :: u64). unat high - unat low"
  have "?P (cube_step n s)" if "?P s" "?b s" for s
    using that cube_step_shrinks [of "fst s" "snd s" n] by (auto split: prod.splits)
  moreover have "?m (cube_step n s) < ?m s" if "?P s" "?b s" for s
    using that cube_step_shrinks [of "fst s" "snd s" n] by (auto split: prod.splits)
  ultimately show ?thesis
    by (intro measure_while_option_Some [of ?P ?b _ ?m]) auto
qed

lemma CubeRoot_loop:
  assumes "while_option (\<lambda>(low, high). low < high) (cube_step n) (0, 2 ^ 22) = Some (low, high)"
    and "unat n < 11 * 2 ^ 60"
  shows "cube_inv n (low, high) \<and> \<not> low < high"
proof -
  have "cube_inv n (low, high)"
  proof (rule while_option_rule [OF _ assms(1)])
    show "cube_inv n (cube_step n s)" if "cube_inv n s" "case s of (low, high) \<Rightarrow> low < high" for s
      using cube_step_inv [OF assms(2) that(1)] that(2) by (auto split: prod.splits)
    show "cube_inv n (0, 2 ^ 22)"
      using assms(2) by (simp add: cube_inv_def)
  qed
  moreover have "\<not> low < high"
    using while_option_stop [OF assms(1)] by simp
  ultimately show ?thesis by simp
qed

lemma CubeRoot_exact:
  assumes "unat n < 11 * 2 ^ 60"
  shows "\<exists>r. CubeRoot n = Some r \<and> unat r ^ 3 \<le> unat n \<and> unat n < Suc (unat r) ^ 3"
proof -
  obtain low high where w:
    "while_option (\<lambda>(low, high). low < high) (cube_step n) (0, 2 ^ 22) = Some (low, high)"
    using cube_loop_terminates [of n] by auto
  have I: "cube_inv n (low, high)" "\<not> low < high"
    using CubeRoot_loop [OF w assms] by auto
  then have eq: "low = high" by (auto simp: cube_inv_def word_le_nat_alt not_less intro: antisym)
  with I have small: "unat low < 2621440" by (auto simp: cube_inv_def)
  then have "unat (ucast low :: u32) = unat low" by (simp add: unat_ucast)
  with w I eq show ?thesis by (simp add: CubeRoot_def cube_inv_def)
qed

text \<open>
  From 11 * 2^60 on, the product of the second probe wraps below the argument, the search
  moves into a range whose cubes no 64-bit number reaches, and the result is not a cube root.
\<close>

lemma CubeRoot_wraps:
  assumes "11 * 2 ^ 60 \<le> unat n"
  shows "\<exists>r. CubeRoot n = Some r \<and> unat n < unat r ^ 3"
proof -
  let ?b = "\<lambda>(low :: u64, high :: u64). low < high"
  let ?P = "\<lambda>(low :: u64, high :: u64). (low, high) = (0, 2 ^ 22) \<or> (low, high) = (2 ^ 21, 2 ^ 22)
     \<or> 3145728 \<le> unat low \<and> unat low \<le> unat high \<and> unat high \<le> 2 ^ 22"
  obtain low high where w: "while_option ?b (cube_step n) (0, 2 ^ 22) = Some (low, high)"
    using cube_loop_terminates [of n] by auto
  have "?P (low, high)"
  proof (rule while_option_rule [OF _ w])
    show "?P (cube_step n s)" if P: "?P s" and b: "?b s" for s
    proof -
      obtain l h where s: "s = (l, h)" by (cases s)
      consider "(l, h) = (0, 2 ^ 22)" | "(l, h) = (2 ^ 21, 2 ^ 22)"
        | (big) "3145728 \<le> unat l \<and> unat l \<le> unat h \<and> unat h \<le> 2 ^ 22"
        using P s by auto
      then show ?thesis
      proof cases
        case big
        then show ?thesis using b s cube_step_shrinks [of l h n] by auto
      qed (use assms s in \<open>simp_all add: cube_step_def word_le_nat_alt\<close>)
    qed
  qed simp
  moreover have "\<not> low < high" using while_option_stop [OF w] by simp
  ultimately have low: "3145728 \<le> unat low" "unat low \<le> 2 ^ 22" by auto
  then have u: "unat (ucast low :: u32) = unat low" by (simp add: unat_ucast)
  have "unat n < 2 ^ 64" using unsigned_less [of n] by simp
  also have "\<dots> < (3145728 :: nat) ^ 3" by simp
  also have "\<dots> \<le> unat low ^ 3" using low(1) by (rule power_mono) simp
  finally show ?thesis using w u by (simp add: CubeRoot_def)
qed

section \<open>Properties\<close>

text \<open>
  C29: \<open>NextPowerOfTwo\<close> is the least power of two that is not below its argument, for every
  argument up to \<open>2\<^sup>3\<^sup>1\<close>; above it the result does not fit the word and is 0.\<close>

theorem next_power_of_two_exact:
  "unat (NextPowerOfTwo n) = (if unat n \<le> 2147483648 then 2 ^ (LEAST k. unat n \<le> 2 ^ k) else 0)"
proof (cases "unat n \<le> 2147483648")
  case True
  then obtain k where k: "unat (NextPowerOfTwo n) = 2 ^ k" "unat n \<le> 2 ^ k" "\<forall>j. unat n \<le> 2 ^ j \<longrightarrow> k \<le> j"
    using NextPowerOfTwo_power [of n] by auto
  then have "(LEAST j. unat n \<le> 2 ^ j) = k" by (intro Least_equality) auto
  with k(1) True show ?thesis by simp
next
  case False
  then have "2 ^ 31 < unat n" by simp
  then have "NextPowerOfTwo n = 0" by (rule NextPowerOfTwo_wraps)
  with False show ?thesis by simp
qed

text \<open>
  C30: The search of \<open>CubeRoot\<close> always ends, and it ends in the integer cube root exactly for the
  arguments below \<open>11 * 2\<^sup>6\<^sup>0\<close>. From there on a probe's 64-bit cube wraps and the result is wrong.\<close>

theorem cube_root_exact_until_wrap:
  "\<exists>r. CubeRoot n = Some r \<and>
     (unat r ^ 3 \<le> unat n \<and> unat n < (unat r + 1) ^ 3) = (unat n < 11 * 2 ^ 60)"
proof (cases "unat n < 11 * 2 ^ 60")
  case True
  then show ?thesis using CubeRoot_exact [of n] by auto
next
  case False
  then show ?thesis using CubeRoot_wraps [of n] by auto
qed

end
