(* ===== verification/Bytes_Cursor.thy ===== *)
theory Bytes_Cursor
  imports Flux_Prelude
begin

text \<open>
  The bounds-checked read and write cursors of \<^verbatim>\<open>common/wire/bytes_reader.cpp\<close> and
  \<^verbatim>\<open>bytes_writer.cpp\<close>. A cursor is the memory it walks, the position of its pointer and the
  number of bytes left; a call that returns \<open>false\<close> is \<open>None\<close>, which is also the statement
  that it changed nothing. The locale \<open>wire_codec\<close> is the contract one fixed-width field has
  with its clients; the four integer widths are its interpretations.
\<close>

unbundle bit_operations_syntax

section \<open>Cursors\<close>

record BytesReader =
  rd_mem :: bytes
  rd_p :: nat
  rd_r :: nat

record BytesWriter =
  wr_mem :: bytes
  wr_p :: nat
  written :: u16
  wr_r :: nat

definition rd_at :: "BytesReader \<Rightarrow> nat \<Rightarrow> 'a::len word" where
  "rd_at rd i = ucast (rd_mem rd ! (rd_p rd + i))"

definition rd_skip :: "nat \<Rightarrow> BytesReader \<Rightarrow> BytesReader" where
  "rd_skip n rd = rd\<lparr>rd_p := rd_p rd + n, rd_r := rd_r rd - n\<rparr>"

definition TakeU8 :: "BytesReader \<Rightarrow> (u8 \<times> BytesReader) option" where
  "TakeU8 rd = (if rd_r rd < 1 then None else Some (rd_at rd 0, rd_skip 1 rd))"

definition TakeU16 :: "BytesReader \<Rightarrow> (u16 \<times> BytesReader) option" where
  "TakeU16 rd = (if rd_r rd < 2 then None
     else Some (rd_at rd 0 OR push_bit 8 (rd_at rd 1), rd_skip 2 rd))"

definition TakeU32 :: "BytesReader \<Rightarrow> (u32 \<times> BytesReader) option" where
  "TakeU32 rd = (if rd_r rd < 4 then None
     else Some (rd_at rd 0 OR push_bit 8 (rd_at rd 1) OR push_bit 16 (rd_at rd 2)
                  OR push_bit 24 (rd_at rd 3), rd_skip 4 rd))"

definition TakeU64 :: "BytesReader \<Rightarrow> (u64 \<times> BytesReader) option" where
  "TakeU64 rd = (if rd_r rd < 8 then None
     else Some (rd_at rd 0 OR push_bit 8 (rd_at rd 1) OR push_bit 16 (rd_at rd 2)
                  OR push_bit 24 (rd_at rd 3) OR push_bit 32 (rd_at rd 4)
                  OR push_bit 40 (rd_at rd 5) OR push_bit 48 (rd_at rd 6)
                  OR push_bit 56 (rd_at rd 7), rd_skip 8 rd))"

definition TakeBytes :: "nat \<Rightarrow> BytesReader \<Rightarrow> (bytes \<times> BytesReader) option" where
  "TakeBytes len rd = (if rd_r rd < len then None
     else Some (take len (drop (rd_p rd) (rd_mem rd)), rd_skip len rd))"

definition AddWritten :: "nat \<Rightarrow> BytesWriter \<Rightarrow> BytesWriter" where
  "AddWritten len w = w\<lparr>written := written w + of_nat len\<rparr>"

definition wr_advance :: "nat \<Rightarrow> BytesWriter \<Rightarrow> BytesWriter" where
  "wr_advance n w = AddWritten n (w\<lparr>wr_p := wr_p w + n, wr_r := wr_r w - n\<rparr>)"

definition wr_store :: "nat \<Rightarrow> u8 \<Rightarrow> BytesWriter \<Rightarrow> BytesWriter" where
  "wr_store i v w = w\<lparr>wr_mem := (wr_mem w)[wr_p w + i := v]\<rparr>"

definition PutU8 :: "u8 \<Rightarrow> BytesWriter \<Rightarrow> BytesWriter option" where
  "PutU8 v w = (if wr_r w < 1 then None else Some (wr_advance 1 (wr_store 0 v w)))"

definition PutU16 :: "u16 \<Rightarrow> BytesWriter \<Rightarrow> BytesWriter option" where
  "PutU16 v w = (if wr_r w < 2 then None
     else Some (wr_advance 2
       (wr_store 1 (ucast (drop_bit 8 v)) (wr_store 0 (ucast v) w))))"

definition PutU32 :: "u32 \<Rightarrow> BytesWriter \<Rightarrow> BytesWriter option" where
  "PutU32 v w = (if wr_r w < 4 then None
     else Some (wr_advance 4
       (wr_store 3 (ucast (drop_bit 24 v)) (wr_store 2 (ucast (drop_bit 16 v))
       (wr_store 1 (ucast (drop_bit 8 v)) (wr_store 0 (ucast v) w))))))"

definition PutU64 :: "u64 \<Rightarrow> BytesWriter \<Rightarrow> BytesWriter option" where
  "PutU64 v w = (if wr_r w < 8 then None
     else Some (wr_advance 8
       (wr_store 7 (ucast (drop_bit 56 v)) (wr_store 6 (ucast (drop_bit 48 v))
       (wr_store 5 (ucast (drop_bit 40 v)) (wr_store 4 (ucast (drop_bit 32 v))
       (wr_store 3 (ucast (drop_bit 24 v)) (wr_store 2 (ucast (drop_bit 16 v))
       (wr_store 1 (ucast (drop_bit 8 v)) (wr_store 0 (ucast v) w))))))))))"

definition mem_write :: "bytes \<Rightarrow> nat \<Rightarrow> bytes \<Rightarrow> bytes" where
  "mem_write mem at bs = take at mem @ bs @ drop (at + length bs) mem"

definition PutBytes :: "bytes \<Rightarrow> BytesWriter \<Rightarrow> BytesWriter option" where
  "PutBytes bs w = (if wr_r w < length bs then None
     else Some (wr_advance (length bs) (w\<lparr>wr_mem := mem_write (wr_mem w) (wr_p w) bs\<rparr>)))"

section \<open>Memory writes\<close>

definition wr_ok :: "BytesWriter \<Rightarrow> bool" where
  "wr_ok w \<longleftrightarrow> wr_p w + wr_r w \<le> length (wr_mem w)"

definition rd_ok :: "BytesReader \<Rightarrow> bool" where
  "rd_ok rd \<longleftrightarrow> rd_p rd + rd_r rd \<le> length (rd_mem rd)"

lemma length_mem_write [simp]:
  "at + length bs \<le> length mem \<Longrightarrow> length (mem_write mem at bs) = length mem"
  by (simp add: mem_write_def)

lemma mem_write_slice:
  "at + length bs \<le> length mem \<Longrightarrow> take (length bs) (drop at (mem_write mem at bs)) = bs"
  by (simp add: mem_write_def)

lemma mem_write_before:
  "at + length bs \<le> length mem \<Longrightarrow> i < at \<Longrightarrow> mem_write mem at bs ! i = mem ! i"
  by (simp add: mem_write_def nth_append)

lemma mem_write_after:
  "at + length bs \<le> length mem \<Longrightarrow> at + length bs \<le> i \<Longrightarrow> i < length mem \<Longrightarrow>
   mem_write mem at bs ! i = mem ! i"
  by (auto simp: mem_write_def nth_append min_def)

lemma mem_write_inside:
  "at + length bs \<le> length mem \<Longrightarrow> at \<le> i \<Longrightarrow> i < at + length bs \<Longrightarrow>
   mem_write mem at bs ! i = bs ! (i - at)"
  by (auto simp: mem_write_def nth_append min_def)

lemma mem_write_Nil [simp]: "mem_write mem at [] = mem"
  by (simp add: mem_write_def)

lemma mem_write_snoc:
  assumes "at + length bs < length mem"
  shows "(mem_write mem at bs)[at + length bs := b] = mem_write mem at (bs @ [b])"
  using assms by (simp add: mem_write_def list_update_append upd_conv_take_nth_drop)

lemma mem_write_append:
  assumes "at + length xs + length ys \<le> length mem"
  shows "mem_write (mem_write mem at xs) (at + length xs) ys = mem_write mem at (xs @ ys)"
  using assms by (simp add: mem_write_def ac_simps)

lemma slice_nth:
  assumes "take n (drop at mem) = bs" and "i < n" and "at + n \<le> length mem"
  shows "mem ! (at + i) = bs ! i"
  using assms by (metis add_leD1 nth_drop nth_take)

section \<open>Little-endian images\<close>

definition le16 :: "u16 \<Rightarrow> bytes" where
  "le16 v = [ucast v, ucast (drop_bit 8 v)]"

definition le32 :: "u32 \<Rightarrow> bytes" where
  "le32 v = [ucast v, ucast (drop_bit 8 v), ucast (drop_bit 16 v), ucast (drop_bit 24 v)]"

definition le64 :: "u64 \<Rightarrow> bytes" where
  "le64 v = [ucast v, ucast (drop_bit 8 v), ucast (drop_bit 16 v), ucast (drop_bit 24 v),
             ucast (drop_bit 32 v), ucast (drop_bit 40 v), ucast (drop_bit 48 v), ucast (drop_bit 56 v)]"

lemma length_le [simp]: "length (le16 a) = 2" "length (le32 b) = 4" "length (le64 c) = 8"
  by (simp_all add: le16_def le32_def le64_def)

lemma byte_bit:
  fixes v :: "'a::len word"
  assumes "k + 8 \<le> LENGTH('a)"
  shows "bit (push_bit k (ucast (ucast (drop_bit k v) :: u8)) :: 'a word) i \<longleftrightarrow> k \<le> i \<and> i < k + 8 \<and> bit v i"
  using assms by (auto simp: bit_simps)

lemma low_byte_bit:
  fixes v :: "'a::len word"
  assumes "8 \<le> LENGTH('a)"
  shows "bit (ucast (ucast v :: u8) :: 'a word) i \<longleftrightarrow> i < 8 \<and> bit v i"
  using assms by (auto simp: bit_simps)

lemma le16_decode:
  fixes v :: u16
  shows "ucast (ucast v :: u8) OR push_bit 8 (ucast (ucast (drop_bit 8 v) :: u8)) = v" (is "?l = v")
proof (rule bit_word_eqI)
  fix i assume "i < LENGTH(16)"
  then show "bit ?l i = bit v i"
    by (cases "bit v i") (simp_all add: bit_or_iff byte_bit low_byte_bit, arith?)
qed

lemma le32_decode:
  fixes v :: u32
  shows "ucast (ucast v :: u8) OR push_bit 8 (ucast (ucast (drop_bit 8 v) :: u8))
           OR push_bit 16 (ucast (ucast (drop_bit 16 v) :: u8))
           OR push_bit 24 (ucast (ucast (drop_bit 24 v) :: u8)) = v" (is "?l = v")
proof (rule bit_word_eqI)
  fix i assume "i < LENGTH(32)"
  then show "bit ?l i = bit v i"
    by (cases "bit v i") (simp_all add: bit_or_iff byte_bit low_byte_bit, arith?)
qed

lemma le64_decode:
  fixes v :: u64
  shows "ucast (ucast v :: u8) OR push_bit 8 (ucast (ucast (drop_bit 8 v) :: u8))
           OR push_bit 16 (ucast (ucast (drop_bit 16 v) :: u8))
           OR push_bit 24 (ucast (ucast (drop_bit 24 v) :: u8))
           OR push_bit 32 (ucast (ucast (drop_bit 32 v) :: u8))
           OR push_bit 40 (ucast (ucast (drop_bit 40 v) :: u8))
           OR push_bit 48 (ucast (ucast (drop_bit 48 v) :: u8))
           OR push_bit 56 (ucast (ucast (drop_bit 56 v) :: u8)) = v" (is "?l = v")
proof (rule bit_word_eqI)
  fix i assume "i < LENGTH(64)"
  then show "bit ?l i = bit v i"
    by (cases "bit v i") (simp_all add: bit_or_iff byte_bit low_byte_bit, arith?)
qed

lemma store_one:
  "wr_p w < length (wr_mem w) \<Longrightarrow> wr_store 0 a w = w\<lparr>wr_mem := mem_write (wr_mem w) (wr_p w) [a]\<rparr>"
  using mem_write_snoc [of "wr_p w" "[]" "wr_mem w" a] by (simp add: wr_store_def)

lemma store_more:
  "length bs = n \<Longrightarrow> wr_p w + n < length (wr_mem w) \<Longrightarrow>
   wr_store n b (w\<lparr>wr_mem := mem_write (wr_mem w) (wr_p w) bs\<rparr>)
     = w\<lparr>wr_mem := mem_write (wr_mem w) (wr_p w) (bs @ [b])\<rparr>"
  by (auto simp: wr_store_def mem_write_snoc)

lemma rd_at_slice:
  assumes "rd_ok rd" "n \<le> rd_r rd" "take n (drop (rd_p rd) (rd_mem rd)) = bs" "i < n"
  shows "rd_at rd i = ucast (bs ! i)"
  using assms slice_nth [OF assms(3,4)] by (simp add: rd_at_def rd_ok_def)

section \<open>The contract of a fixed-width field\<close>

locale wire_codec =
  fixes put :: "'a \<Rightarrow> BytesWriter \<Rightarrow> BytesWriter option"
    and get :: "BytesReader \<Rightarrow> ('a \<times> BytesReader) option"
    and enc :: "'a \<Rightarrow> bytes"
    and width :: nat
  assumes enc_length: "length (enc v) = width"
    and put_refused: "wr_r w < width \<Longrightarrow> put v w = None"
    and put_writes: "wr_ok w \<Longrightarrow> width \<le> wr_r w \<Longrightarrow>
      put v w = Some (wr_advance width (w\<lparr>wr_mem := mem_write (wr_mem w) (wr_p w) (enc v)\<rparr>))"
    and get_refused: "rd_r rd < width \<Longrightarrow> get rd = None"
    and get_reads: "rd_ok rd \<Longrightarrow> width \<le> rd_r rd \<Longrightarrow>
      take width (drop (rd_p rd) (rd_mem rd)) = enc v \<Longrightarrow> get rd = Some (v, rd_skip width rd)"
begin

lemma put_SomeD:
  assumes "put v w = Some w'" and "wr_ok w"
  shows "width \<le> wr_r w" and "wr_p w' = wr_p w + width" and "wr_r w' = wr_r w - width"
    and "wr_mem w' = mem_write (wr_mem w) (wr_p w) (enc v)"
    and "written w' = written w + of_nat width" and "wr_ok w'"
proof -
  show le: "width \<le> wr_r w" using assms put_refused [of w v] by (cases "wr_r w < width") auto
  have w': "w' = wr_advance width (w\<lparr>wr_mem := mem_write (wr_mem w) (wr_p w) (enc v)\<rparr>)"
    using put_writes [OF assms(2) le] assms(1) by simp
  then show "wr_p w' = wr_p w + width" "wr_r w' = wr_r w - width"
    "wr_mem w' = mem_write (wr_mem w) (wr_p w) (enc v)" "written w' = written w + of_nat width"
    by (simp_all add: wr_advance_def AddWritten_def)
  then show "wr_ok w'" using assms(2) le by (simp add: wr_ok_def enc_length)
qed

lemma get_image:
  assumes "rd_ok rd" and "width \<le> rd_r rd" and "take (rd_r rd) (drop (rd_p rd) (rd_mem rd)) = enc v @ rest"
  shows "get rd = Some (v, rd_skip width rd) \<and> rd_ok (rd_skip width rd)
     \<and> take (rd_r (rd_skip width rd)) (drop (rd_p (rd_skip width rd)) (rd_mem rd)) = rest"
proof -
  have "take width (drop (rd_p rd) (rd_mem rd)) = take width (enc v @ rest)"
    using assms(2) by (simp add: assms(3) [symmetric] min_def)
  then have "take width (drop (rd_p rd) (rd_mem rd)) = enc v" by (simp add: enc_length)
  moreover have "take (rd_r rd - width) (drop (rd_p rd + width) (rd_mem rd)) = rest"
    using arg_cong [OF assms(3), of "drop width"] by (simp add: drop_take add.commute enc_length)
  ultimately show ?thesis
    using assms(1,2) by (simp add: get_reads rd_skip_def rd_ok_def)
qed

end

interpretation c8: wire_codec PutU8 TakeU8 "\<lambda>v. [v]" 1
proof
  show "PutU8 v w = Some (wr_advance 1 (w\<lparr>wr_mem := mem_write (wr_mem w) (wr_p w) [v]\<rparr>))"
    if "wr_ok w" "1 \<le> wr_r w" for v w
    using that by (simp add: PutU8_def store_one store_more wr_ok_def)
  show "TakeU8 rd = Some (v, rd_skip 1 rd)"
    if "rd_ok rd" "1 \<le> rd_r rd" "take 1 (drop (rd_p rd) (rd_mem rd)) = [v]" for rd v
  proof -
    note at = rd_at_slice [OF that]
    show ?thesis
      using that(2) by (simp add: TakeU8_def at)
  qed
qed (simp_all add: PutU8_def TakeU8_def)

interpretation c16: wire_codec PutU16 TakeU16 le16 2
proof
  show "PutU16 v w = Some (wr_advance 2 (w\<lparr>wr_mem := mem_write (wr_mem w) (wr_p w) (le16 v)\<rparr>))"
    if "wr_ok w" "2 \<le> wr_r w" for v w
    using that by (simp add: PutU16_def store_one store_more wr_ok_def le16_def)
  show "TakeU16 rd = Some (v, rd_skip 2 rd)"
    if "rd_ok rd" "2 \<le> rd_r rd" "take 2 (drop (rd_p rd) (rd_mem rd)) = le16 v" for rd v
  proof -
    note at = rd_at_slice [OF that]
    show ?thesis
      using that(2) le16_decode [of v] by (simp add: TakeU16_def at le16_def)
  qed
qed (simp_all add: PutU16_def TakeU16_def)

interpretation c32: wire_codec PutU32 TakeU32 le32 4
proof
  show "PutU32 v w = Some (wr_advance 4 (w\<lparr>wr_mem := mem_write (wr_mem w) (wr_p w) (le32 v)\<rparr>))"
    if "wr_ok w" "4 \<le> wr_r w" for v w
    using that by (simp add: PutU32_def store_one store_more wr_ok_def le32_def)
  show "TakeU32 rd = Some (v, rd_skip 4 rd)"
    if "rd_ok rd" "4 \<le> rd_r rd" "take 4 (drop (rd_p rd) (rd_mem rd)) = le32 v" for rd v
  proof -
    note at = rd_at_slice [OF that]
    show ?thesis
      using that(2) le32_decode [of v] by (simp add: TakeU32_def at le32_def)
  qed
qed (simp_all add: PutU32_def TakeU32_def)

interpretation c64: wire_codec PutU64 TakeU64 le64 8
proof
  show "PutU64 v w = Some (wr_advance 8 (w\<lparr>wr_mem := mem_write (wr_mem w) (wr_p w) (le64 v)\<rparr>))"
    if "wr_ok w" "8 \<le> wr_r w" for v w
    using that by (simp add: PutU64_def store_one store_more wr_ok_def le64_def)
  show "TakeU64 rd = Some (v, rd_skip 8 rd)"
    if "rd_ok rd" "8 \<le> rd_r rd" "take 8 (drop (rd_p rd) (rd_mem rd)) = le64 v" for rd v
  proof -
    note at = rd_at_slice [OF that]
    show ?thesis
      using that(2) le64_decode [of v] by (simp add: TakeU64_def at le64_def)
  qed
qed (simp_all add: PutU64_def TakeU64_def)

section \<open>Whole records of fields\<close>

text \<open>A wire header is a sequence of fields written by one cursor and read back by another.\<close>

datatype field = F8 u8 | F16 u16 | F32 u32 | F64 u64 | FB bytes

datatype shape = S8 | S16 | S32 | S64 | SB nat

fun shape_of :: "field \<Rightarrow> shape" where
  "shape_of (F8 v) = S8"
| "shape_of (F16 v) = S16"
| "shape_of (F32 v) = S32"
| "shape_of (F64 v) = S64"
| "shape_of (FB bs) = SB (length bs)"

fun field_image :: "field \<Rightarrow> bytes" where
  "field_image (F8 v) = [v]"
| "field_image (F16 v) = le16 v"
| "field_image (F32 v) = le32 v"
| "field_image (F64 v) = le64 v"
| "field_image (FB bs) = bs"

fun put_field :: "field \<Rightarrow> BytesWriter \<Rightarrow> BytesWriter option" where
  "put_field (F8 v) w = PutU8 v w"
| "put_field (F16 v) w = PutU16 v w"
| "put_field (F32 v) w = PutU32 v w"
| "put_field (F64 v) w = PutU64 v w"
| "put_field (FB bs) w = PutBytes bs w"

fun take_field :: "shape \<Rightarrow> BytesReader \<Rightarrow> (field \<times> BytesReader) option" where
  "take_field S8 rd = map_option (\<lambda>(v, rd). (F8 v, rd)) (TakeU8 rd)"
| "take_field S16 rd = map_option (\<lambda>(v, rd). (F16 v, rd)) (TakeU16 rd)"
| "take_field S32 rd = map_option (\<lambda>(v, rd). (F32 v, rd)) (TakeU32 rd)"
| "take_field S64 rd = map_option (\<lambda>(v, rd). (F64 v, rd)) (TakeU64 rd)"
| "take_field (SB n) rd = map_option (\<lambda>(bs, rd). (FB bs, rd)) (TakeBytes n rd)"

fun put_fields :: "field list \<Rightarrow> BytesWriter \<Rightarrow> BytesWriter option" where
  "put_fields [] w = Some w"
| "put_fields (f # fs) w = (case put_field f w of None \<Rightarrow> None | Some w' \<Rightarrow> put_fields fs w')"

fun take_fields :: "shape list \<Rightarrow> BytesReader \<Rightarrow> (field list \<times> BytesReader) option" where
  "take_fields [] rd = Some ([], rd)"
| "take_fields (s # ss) rd =
     (case take_field s rd of None \<Rightarrow> None
      | Some (f, rd') \<Rightarrow> map_option (\<lambda>(fs, rd''). (f # fs, rd'')) (take_fields ss rd'))"

abbreviation fields_image :: "field list \<Rightarrow> bytes" where
  "fields_image fs \<equiv> concat (map field_image fs)"

lemma PutBytes_SomeD:
  assumes "PutBytes bs w = Some w'" and "wr_ok w"
  shows "length bs \<le> wr_r w \<and> wr_p w' = wr_p w + length bs \<and> wr_r w' = wr_r w - length bs
    \<and> wr_mem w' = mem_write (wr_mem w) (wr_p w) bs
    \<and> written w' = written w + of_nat (length bs) \<and> wr_ok w'"
  using assms by (auto simp: PutBytes_def wr_advance_def AddWritten_def wr_ok_def split: if_splits)

lemma put_field_SomeD:
  assumes "put_field f w = Some w'" and "wr_ok w"
  shows "length (field_image f) \<le> wr_r w \<and> wr_p w' = wr_p w + length (field_image f)
    \<and> wr_r w' = wr_r w - length (field_image f)
    \<and> wr_mem w' = mem_write (wr_mem w) (wr_p w) (field_image f)
    \<and> written w' = written w + of_nat (length (field_image f)) \<and> wr_ok w'"
proof (cases f)
  case (F8 v) then show ?thesis using assms c8.put_SomeD [of v w w'] by simp
next
  case (F16 v) then show ?thesis using assms c16.put_SomeD [of v w w'] by simp
next
  case (F32 v) then show ?thesis using assms c32.put_SomeD [of v w w'] by simp
next
  case (F64 v) then show ?thesis using assms c64.put_SomeD [of v w w'] by simp
next
  case (FB bs) then show ?thesis using assms PutBytes_SomeD [of bs w w'] by simp
qed

lemma put_field_None:
  "put_field f w = None \<longleftrightarrow> wr_r w < length (field_image f)"
  by (cases f) (simp_all add: PutU8_def PutU16_def PutU32_def PutU64_def PutBytes_def)

lemma put_fields_SomeD:
  assumes "put_fields fs w = Some w'" and "wr_ok w"
  shows "length (fields_image fs) \<le> wr_r w \<and> wr_p w' = wr_p w + length (fields_image fs)
    \<and> wr_r w' = wr_r w - length (fields_image fs)
    \<and> wr_mem w' = mem_write (wr_mem w) (wr_p w) (fields_image fs)
    \<and> written w' = written w + of_nat (length (fields_image fs)) \<and> wr_ok w'"
  using assms
proof (induction fs arbitrary: w)
  case Nil
  then show ?case by simp
next
  case (Cons f fs)
  obtain w1 where w1: "put_field f w = Some w1" "put_fields fs w1 = Some w'"
    using Cons.prems(1) by (auto split: option.splits)
  note h = put_field_SomeD [OF w1(1) Cons.prems(2)]
  note t = Cons.IH [OF w1(2)]
  have "mem_write (mem_write (wr_mem w) (wr_p w) (field_image f)) (wr_p w + length (field_image f)) (fields_image fs)
      = mem_write (wr_mem w) (wr_p w) (field_image f @ fields_image fs)"
    by (rule mem_write_append) (use h t Cons.prems(2) in \<open>auto simp: wr_ok_def\<close>)
  then show ?case using h t by auto
qed

lemma put_fields_fits:
  assumes "length (fields_image fs) \<le> wr_r w" and "wr_ok w"
  shows "\<exists>w'. put_fields fs w = Some w'"
  using assms
proof (induction fs arbitrary: w)
  case Nil
  then show ?case by simp
next
  case (Cons f fs)
  then obtain w1 where w1: "put_field f w = Some w1"
    using put_field_None [of f w] by (cases "put_field f w") auto
  have "\<exists>w'. put_fields fs w1 = Some w'"
    by (rule Cons.IH) (use put_field_SomeD [OF w1 Cons.prems(2)] Cons.prems in auto)
  with w1 show ?case by simp
qed

definition rd_rest :: "BytesReader \<Rightarrow> bytes" where
  "rd_rest rd = take (rd_r rd) (drop (rd_p rd) (rd_mem rd))"

lemma take_field_image:
  assumes "rd_ok rd" and "rd_rest rd = field_image f @ rest"
  shows "\<exists>rd'. take_field (shape_of f) rd = Some (f, rd') \<and> rd_ok rd' \<and> rd_rest rd' = rest"
proof -
  have len: "length (field_image f) \<le> rd_r rd"
    using arg_cong [OF assms(2), of length] assms(1) by (simp add: rd_rest_def rd_ok_def)
  have mem: "rd_mem (rd_skip n rd) = rd_mem rd" for n by (simp add: rd_skip_def)
  show ?thesis
  proof (cases f)
    case (F8 v) then show ?thesis using assms len c8.get_image [of rd v rest] by (simp add: rd_rest_def mem)
  next
    case (F16 v) then show ?thesis using assms len c16.get_image [of rd v rest] by (simp add: rd_rest_def mem)
  next
    case (F32 v) then show ?thesis using assms len c32.get_image [of rd v rest] by (simp add: rd_rest_def mem)
  next
    case (F64 v) then show ?thesis using assms len c64.get_image [of rd v rest] by (simp add: rd_rest_def mem)
  next
    case (FB bs)
    have "take (length bs) (rd_rest rd) = bs" "drop (length bs) (rd_rest rd) = rest"
      using assms(2) FB by simp_all
    then show ?thesis using FB assms(1) len
      by (auto simp: rd_rest_def TakeBytes_def rd_skip_def rd_ok_def min_def drop_take add.commute)
  qed
qed

lemma take_fields_image:
  assumes "rd_ok rd" and "rd_rest rd = fields_image fs @ rest"
  shows "\<exists>rd'. take_fields (map shape_of fs) rd = Some (fs, rd') \<and> rd_ok rd' \<and> rd_rest rd' = rest"
  using assms
proof (induction fs arbitrary: rd)
  case Nil
  then show ?case by simp
next
  case (Cons f fs)
  then obtain rd1 where "take_field (shape_of f) rd = Some (f, rd1)" "rd_ok rd1" "rd_rest rd1 = fields_image fs @ rest"
    using take_field_image [of rd f "fields_image fs @ rest"] by auto
  with Cons.IH [of rd1] show ?case by auto
qed

text \<open>
  C20: A record of fields that fits the space left is always written, advances the cursor and its
  running total (modulo 2^16) by exactly the encoded length, changes no byte outside that range, and
  a reader placed where the writer started reads back exactly the same fields.
\<close>

theorem put_take_roundtrip:
  assumes "wr_ok w" and "length (fields_image fs) \<le> wr_r w"
  shows "\<exists>w'. put_fields fs w = Some w'
    \<and> wr_p w' = wr_p w + length (fields_image fs) \<and> written w' = written w + of_nat (length (fields_image fs))
    \<and> (\<forall>i. (i < wr_p w \<or> wr_p w' \<le> i) \<and> i < length (wr_mem w) \<longrightarrow> wr_mem w' ! i = wr_mem w ! i)
    \<and> (\<exists>rd'. take_fields (map shape_of fs)
          \<lparr>rd_mem = wr_mem w', rd_p = wr_p w, rd_r = wr_p w' - wr_p w\<rparr> = Some (fs, rd') \<and> rd_r rd' = 0)"
proof -
  obtain w' where w': "put_fields fs w = Some w'"
    using put_fields_fits assms by blast
  note d = put_fields_SomeD [OF w' assms(1)]
  have fit: "wr_p w + length (fields_image fs) \<le> length (wr_mem w)"
    using assms by (simp add: wr_ok_def)
  let ?rd = "\<lparr>rd_mem = wr_mem w', rd_p = wr_p w, rd_r = wr_p w' - wr_p w\<rparr>"
  have "rd_ok ?rd" using d fit by (simp add: rd_ok_def)
  moreover have "rd_rest ?rd = fields_image fs @ []"
    using d mem_write_slice [OF fit] by (simp add: rd_rest_def)
  ultimately obtain rd' where "take_fields (map shape_of fs) ?rd = Some (fs, rd')" "rd_ok rd'" "rd_rest rd' = []"
    using take_fields_image by blast
  then have "take_fields (map shape_of fs) ?rd = Some (fs, rd') \<and> rd_r rd' = 0"
    by (auto simp: rd_rest_def rd_ok_def)
  moreover have "\<forall>i. (i < wr_p w \<or> wr_p w' \<le> i) \<and> i < length (wr_mem w) \<longrightarrow> wr_mem w' ! i = wr_mem w ! i"
    using d fit mem_write_before mem_write_after by auto
  ultimately show ?thesis using w' d by blast
qed

theorem put_take_roundtrip_witness:
  "\<exists>w'. put_fields [F8 7, F32 0x01020304, F64 9] \<lparr>wr_mem = replicate 20 0, wr_p = 2, written = 0xFFFE, wr_r = 18\<rparr> = Some w'
     \<and> wr_p w' = 15 \<and> written w' = 11"
  using put_take_roundtrip [of "\<lparr>wr_mem = replicate 20 0, wr_p = 2, written = 0xFFFE, wr_r = 18\<rparr>"
      "[F8 7, F32 0x01020304, F64 9]"]
  by (auto simp: wr_ok_def)

end
