(* ===== verification/Replay_Window.thy ===== *)
theory Replay_Window
  imports Flux_Prelude
begin

text \<open>
  The sliding replay filter of \<^verbatim>\<open>flux/internal/replay_window.cpp\<close>. The caller's block of
  \<open>1 + words\<close> 64-bit words is split into its first word \<open>high\<close> (\<open>state[0]\<close>) and the bitmap
  \<open>bmp\<close> (\<open>state[1..words]\<close>), so \<open>words\<close> is the length of the bitmap. The shift is the
  in-place, descending word loop of the source. The filter is refined to a specification that
  remembers every accepted counter.
\<close>

unbundle bit_operations_syntax

section \<open>Definitions\<close>

record ReplayWindow =
  high :: u64
  bmp :: "u64 list"

definition ReplayWindow_Reset :: "ReplayWindow \<Rightarrow> ReplayWindow" where
  "ReplayWindow_Reset win = \<lparr>high = 0, bmp = map (\<lambda>_. 0) (bmp win)\<rparr>"

definition window_bits :: "ReplayWindow \<Rightarrow> u64" where
  "window_bits win = of_nat (length (bmp win)) * 64"

definition shifted_word :: "nat \<Rightarrow> nat \<Rightarrow> u64 list \<Rightarrow> nat \<Rightarrow> u64" where
  "shifted_word wordShift bitShift b w =
     (if wordShift \<le> w
      then let src = w - wordShift;
               v = push_bit bitShift (b ! src)
           in if bitShift \<noteq> 0 \<and> 1 \<le> src then v OR drop_bit (64 - bitShift) (b ! (src - 1)) else v
      else 0)"

fun shift_words :: "nat \<Rightarrow> nat \<Rightarrow> nat \<Rightarrow> u64 list \<Rightarrow> u64 list" where
  "shift_words wordShift bitShift 0 b = b"
| "shift_words wordShift bitShift (Suc w) b =
     shift_words wordShift bitShift w (b[w := shifted_word wordShift bitShift b w])"

definition slide :: "u64 \<Rightarrow> ReplayWindow \<Rightarrow> u64 list" where
  "slide diff win =
     (if window_bits win \<le> diff then map (\<lambda>_. 0) (bmp win)
      else shift_words (unat (ucast (diff div 64) :: u32)) (unat (ucast (diff mod 64) :: u32))
             (length (bmp win)) (bmp win))"

definition ReplayWindow_Accept :: "u64 \<Rightarrow> ReplayWindow \<Rightarrow> bool \<times> ReplayWindow" where
  "ReplayWindow_Accept counter win =
     (if counter = 0 then (False, win)
      else if high win < counter then
        (let b = slide (counter - high win) win
         in (True, win\<lparr>high := counter, bmp := b[0 := b ! 0 OR 1]\<rparr>))
      else
        (let diff = high win - counter in
         if window_bits win \<le> diff then (False, win)
         else
           (let word = unat (ucast (diff div 64) :: u32);
                mask = push_bit (unat (diff mod 64)) 1
            in if bmp win ! word AND mask \<noteq> 0 then (False, win)
               else (True, win\<lparr>bmp := (bmp win)[word := bmp win ! word OR mask]\<rparr>))))"

fun ReplayWindow_Accept_all :: "u64 list \<Rightarrow> ReplayWindow \<Rightarrow> bool list \<times> ReplayWindow" where
  "ReplayWindow_Accept_all [] win = ([], win)"
| "ReplayWindow_Accept_all (c # cs) win =
     (let (ok, win') = ReplayWindow_Accept c win; (oks, win'') = ReplayWindow_Accept_all cs win' in (ok # oks, win''))"

section \<open>The bitmap as a set of positions\<close>

definition replay_ok :: "ReplayWindow \<Rightarrow> bool" where
  "replay_ok win \<longleftrightarrow> 0 < length (bmp win) \<and> length (bmp win) < 2 ^ 31"

definition marked :: "u64 list \<Rightarrow> nat \<Rightarrow> bool" where
  "marked b i \<longleftrightarrow> bit (b ! (i div 64)) (i mod 64)"

lemma length_shift_words [simp]: "length (shift_words ws bs n b) = length b"
  by (induction n arbitrary: b) simp_all

lemma length_slide [simp]: "length (slide d win) = length (bmp win)"
  by (simp add: slide_def)

lemma shifted_word_cong:
  "(\<And>i. i \<le> w \<Longrightarrow> b ! i = b' ! i) \<Longrightarrow> shifted_word ws bs b w = shifted_word ws bs b' w"
  by (simp add: shifted_word_def Let_def)

text \<open>The loop runs downwards, so every word it reads still has its old value.\<close>

lemma shift_words_nth:
  "n \<le> length b \<Longrightarrow> w < length b \<Longrightarrow>
   shift_words ws bs n b ! w = (if w < n then shifted_word ws bs b w else b ! w)"
proof (induction n arbitrary: b)
  case 0
  then show ?case by simp
next
  case (Suc n)
  let ?b = "b[n := shifted_word ws bs b n]"
  have "shift_words ws bs (Suc n) b ! w = (if w < n then shifted_word ws bs ?b w else ?b ! w)"
    using Suc.IH [of ?b] Suc.prems by simp
  moreover have "shifted_word ws bs ?b w = shifted_word ws bs b w" if "w < n"
    by (rule shifted_word_cong) (use that in auto)
  ultimately show ?case using Suc.prems by (auto simp: less_Suc_eq)
qed

lemma div_mod_64:
  fixes k r :: nat
  assumes "r < 64"
  shows "(64 * k + r) div 64 = k" and "(64 * k + r) mod 64 = r"
  using assms by simp_all

lemma bit_shifted_word:
  assumes "bs < 64" and "j < 64" and "64 * ws + bs \<le> 64 * w + j"
  shows "bit (shifted_word ws bs b w) j = marked b (64 * w + j - (64 * ws + bs))"
proof (cases "bs \<le> j")
  case True
  then have ws: "ws \<le> w" using assms by linarith
  have "64 * w + j - (64 * ws + bs) = 64 * (w - ws) + (j - bs)" using True ws by simp
  then have "marked b (64 * w + j - (64 * ws + bs)) = bit (b ! (w - ws)) (j - bs)"
    using div_mod_64 [of "j - bs" "w - ws"] assms by (simp add: marked_def)
  moreover have "\<not> bit (drop_bit (64 - bs) (b ! (w - ws - 1))) j"
  proof
    assume "bit (drop_bit (64 - bs) (b ! (w - ws - 1))) j"
    then have "64 - bs + j < 64" using bit_imp_le_length by (fastforce simp: bit_drop_bit_eq)
    then show False using True assms by simp
  qed
  ultimately show ?thesis
    using True ws assms by (simp add: shifted_word_def Let_def bit_or_iff bit_push_bit_iff)
next
  case False
  then have ws: "Suc ws \<le> w" using assms by linarith
  have "64 * w + j - (64 * ws + bs) = 64 * (w - ws - 1) + (64 + j - bs)" using False ws assms by simp
  then have "marked b (64 * w + j - (64 * ws + bs)) = bit (b ! (w - ws - 1)) (64 + j - bs)"
    using div_mod_64 [of "64 + j - bs" "w - ws - 1"] assms False by (simp add: marked_def)
  moreover have "Suc 0 \<le> w - ws" using ws by simp
  ultimately show ?thesis
    using False ws assms
    by (simp add: shifted_word_def Let_def bit_or_iff bit_push_bit_iff bit_drop_bit_eq)
qed

lemma bit_shifted_word_low:
  assumes "bs < 64" and "j < 64" and "64 * w + j < 64 * ws + bs"
  shows "\<not> bit (shifted_word ws bs b w) j"
proof (cases "ws \<le> w")
  case True
  then have eq: "w = ws" and "j < bs" using assms by auto
  then show ?thesis by (simp add: shifted_word_def Let_def bit_push_bit_iff)
qed (simp add: shifted_word_def)

lemma marked_shift_words:
  assumes "bs < 64" and "i < 64 * length b"
  shows "marked (shift_words ws bs (length b) b) i \<longleftrightarrow> 64 * ws + bs \<le> i \<and> marked b (i - (64 * ws + bs))"
proof -
  have w: "i div 64 < length b" using assms(2) by (simp add: less_mult_imp_div_less mult.commute)
  have i: "64 * (i div 64) + i mod 64 = i" by simp
  have "marked (shift_words ws bs (length b) b) i = bit (shifted_word ws bs b (i div 64)) (i mod 64)"
    using w by (simp add: marked_def shift_words_nth)
  then show ?thesis
    using bit_shifted_word [OF assms(1), of "i mod 64" ws "i div 64" b]
      bit_shifted_word_low [OF assms(1), of "i mod 64" "i div 64" ws b]
    unfolding i by (cases "64 * ws + bs \<le> i") simp_all
qed

lemma window_bits_unat: "replay_ok win \<Longrightarrow> unat (window_bits win) = 64 * length (bmp win)"
proof -
  assume "replay_ok win"
  then have l: "length (bmp win) < 2 ^ 31" by (simp add: replay_ok_def)
  then have u: "unat (of_nat (length (bmp win)) :: u64) = length (bmp win)"
    by (simp add: unat_of_nat)
  show "unat (window_bits win) = 64 * length (bmp win)"
    unfolding window_bits_def by (subst unat_mult_small) (use l u in simp_all)
qed

lemma unat_shift_amounts:
  fixes d :: u64
  assumes "unat d < 2 ^ 37"
  shows "unat (ucast (d div 64) :: u32) = unat d div 64" "unat (ucast (d mod 64) :: u32) = unat d mod 64"
proof -
  have "unat d div 64 < 2 ^ 32" using assms by simp
  then show "unat (ucast (d div 64) :: u32) = unat d div 64"
    by (simp add: unat_ucast unat_div)
  have "unat d mod 64 < 2 ^ 32" by (rule less_trans [of _ 64]) simp_all
  then show "unat (ucast (d mod 64) :: u32) = unat d mod 64"
    by (simp add: unat_ucast unat_mod)
qed

lemma marked_zero: "i < 64 * length b \<Longrightarrow> \<not> marked (map (\<lambda>_. 0) b) i"
  by (simp add: marked_def less_mult_imp_div_less mult.commute)

lemma marked_slide:
  assumes "replay_ok win" and "i < 64 * length (bmp win)"
  shows "marked (slide d win) i \<longleftrightarrow> unat d \<le> i \<and> marked (bmp win) (i - unat d)"
proof (cases "window_bits win \<le> d")
  case True
  then have "64 * length (bmp win) \<le> unat d"
    using window_bits_unat [OF assms(1)] by (simp add: word_le_nat_alt)
  then show ?thesis using True assms by (simp add: slide_def marked_zero)
next
  case False
  then have d: "unat d < 64 * length (bmp win)"
    using window_bits_unat [OF assms(1)] by (simp add: word_le_nat_alt)
  then have "unat d < 2 ^ 37" using assms(1) by (simp add: replay_ok_def)
  note u = unat_shift_amounts [OF this]
  have "64 * (unat d div 64) + unat d mod 64 = unat d" by simp
  with False assms u show ?thesis
    by (simp add: slide_def marked_shift_words)
qed

lemma marked_set:
  assumes "k < 64 * length b"
  shows "marked (b[k div 64 := b ! (k div 64) OR push_bit (k mod 64) 1]) i \<longleftrightarrow> i = k \<or> marked b i"
proof (cases "i div 64 = k div 64")
  case True
  have k: "k div 64 < length b" using assms by (simp add: less_mult_imp_div_less mult.commute)
  have "bit (push_bit (k mod 64) 1 :: u64) (i mod 64) \<longleftrightarrow> i mod 64 = k mod 64"
    by (auto simp: bit_exp_iff)
  moreover have "i = k \<longleftrightarrow> i mod 64 = k mod 64" using True by (metis mult_div_mod_eq)
  ultimately show ?thesis
    using True k by (auto simp: marked_def bit_or_iff)
next
  case False
  then show ?thesis by (auto simp: marked_def)
qed

lemma and_single_bit:
  "(w :: u64) AND 2 ^ n = 0 \<longleftrightarrow> \<not> bit w n"
proof -
  have "w AND 2 ^ n = (if bit w n then 2 ^ n else 0)"
    by (rule bit_word_eqI) (auto simp: bit_simps)
  moreover have "2 ^ n \<noteq> (0 :: u64)" if "bit w n"
    using bit_imp_le_length [OF that] by simp
  ultimately show ?thesis by auto
qed

section \<open>The specification: a filter with unbounded memory\<close>

type_synonym history = "nat \<times> nat set"

fun spec_accept :: "nat \<Rightarrow> nat \<Rightarrow> history \<Rightarrow> bool \<times> history" where
  "spec_accept bits c (h, S) =
     (if c = 0 then (False, (h, S))
      else if h < c then (True, (c, insert c S))
      else if bits \<le> h - c \<or> c \<in> S then (False, (h, S))
      else (True, (h, insert c S)))"

fun spec_all :: "nat \<Rightarrow> nat list \<Rightarrow> history \<Rightarrow> bool list \<times> history" where
  "spec_all bits [] a = ([], a)"
| "spec_all bits (c # cs) a =
     (let (ok, a') = spec_accept bits c a; (oks, a'') = spec_all bits cs a' in (ok # oks, a''))"

definition replay_rel :: "ReplayWindow \<Rightarrow> history \<Rightarrow> bool" where
  "replay_rel win a \<longleftrightarrow> replay_ok win \<and> unat (high win) = fst a \<and> (\<forall>c\<in>snd a. 0 < c \<and> c \<le> fst a) \<and>
     (\<forall>c. 0 < c \<and> c \<le> fst a \<and> fst a - c < 64 * length (bmp win) \<longrightarrow>
        (marked (bmp win) (fst a - c) \<longleftrightarrow> c \<in> snd a))"

lemma ReplayWindow_Accept_new_high:
  assumes rel: "replay_rel win (h, S)" and "high win < counter"
  shows "\<exists>win'. ReplayWindow_Accept counter win = (True, win') \<and> length (bmp win') = length (bmp win)
     \<and> replay_rel win' (unat counter, insert (unat counter) S)"
proof -
  let ?b = "slide (counter - high win) win"
  let ?win = "win\<lparr>high := counter, bmp := ?b[0 := ?b ! 0 OR 1]\<rparr>"
  have ok: "replay_ok win" and h: "unat (high win) = h" and S: "\<forall>c\<in>S. 0 < c \<and> c \<le> h"
    using rel by (auto simp: replay_rel_def)
  have hc: "h < unat counter" using assms(2) h by (simp add: word_less_nat_alt)
  have d: "unat (counter - high win) = unat counter - h"
    using assms(2) h by (simp add: unat_sub less_imp_le)
  have "counter \<noteq> 0" using hc by auto
  then have acc: "ReplayWindow_Accept counter win = (True, ?win)"
    using assms(2) by (simp add: ReplayWindow_Accept_def Let_def)
  have len: "0 < length ?b" using ok by (simp add: replay_ok_def)
  have m: "marked (?b[0 := ?b ! 0 OR 1]) i \<longleftrightarrow> i = 0 \<or> unat counter - h \<le> i \<and> marked (bmp win) (i - (unat counter - h))"
    if "i < 64 * length (bmp win)" for i
    using marked_set [of 0 ?b i] len marked_slide [OF ok that] d by simp
  have "marked (?b[0 := ?b ! 0 OR 1]) (unat counter - c) \<longleftrightarrow> c \<in> insert (unat counter) S"
    if c: "0 < c" "c \<le> unat counter" "unat counter - c < 64 * length (bmp win)" for c
  proof (cases "c \<le> h")
    case True
    then have "unat counter - c - (unat counter - h) = h - c" using hc by simp
    then show ?thesis
      using m [OF c(3)] True c hc rel by (auto simp: replay_rel_def)
  next
    case False
    then show ?thesis using m [OF c(3)] c S by auto
  qed
  then have "replay_rel ?win (unat counter, insert (unat counter) S)"
    using ok S hc by (auto simp: replay_rel_def replay_ok_def)
  with acc show ?thesis by simp
qed

lemma ReplayWindow_Accept_in_window:
  assumes rel: "replay_rel win (h, S)" and c: "counter \<noteq> 0" "\<not> high win < counter"
    and near: "h - unat counter < 64 * length (bmp win)"
  shows "\<exists>win'. ReplayWindow_Accept counter win = (unat counter \<notin> S, win') \<and> length (bmp win') = length (bmp win)
     \<and> replay_rel win' (h, insert (unat counter) S)"
proof -
  have ok: "replay_ok win" and h: "unat (high win) = h" and S: "\<forall>c\<in>S. 0 < c \<and> c \<le> h"
    using rel by (auto simp: replay_rel_def)
  have le: "unat counter \<le> h" "0 < unat counter" using c h by (auto simp: word_less_nat_alt unat_gt_0)
  define k where "k = h - unat counter"
  have d: "unat (high win - counter) = k" using c h by (simp add: unat_sub not_less k_def)
  have kl: "k < 64 * length (bmp win)" using near by (simp add: k_def)
  then have k37: "k < 2 ^ 37" using ok by (simp add: replay_ok_def)
  have nb: "\<not> window_bits win \<le> high win - counter"
    using kl d window_bits_unat [OF ok] by (simp add: word_le_nat_alt)
  have word: "unat (ucast ((high win - counter) div 64) :: u32) = k div 64"
    using unat_shift_amounts(1) [of "high win - counter"] k37 d by simp
  have pos: "unat ((high win - counter) mod 64) = k mod 64" using d by (simp add: unat_mod)
  let ?b = "(bmp win)[k div 64 := bmp win ! (k div 64) OR push_bit (k mod 64) 1]"
  have acc: "ReplayWindow_Accept counter win = (if marked (bmp win) k then (False, win) else (True, win\<lparr>bmp := ?b\<rparr>))"
    using c nb word pos by (simp add: ReplayWindow_Accept_def Let_def and_single_bit marked_def)
  have km: "marked (bmp win) k \<longleftrightarrow> unat counter \<in> S"
    using rel le kl by (simp add: replay_rel_def k_def)
  have "marked ?b (h - c) \<longleftrightarrow> c \<in> insert (unat counter) S"
    if "0 < c" "c \<le> h" "h - c < 64 * length (bmp win)" for c
    using marked_set [OF kl, of "h - c"] that rel le by (auto simp: replay_rel_def k_def)
  then have "replay_rel (win\<lparr>bmp := ?b\<rparr>) (h, insert (unat counter) S)"
    using ok S h le by (auto simp: replay_rel_def replay_ok_def)
  then show ?thesis using acc km rel by (auto simp: insert_absorb)
qed

lemma ReplayWindow_Accept_simulates:
  assumes rel: "replay_rel win a"
  shows "\<exists>win'. ReplayWindow_Accept counter win = (fst (spec_accept (64 * length (bmp win)) (unat counter) a), win')
     \<and> length (bmp win') = length (bmp win)
     \<and> replay_rel win' (snd (spec_accept (64 * length (bmp win)) (unat counter) a))"
proof -
  obtain h S where a: "a = (h, S)" by (cases a)
  have ok: "replay_ok win" and h: "unat (high win) = h" using rel a by (auto simp: replay_rel_def)
  consider "counter = 0" | (new) "counter \<noteq> 0" "high win < counter"
    | (old) "counter \<noteq> 0" "\<not> high win < counter" "64 * length (bmp win) \<le> h - unat counter"
    | (near) "counter \<noteq> 0" "\<not> high win < counter" "h - unat counter < 64 * length (bmp win)"
    by linarith
  then show ?thesis
  proof cases
    case 1
    then show ?thesis using rel a by (auto simp: ReplayWindow_Accept_def)
  next
    case new
    then show ?thesis using ReplayWindow_Accept_new_high [OF rel [unfolded a] new(2)] a h
      by (auto simp: word_less_nat_alt)
  next
    case old
    then have "window_bits win \<le> high win - counter"
      using h window_bits_unat [OF ok] by (simp add: word_le_nat_alt unat_sub not_less)
    then have "ReplayWindow_Accept counter win = (False, win)" using old by (simp add: ReplayWindow_Accept_def Let_def)
    then show ?thesis using old rel a h by (auto simp: word_less_nat_alt)
  next
    case near
    then show ?thesis using ReplayWindow_Accept_in_window [OF rel [unfolded a] near] a h
      by (auto simp: word_less_nat_alt insert_absorb unat_eq_zero)
  qed
qed

lemma ReplayWindow_Accept_all_simulates:
  assumes "replay_rel win a"
  shows "\<exists>win'. ReplayWindow_Accept_all cs win = (fst (spec_all (64 * length (bmp win)) (map unat cs) a), win')
     \<and> replay_rel win' (snd (spec_all (64 * length (bmp win)) (map unat cs) a))"
  using assms
proof (induction cs arbitrary: win a)
  case Nil
  then show ?case by simp
next
  case (Cons c cs)
  let ?bits = "64 * length (bmp win)"
  obtain ok a1 where spec: "spec_accept ?bits (unat c) a = (ok, a1)" by (cases "spec_accept ?bits (unat c) a")
  obtain win1 where w1: "ReplayWindow_Accept c win = (ok, win1)" "length (bmp win1) = length (bmp win)" "replay_rel win1 a1"
    using ReplayWindow_Accept_simulates [OF Cons.prems, of c] spec by auto
  obtain oks a2 where rest: "spec_all ?bits (map unat cs) a1 = (oks, a2)"
    by (cases "spec_all ?bits (map unat cs) a1")
  then obtain win2 where "ReplayWindow_Accept_all cs win1 = (oks, win2)" "replay_rel win2 a2"
    using Cons.IH [OF w1(3)] w1(2) by auto
  then show ?case using spec w1 rest by simp
qed

lemma spec_accept_grows:
  "spec_accept bits c (h, S) = (ok, (h', S')) \<Longrightarrow> S' = (if ok then insert c S else S) \<and> (ok \<longrightarrow> c \<notin> S \<or> h < c)"
  by (auto split: if_splits)

definition accepted :: "nat list \<Rightarrow> bool list \<Rightarrow> nat list" where
  "accepted cs oks = map fst (filter snd (zip cs oks))"

lemma accepted_simps [simp]:
  "accepted [] [] = []"
  "accepted (c # cs) (ok # oks) = (if ok then c # accepted cs oks else accepted cs oks)"
  by (simp_all add: accepted_def)

lemma spec_all_fresh:
  assumes "spec_all bits cs (h, S) = (oks, (h', S'))" and "\<forall>c\<in>S. c \<le> h"
  shows "length oks = length cs \<and> distinct (accepted cs oks) \<and> set (accepted cs oks) \<inter> S = {}"
  using assms
proof (induction cs arbitrary: h S oks)
  case Nil
  then show ?case by simp
next
  case (Cons c cs)
  obtain ok h1 S1 where one: "spec_accept bits c (h, S) = (ok, (h1, S1))"
    by (metis prod.exhaust)
  obtain oks1 where rest: "spec_all bits cs (h1, S1) = (oks1, (h', S'))" "oks = ok # oks1"
    using Cons.prems(1) one by (auto simp del: spec_accept.simps split: prod.splits)
  have g: "S1 = (if ok then insert c S else S)" "ok \<longrightarrow> c \<notin> S"
    using spec_accept_grows [OF one] Cons.prems(2) by auto
  have "\<forall>c\<in>S1. c \<le> h1" using one Cons.prems(2) by (force split: if_splits)
  from Cons.IH [OF rest(1) this] rest(2) g show ?case
    by (auto split: if_splits)
qed

lemma replay_rel_Reset:
  assumes "replay_ok win"
  shows "replay_rel (ReplayWindow_Reset win) (0, {})"
  using assms by (simp add: replay_rel_def ReplayWindow_Reset_def replay_ok_def)

lemma length_Reset [simp]: "length (bmp (ReplayWindow_Reset win)) = length (bmp win)"
  by (simp add: ReplayWindow_Reset_def)

section \<open>Properties\<close>

text \<open>
  C10: The bitmap filter is indistinguishable from a filter that remembers every accepted counter:
  for any sequence of counters received after \<open>ReplayWindow_Reset\<close>, the code's verdicts are those of the
  specification, which refuses zero, refuses a counter it has accepted, refuses a counter at least
  \<open>64 * words\<close> below the highest accepted, and accepts everything else.
\<close>

theorem replay_filter_refines_history:
  assumes "replay_ok win"
  shows "fst (ReplayWindow_Accept_all cs (ReplayWindow_Reset win)) = fst (spec_all (64 * length (bmp win)) (map unat cs) (0, {}))"
  using ReplayWindow_Accept_all_simulates [OF replay_rel_Reset [OF assms], of cs] by auto

theorem replay_filter_refines_history_witness:
  "fst (ReplayWindow_Accept_all [100, 37, 36, 37, 0] (ReplayWindow_Reset \<lparr>high = 5, bmp = [3]\<rparr>)) = [True, True, False, False, False]"
  using replay_filter_refines_history [of "\<lparr>high = 5, bmp = [3]\<rparr>" "[100, 37, 36, 37, 0]"]
  by (simp add: replay_ok_def)

text \<open>
  C11: No counter is accepted twice between two re-keys: among the counters a run accepts, all are
  distinct, whatever the order in which packets arrive.
\<close>

theorem replay_accepts_at_most_once:
  assumes "replay_ok win" and "i < j" and "j < length cs" and "cs ! i = cs ! j"
  shows "\<not> (fst (ReplayWindow_Accept_all cs (ReplayWindow_Reset win)) ! i \<and> fst (ReplayWindow_Accept_all cs (ReplayWindow_Reset win)) ! j)"
proof
  let ?oks = "fst (ReplayWindow_Accept_all cs (ReplayWindow_Reset win))"
  assume both: "?oks ! i \<and> ?oks ! j"
  obtain oks h' S' where spec: "spec_all (64 * length (bmp win)) (map unat cs) (0, {}) = (oks, (h', S'))"
    by (metis prod.exhaust)
  have oks: "?oks = oks"
    using ReplayWindow_Accept_all_simulates [OF replay_rel_Reset [OF assms(1)], of cs] spec by auto
  have f: "length ?oks = length cs" "distinct (accepted (map unat cs) ?oks)"
    using spec_all_fresh [OF spec] oks by auto
  have "zip (map unat cs) ?oks = map (\<lambda>k. (unat (cs ! k), ?oks ! k)) [0..<length cs]"
    by (rule nth_equalityI) (simp_all add: f(1))
  then have "accepted (map unat cs) ?oks = map (\<lambda>k. unat (cs ! k)) (filter (\<lambda>k. ?oks ! k) [0..<length cs])"
    by (simp add: accepted_def filter_map comp_def)
  then have "inj_on (\<lambda>k. unat (cs ! k)) (set (filter (\<lambda>k. ?oks ! k) [0..<length cs]))"
    using f(2) by (simp add: distinct_map)
  then have "i = j"
    by (rule inj_onD) (use both assms in auto)
  with assms(2) show False by simp
qed

theorem replay_accepts_at_most_once_witness:
  "\<not> (fst (ReplayWindow_Accept_all [7, 9, 7] (ReplayWindow_Reset \<lparr>high = 0, bmp = [0, 0]\<rparr>)) ! 0
      \<and> fst (ReplayWindow_Accept_all [7, 9, 7] (ReplayWindow_Reset \<lparr>high = 0, bmp = [0, 0]\<rparr>)) ! 2)"
  by (rule replay_accepts_at_most_once) (simp_all add: replay_ok_def)

end
