(* ===== verification/Flux_Constants.thy ===== *)
theory Flux_Constants
  imports Flux_Prelude
begin

text \<open>
  The tuning constants of \<^verbatim>\<open>flux/internal/constants.h\<close> that the modelled code reads, under
  their source names. They are abbreviations, polymorphic in the integer type, because the C++
  code uses one constant at several widths.
\<close>

abbreviation (input) MAX_WIRE_PACKET_SIZE :: "'a::numeral" where "MAX_WIRE_PACKET_SIZE \<equiv> 1200"
abbreviation (input) WIRE_BATCH_LEN_SIZE :: "'a::numeral" where "WIRE_BATCH_LEN_SIZE \<equiv> 2"

abbreviation (input) RTT_SAMPLE_MAX_MICROS :: "'a::numeral" where "RTT_SAMPLE_MAX_MICROS \<equiv> 10000000"
abbreviation (input) RTO_VARIANCE_MIN_MICROS :: "'a::numeral" where "RTO_VARIANCE_MIN_MICROS \<equiv> 1000"
abbreviation (input) RTO_MARGIN_DIVISOR :: "'a::numeral" where "RTO_MARGIN_DIVISOR \<equiv> 8"
abbreviation (input) RTO_MAX_MICROS :: "'a::numeral" where "RTO_MAX_MICROS \<equiv> 60000000"
abbreviation (input) RTO_MAX_BACKOFF_SHIFT :: "'a::numeral" where "RTO_MAX_BACKOFF_SHIFT \<equiv> 3"
abbreviation (input) MIN_RTT_BUCKETS :: "'a::numeral" where "MIN_RTT_BUCKETS \<equiv> 3"
abbreviation (input) MIN_RTT_BUCKET_MICROS :: "'a::numeral" where "MIN_RTT_BUCKET_MICROS \<equiv> 4000000"

abbreviation (input) DELIVERY_BUCKETS :: "'a::numeral" where "DELIVERY_BUCKETS \<equiv> 4"
abbreviation (input) DELIVERY_BUCKET_MICROS :: "'a::numeral" where "DELIVERY_BUCKET_MICROS \<equiv> 250000"
abbreviation (input) CC_OVERFLOW_GATE_PERCENT :: "'a::numeral" where "CC_OVERFLOW_GATE_PERCENT \<equiv> 75"

abbreviation (input) QUEUE_TARGET_DIVISOR :: "'a::numeral" where "QUEUE_TARGET_DIVISOR \<equiv> 8"
abbreviation (input) QUEUE_TARGET_MIN_MICROS :: "'a::numeral" where "QUEUE_TARGET_MIN_MICROS \<equiv> 1000"
abbreviation (input) CC_CUBIC_C_SCALED :: "'a::numeral" where "CC_CUBIC_C_SCALED \<equiv> 40"
abbreviation (input) CC_CUBIC_C_SCALE :: "'a::numeral" where "CC_CUBIC_C_SCALE \<equiv> 100"
abbreviation (input) CC_LOSS_RETAIN_PERCENT :: "'a::numeral" where "CC_LOSS_RETAIN_PERCENT \<equiv> 70"

abbreviation (input) CC_INITIAL_WINDOW_BYTES :: "'a::numeral" where "CC_INITIAL_WINDOW_BYTES \<equiv> 12000"
abbreviation (input) CC_SLOW_START_CONFIRM_ROUNDS :: "'a::numeral" where "CC_SLOW_START_CONFIRM_ROUNDS \<equiv> 2"
abbreviation (input) CC_NOISE_RETAIN_PERCENT :: "'a::numeral" where "CC_NOISE_RETAIN_PERCENT \<equiv> 95"
abbreviation (input) CC_LOSS_TOLERANCE_PERCENT :: "'a::numeral" where "CC_LOSS_TOLERANCE_PERCENT \<equiv> 2"
abbreviation (input) CC_STARVED_BUDGET_BYTES :: "'a::numeral" where "CC_STARVED_BUDGET_BYTES \<equiv> 12000"
abbreviation (input) CC_STARVED_CONFIRM_ROUNDS :: "'a::numeral" where "CC_STARVED_CONFIRM_ROUNDS \<equiv> 16"
abbreviation (input) CC_STARVED_CONFIRM_MIN_MICROS :: "'a::numeral" where "CC_STARVED_CONFIRM_MIN_MICROS \<equiv> 250000"
abbreviation (input) CC_STARVED_EXIT_ROUNDS :: "'a::numeral" where "CC_STARVED_EXIT_ROUNDS \<equiv> 8"
abbreviation (input) CC_STARVED_EXIT_MIN_MICROS :: "'a::numeral" where "CC_STARVED_EXIT_MIN_MICROS \<equiv> 500000"
abbreviation (input) CC_STARVED_REENTRY_WINDOW_MICROS :: "'a::numeral" where "CC_STARVED_REENTRY_WINDOW_MICROS \<equiv> 30000000"
abbreviation (input) CC_STARVED_CAP_SLACK_DIVISOR :: "'a::numeral" where "CC_STARVED_CAP_SLACK_DIVISOR \<equiv> 2"
abbreviation (input) PERSISTENT_CONGESTION_PROBES :: "'a::numeral" where "PERSISTENT_CONGESTION_PROBES \<equiv> 3"
abbreviation (input) LOSS_PACKET_THRESHOLD :: "'a::numeral" where "LOSS_PACKET_THRESHOLD \<equiv> 3"
abbreviation (input) FLOW_DEATH_ROUNDS :: "'a::numeral" where "FLOW_DEATH_ROUNDS \<equiv> 16"
abbreviation (input) FLOW_DEATH_MIN_PROBES :: "'a::numeral" where "FLOW_DEATH_MIN_PROBES \<equiv> 8"
abbreviation (input) RESENDS_PER_ASSOC_PER_TICK :: "'a::numeral" where "RESENDS_PER_ASSOC_PER_TICK \<equiv> 16"
abbreviation (input) CC_PACING_GAIN_PERCENT :: "'a::numeral" where "CC_PACING_GAIN_PERCENT \<equiv> 125"
abbreviation (input) CC_PACING_BURST_BYTES :: "'a::numeral" where "CC_PACING_BURST_BYTES \<equiv> 2400"
abbreviation (input) UINT32_MAX :: "'a::numeral" where "UINT32_MAX \<equiv> 4294967295"

end
