(* ===== verification/Rtt.thy ===== *)
theory Rtt
  imports Flux_Constants
begin

text \<open>
  The round-trip estimator of \<^verbatim>\<open>flux/internal/rtt.h\<close>: smoothed round trip and deviation, the
  rotating minimum buckets, the retransmission timeout and the loss delay. Fields are 32- and
  64-bit words as in the struct; the clock is the argument \<open>nowMicros\<close>.
\<close>

section \<open>Definitions\<close>

record RttEstimate =
  srttMicros :: u32
  rttvarMicros :: u32
  peerAckDelayMicros :: u32
  latestMicros :: u32
  minBucketsMicros :: "u32 list"
  minRotatedAtMicros :: u64
  lastAckedAtMicros :: u64

definition Rtt_Reset :: RttEstimate where
  "Rtt_Reset = \<lparr>srttMicros = 0, rttvarMicros = 0, peerAckDelayMicros = 0, latestMicros = 0,
     minBucketsMicros = replicate MIN_RTT_BUCKETS 0, minRotatedAtMicros = 0, lastAckedAtMicros = 0\<rparr>"

definition keep_lowest :: "u32 \<Rightarrow> u32 \<Rightarrow> u32" where
  "keep_lowest lowest bucket = (if bucket \<noteq> 0 \<and> (lowest = 0 \<or> bucket < lowest) then bucket else lowest)"

definition MinRttMicros :: "RttEstimate \<Rightarrow> u32" where
  "MinRttMicros rtt = foldl keep_lowest 0 (minBucketsMicros rtt)"

definition QueueMicros :: "RttEstimate \<Rightarrow> u32" where
  "QueueMicros rtt =
     (let lowest = MinRttMicros rtt
      in if lowest = 0 \<or> srttMicros rtt \<le> lowest then 0 else srttMicros rtt - lowest)"

definition LatestQueueMicros :: "RttEstimate \<Rightarrow> u32" where
  "LatestQueueMicros rtt =
     (let lowest = MinRttMicros rtt
      in if lowest = 0 \<or> latestMicros rtt \<le> lowest then 0 else latestMicros rtt - lowest)"

definition MarkAcked :: "u64 \<Rightarrow> RttEstimate \<Rightarrow> RttEstimate" where
  "MarkAcked nowMicros rtt = rtt\<lparr>lastAckedAtMicros := nowMicros\<rparr>"

definition SilentForMicros :: "u64 \<Rightarrow> RttEstimate \<Rightarrow> u64" where
  "SilentForMicros nowMicros rtt =
     (if lastAckedAtMicros rtt = 0 \<or> nowMicros \<le> lastAckedAtMicros rtt then 0
      else nowMicros - lastAckedAtMicros rtt)"

text \<open>The rotation loop: every whole bucket span that has passed shifts the buckets by one.\<close>

function rotate_buckets :: "u64 \<Rightarrow> u32 list \<times> u64 \<Rightarrow> u32 list \<times> u64" where
  "rotate_buckets elapsed (buckets, rotatedAt) =
     (if MIN_RTT_BUCKET_MICROS \<le> elapsed
      then rotate_buckets (elapsed - MIN_RTT_BUCKET_MICROS)
             (0 # butlast buckets, rotatedAt + MIN_RTT_BUCKET_MICROS)
      else (buckets, rotatedAt))"
  by pat_completeness auto
termination
  by (relation "measure (\<lambda>(elapsed, s). unat elapsed)")
     (auto simp: word_le_nat_alt unat_sub)

declare rotate_buckets.simps [simp del]

definition rotate_min :: "u64 \<Rightarrow> RttEstimate \<Rightarrow> RttEstimate" where
  "rotate_min nowMicros rtt =
     (let rotatedAt = (if minRotatedAtMicros rtt = 0 then nowMicros else minRotatedAtMicros rtt);
          elapsed = (if rotatedAt < nowMicros then nowMicros - rotatedAt else 0);
          (buckets, rotatedAt') = rotate_buckets elapsed (minBucketsMicros rtt, rotatedAt)
      in rtt\<lparr>minBucketsMicros := buckets, minRotatedAtMicros := rotatedAt'\<rparr>)"

definition fold_min :: "u32 \<Rightarrow> RttEstimate \<Rightarrow> RttEstimate" where
  "fold_min sample rtt =
     (if minBucketsMicros rtt ! 0 = 0 \<or> sample < minBucketsMicros rtt ! 0
      then rtt\<lparr>minBucketsMicros := (minBucketsMicros rtt)[0 := sample]\<rparr> else rtt)"

definition fold_srtt :: "u32 \<Rightarrow> RttEstimate \<Rightarrow> RttEstimate" where
  "fold_srtt sample rtt =
     (if srttMicros rtt = 0 then rtt\<lparr>srttMicros := sample, rttvarMicros := sample div 2\<rparr>
      else
        let diff = (if sample < srttMicros rtt then srttMicros rtt - sample else sample - srttMicros rtt)
        in rtt\<lparr>rttvarMicros := (rttvarMicros rtt * 3 + diff) div 4,
               srttMicros := (srttMicros rtt * 7 + sample) div 8\<rparr>)"

definition fold_hold :: "u32 \<Rightarrow> RttEstimate \<Rightarrow> RttEstimate" where
  "fold_hold heldMicros rtt =
     rtt\<lparr>peerAckDelayMicros :=
       (if peerAckDelayMicros rtt < heldMicros then heldMicros
        else (peerAckDelayMicros rtt * 7 + heldMicros) div 8)\<rparr>"

definition Rtt_Sample :: "u64 \<Rightarrow> u32 \<Rightarrow> u64 \<Rightarrow> RttEstimate \<Rightarrow> bool \<times> RttEstimate" where
  "Rtt_Sample roundTripMicros heldMicros nowMicros rtt =
     (if roundTripMicros = 0 \<or> RTT_SAMPLE_MAX_MICROS < roundTripMicros then (False, rtt)
      else
        let sample = ucast roundTripMicros
        in (True, fold_hold heldMicros (fold_srtt sample
             (fold_min sample (rotate_min nowMicros (rtt\<lparr>latestMicros := sample\<rparr>))))))"

definition RoundTripOr :: "u32 \<Rightarrow> RttEstimate \<Rightarrow> u32" where
  "RoundTripOr fallbackMicros rtt = (if srttMicros rtt \<noteq> 0 then srttMicros rtt else fallbackMicros)"

definition base_timeout :: "u32 \<Rightarrow> u32 \<Rightarrow> RttEstimate \<Rightarrow> u64" where
  "base_timeout fallbackMicros ackCadenceMicros rtt =
     (let variance = 4 * ucast (rttvarMicros rtt);
          variance = (if variance < RTO_VARIANCE_MIN_MICROS then RTO_VARIANCE_MIN_MICROS else variance);
          sojournSpread = ucast (RoundTripOr fallbackMicros rtt div RTO_MARGIN_DIVISOR);
          variance = (if variance < sojournSpread then sojournSpread else variance);
          hold = ucast ackCadenceMicros;
          hold = (if hold < ucast (peerAckDelayMicros rtt) then ucast (peerAckDelayMicros rtt) else hold)
      in ucast (RoundTripOr fallbackMicros rtt) + variance + hold)"

fun back_off :: "nat \<Rightarrow> u64 \<Rightarrow> u64 \<Rightarrow> u64" where
  "back_off 0 silent rto = rto"
| "back_off (Suc shifts) silent rto = (if rto < silent then back_off shifts silent (push_bit 1 rto) else rto)"

definition RetransmitTimeout :: "u32 \<Rightarrow> u32 \<Rightarrow> u64 \<Rightarrow> RttEstimate \<Rightarrow> u64" where
  "RetransmitTimeout fallbackMicros ackCadenceMicros nowMicros rtt =
     (let rto = back_off RTO_MAX_BACKOFF_SHIFT (SilentForMicros nowMicros rtt)
                  (base_timeout fallbackMicros ackCadenceMicros rtt)
      in if rto < 1000 then 1000 else if RTO_MAX_MICROS < rto then RTO_MAX_MICROS else rto)"

definition LossDelayMicros :: "u32 \<Rightarrow> RttEstimate \<Rightarrow> u64" where
  "LossDelayMicros fallbackMicros rtt =
     (let base = (if srttMicros rtt < latestMicros rtt then ucast (latestMicros rtt) else ucast (srttMicros rtt));
          base = (if base = 0 then ucast fallbackMicros else base);
          delay = base + base div 8
      in if delay < RTO_VARIANCE_MIN_MICROS then RTO_VARIANCE_MIN_MICROS else delay)"

section \<open>The smoothed figures\<close>

definition rtt_ok :: "RttEstimate \<Rightarrow> bool" where
  "rtt_ok rtt \<longleftrightarrow> unat (srttMicros rtt) \<le> 10000000 \<and> unat (rttvarMicros rtt) \<le> 10000000
     \<and> unat (latestMicros rtt) \<le> 10000000 \<and> length (minBucketsMicros rtt) = MIN_RTT_BUCKETS
     \<and> (\<forall>b\<in>set (minBucketsMicros rtt). unat b \<le> 10000000)
     \<and> (srttMicros rtt = 0 \<longrightarrow> rttvarMicros rtt = 0)"

lemma unat_average:
  fixes a b :: u32
  assumes "unat a \<le> 10000000" and "unat b \<le> 10000000"
  shows "unat ((a * 7 + b) div 8) = (unat a * 7 + unat b) div 8"
    and "unat ((a * 3 + b) div 4) = (unat a * 3 + unat b) div 4"
proof -
  have 7: "unat (a * 7) = unat a * 7" and 3: "unat (a * 3) = unat a * 3"
    by (subst unat_mult_small; use assms in simp)+
  have "unat (a * 7 + b) = unat a * 7 + unat b" "unat (a * 3 + b) = unat a * 3 + unat b"
    by (subst unat_add_small; use assms 7 3 in simp)+
  then show "unat ((a * 7 + b) div 8) = (unat a * 7 + unat b) div 8"
    and "unat ((a * 3 + b) div 4) = (unat a * 3 + unat b) div 4"
    by (simp_all add: unat_div)
qed

lemma average_between:
  fixes a b :: nat
  shows "min a b \<le> (a * 7 + b) div 8" and "(a * 7 + b) div 8 \<le> max a b"
  by (auto simp: min_def max_def)

lemma fold_srtt_ok:
  assumes "rtt_ok rtt" and "unat sample \<le> 10000000" and "sample \<noteq> 0"
  shows "rtt_ok (fold_srtt sample rtt) \<and> srttMicros (fold_srtt sample rtt) \<noteq> 0"
proof (cases "srttMicros rtt = 0")
  case True
  then show ?thesis using assms by (simp add: fold_srtt_def rtt_ok_def unat_div)
next
  case False
  define d where "d = (if sample < srttMicros rtt then srttMicros rtt - sample else sample - srttMicros rtt)"
  have b: "unat (srttMicros rtt) \<le> 10000000" "unat (rttvarMicros rtt) \<le> 10000000"
    using assms(1) by (simp_all add: rtt_ok_def)
  have d: "unat d \<le> 10000000"
    using b assms(2) by (auto simp: d_def unat_sub less_imp_le not_less)
  have eq: "fold_srtt sample rtt = rtt\<lparr>rttvarMicros := (rttvarMicros rtt * 3 + d) div 4,
      srttMicros := (srttMicros rtt * 7 + sample) div 8\<rparr>"
    using False by (simp add: fold_srtt_def d_def Let_def)
  note v = unat_average(2) [OF b(2) d]
  note a = unat_average(1) [OF b(1) assms(2)]
  have "0 < unat sample" "0 < unat (srttMicros rtt)"
    using assms(3) False by (simp_all add: unat_gt_0)
  then have "0 < unat ((srttMicros rtt * 7 + sample) div 8)"
    using a average_between(1) [of "unat (srttMicros rtt)" "unat sample"] by linarith
  then have nz: "(srttMicros rtt * 7 + sample) div 8 \<noteq> 0" by auto
  have "unat ((srttMicros rtt * 7 + sample) div 8) \<le> 10000000"
    "unat ((rttvarMicros rtt * 3 + d) div 4) \<le> 10000000"
    unfolding a v using b d assms(2) by simp_all
  then show ?thesis
    using assms(1) nz unfolding eq by (simp add: rtt_ok_def)
qed

section \<open>The rotating minimum\<close>

lemma rotate_buckets_closed:
  "b \<noteq> [] \<Longrightarrow> rotate_buckets elapsed (b, r) =
     (take (length b) (replicate (unat elapsed div 4000000) 0 @ b), r + of_nat (unat elapsed div 4000000) * 4000000)"
proof (induction "unat elapsed" arbitrary: elapsed b r rule: less_induct)
  case less
  show ?case
  proof (cases "MIN_RTT_BUCKET_MICROS \<le> elapsed")
    case False
    then have "unat elapsed div 4000000 = 0" by (simp add: word_le_nat_alt)
    then show ?thesis using False by (simp add: rotate_buckets.simps)
  next
    case True
    then have le: "4000000 \<le> unat elapsed" by (simp add: word_le_nat_alt)
    have u: "unat (elapsed - 4000000) = unat elapsed - 4000000" using True by (simp add: unat_sub)
    then have lt: "unat (elapsed - 4000000) < unat elapsed" using le by linarith
    define k where "k = unat (elapsed - 4000000) div 4000000"
    have k: "unat elapsed div 4000000 = Suc k" using le u by (simp add: k_def le_div_geq)
    have "take (length (0 # butlast b)) (replicate k 0 @ 0 # butlast b) = take (length b) (replicate (Suc k) 0 @ b)"
      using less.prems
      by (intro nth_equalityI) (auto simp: nth_append nth_Cons nth_butlast Suc_diff_le not_less split: nat.splits)
    moreover have "rotate_buckets (elapsed - 4000000) (0 # butlast b, r + 4000000)
      = (take (length (0 # butlast b)) (replicate k 0 @ 0 # butlast b), r + 4000000 + of_nat k * 4000000)"
      using less.hyps [OF lt] by (simp add: k_def)
    ultimately show ?thesis
      using True k by (simp add: rotate_buckets.simps [of elapsed] algebra_simps)
  qed
qed

lemma rotate_buckets_length:
  "length b = MIN_RTT_BUCKETS \<Longrightarrow> length (fst (rotate_buckets elapsed (b, r))) = MIN_RTT_BUCKETS"
  by (subst rotate_buckets_closed) auto

definition min_of :: "nat set \<Rightarrow> nat" where
  "min_of S = (if S = {} then 0 else Min S)"

lemma min_of_insert:
  "finite S \<Longrightarrow> \<forall>x\<in>S. 0 < x \<Longrightarrow>
   min_of (insert x S) = (if min_of S = 0 \<or> x < min_of S then x else min_of S)"
proof (cases "S = {}")
  case False
  assume S: "finite S" "\<forall>x\<in>S. 0 < x"
  define m where "m = Min S"
  have "0 < m" "Min (insert x S) = min x m" using S False by (simp_all add: m_def)
  then show ?thesis using False by (simp add: min_of_def min_def flip: m_def)
qed (simp add: min_of_def)

lemma min_of_least: "finite S \<Longrightarrow> x \<in> S \<Longrightarrow> min_of S \<le> x"
  by (auto simp: min_of_def)

lemma min_of_member: "finite S \<Longrightarrow> S \<noteq> {} \<Longrightarrow> min_of S \<in> S"
  by (auto simp: min_of_def)

text \<open>A ghost history of accepted samples, and the bucket that each belongs to by its age.\<close>

type_synonym samples = "(nat \<times> nat) set"

definition bucket_of :: "nat \<Rightarrow> nat \<Rightarrow> nat" where
  "bucket_of r t = (if r \<le> t then 0 else (r - t + 3999999) div 4000000)"

definition bucket_samples :: "samples \<Rightarrow> nat \<Rightarrow> nat \<Rightarrow> nat set" where
  "bucket_samples H r i = {s. \<exists>t. (t, s) \<in> H \<and> bucket_of r t = i}"

definition min_rel :: "samples \<Rightarrow> u32 list \<Rightarrow> nat \<Rightarrow> bool" where
  "min_rel H buckets r \<longleftrightarrow> finite H \<and> (\<forall>(t, s)\<in>H. 0 < s \<and> t < r + 4000000) \<and> length buckets = 3 \<and>
     (\<forall>i<3. unat (buckets ! i) = min_of (bucket_samples H r i))"

lemma finite_bucket_samples: "finite H \<Longrightarrow> finite (bucket_samples H r i)"
proof -
  assume "finite H"
  moreover have "bucket_samples H r i \<subseteq> snd ` H" by (force simp: bucket_samples_def)
  ultimately show ?thesis by (meson finite_imageI finite_subset)
qed

lemma bucket_of_shift:
  assumes "t < r + 4000000"
  shows "bucket_of (r + 4000000 * k) t = bucket_of r t + k"
proof (cases "r \<le> t")
  case True
  show ?thesis
  proof (cases k)
    case 0 then show ?thesis using True by (simp add: bucket_of_def)
  next
    case (Suc j)
    have "(r + 4000000 * k - t + 3999999) div 4000000 = k"
      using True assms Suc by (intro div_nat_eqI) simp_all
    then show ?thesis using True assms Suc by (simp add: bucket_of_def)
  qed
next
  case False
  then have "r + 4000000 * k - t + 3999999 = (r - t + 3999999) + 4000000 * k" by simp
  then have "(r + 4000000 * k - t + 3999999) div 4000000 = (r - t + 3999999) div 4000000 + k" by simp
  then show ?thesis using False by (simp add: bucket_of_def)
qed

lemma bucket_samples_shift:
  assumes "min_rel H buckets r"
  shows "bucket_samples H (r + 4000000 * k) i = (if i < k then {} else bucket_samples H r (i - k))"
proof -
  have "\<forall>(t, s)\<in>H. bucket_of (r + 4000000 * k) t = bucket_of r t + k"
    using assms bucket_of_shift by (fastforce simp: min_rel_def)
  then show ?thesis by (force simp: bucket_samples_def)
qed

lemma min_rel_rotate:
  assumes "min_rel H buckets r"
  shows "min_rel H (take (length buckets) (replicate k 0 @ buckets)) (r + 4000000 * k)"
proof -
  have l: "length buckets = 3" using assms by (simp add: min_rel_def)
  have "unat (take 3 (replicate k 0 @ buckets) ! i) = min_of (bucket_samples H (r + 4000000 * k) i)" if "i < 3" for i
    using assms that l bucket_samples_shift [OF assms, of k i]
    by (auto simp: nth_append min_rel_def min_of_def [of "{}"])
  then show ?thesis using assms l by (fastforce simp: min_rel_def)
qed

lemma min_rel_sample:
  assumes rel: "min_rel H buckets r" and t: "r \<le> t" "t < r + 4000000" and "sample \<noteq> 0"
  shows "min_rel (insert (t, unat sample) H)
     (if buckets ! 0 = 0 \<or> sample < buckets ! 0 then buckets[0 := sample] else buckets) r"
proof -
  let ?b = "if buckets ! 0 = 0 \<or> sample < buckets ! 0 then buckets[0 := sample] else buckets"
  have l: "length buckets = 3" and fin: "finite H" and pos: "\<forall>(t, s)\<in>H. 0 < s"
    and b: "\<And>i. i < 3 \<Longrightarrow> unat (buckets ! i) = min_of (bucket_samples H r i)"
    using rel by (auto simp: min_rel_def)
  have b0: "bucket_samples (insert (t, unat sample) H) r 0 = insert (unat sample) (bucket_samples H r 0)"
    using t by (auto simp: bucket_samples_def bucket_of_def)
  have bi: "bucket_samples (insert (t, unat sample) H) r i = bucket_samples H r i" if "i \<noteq> 0" for i
    using t that by (auto simp: bucket_samples_def bucket_of_def)
  have "unat (?b ! i) = min_of (bucket_samples (insert (t, unat sample) H) r i)" if "i < 3" for i
  proof (cases "i = 0")
    case True
    have "\<forall>x\<in>bucket_samples H r 0. 0 < x" using pos by (auto simp: bucket_samples_def)
    then have "min_of (insert (unat sample) (bucket_samples H r 0)) =
        (if unat (buckets ! 0) = 0 \<or> unat sample < unat (buckets ! 0) then unat sample else unat (buckets ! 0))"
      using min_of_insert [OF finite_bucket_samples [OF fin]] b [of 0] by simp
    then show ?thesis using True b0 l by (auto simp: word_less_nat_alt unat_eq_zero)
  next
    case False
    then show ?thesis using bi b that l by auto
  qed
  moreover have "0 < unat sample" using assms(4) by (simp add: unat_gt_0)
  ultimately show ?thesis using rel t l by (auto simp: min_rel_def)
qed

definition sample_rel :: "samples \<Rightarrow> nat \<Rightarrow> RttEstimate \<Rightarrow> bool" where
  "sample_rel H T rtt \<longleftrightarrow>
     (if minRotatedAtMicros rtt = 0 then H = {} \<and> minBucketsMicros rtt = replicate 3 0
      else min_rel H (minBucketsMicros rtt) (unat (minRotatedAtMicros rtt))
         \<and> unat (minRotatedAtMicros rtt) \<le> T \<and> T < unat (minRotatedAtMicros rtt) + 4000000)"

lemma rotated_at:
  fixes rot now :: u64
  assumes "rot \<le> now"
  defines "k \<equiv> unat (now - rot) div 4000000"
  shows "unat (rot + of_nat k * 4000000) = unat rot + 4000000 * k"
    and "unat rot + 4000000 * k \<le> unat now" and "unat now < unat rot + 4000000 * k + 4000000"
proof -
  have d: "unat (now - rot) = unat now - unat rot" using assms(1) by (rule unat_sub)
  have le: "unat rot \<le> unat now" using assms(1) by (simp add: word_le_nat_alt)
  have km: "4000000 * k \<le> unat now - unat rot" and kl: "unat now - unat rot < 4000000 * k + 4000000"
    unfolding k_def d by (simp_all add: mult.commute div_times_less_eq_dividend dividend_less_div_times)
  have n: "unat now < 2 ^ 64" using unsigned_less [of now] by simp
  have u: "unat (of_nat k :: u64) = k"
    using km n by (simp add: unat_of_nat)
  then have m: "unat (of_nat k * 4000000 :: u64) = 4000000 * k"
    by (subst unat_mult_small) (use km n in simp_all)
  show "unat rot + 4000000 * k \<le> unat now" "unat now < unat rot + 4000000 * k + 4000000"
    using km kl le by linarith+
  then show "unat (rot + of_nat k * 4000000) = unat rot + 4000000 * k"
    by (subst unat_add_small) (use m n in simp_all)
qed

lemma rotate_min_rel:
  assumes rel: "sample_rel H T rtt" and "T \<le> unat now" and "now \<noteq> 0"
  shows "minRotatedAtMicros (rotate_min now rtt) \<noteq> 0
    \<and> sample_rel H (unat now) (rotate_min now rtt)"
proof -
  define rot where "rot = (if minRotatedAtMicros rtt = 0 then now else minRotatedAtMicros rtt)"
  have nz: "rot \<noteq> 0" using assms(3) by (simp add: rot_def)
  have le: "rot \<le> now"
    using rel assms(2) by (auto simp: rot_def sample_rel_def word_le_nat_alt)
  have mr: "min_rel H (minBucketsMicros rtt) (unat rot)"
    using rel by (auto simp: rot_def sample_rel_def min_rel_def bucket_samples_def min_of_def split: if_splits)
  then have ne: "minBucketsMicros rtt \<noteq> []" by (auto simp: min_rel_def)
  let ?k = "unat (now - rot) div 4000000"
  have e: "(if rot < now then now - rot else 0) = now - rot" using le by auto
  have eq: "rotate_min now rtt = rtt\<lparr>minBucketsMicros := take (length (minBucketsMicros rtt)) (replicate ?k 0 @ minBucketsMicros rtt),
      minRotatedAtMicros := rot + of_nat ?k * 4000000\<rparr>"
    unfolding rotate_min_def Let_def rot_def [symmetric] e rotate_buckets_closed [OF ne] by simp
  have "0 < unat rot" using nz by (simp add: unat_gt_0)
  then have "rot + of_nat ?k * 4000000 \<noteq> 0" using rotated_at(1) [OF le] by auto
  then show ?thesis
    using min_rel_rotate [OF mr, of ?k] rotated_at [OF le] by (simp add: eq sample_rel_def)
qed

lemma Rtt_Sample_rel:
  assumes rel: "sample_rel H T rtt" and "T \<le> unat now" and "now \<noteq> 0"
    and acc: "Rtt_Sample rt held now rtt = (True, rtt')"
  shows "sample_rel (insert (unat now, unat rt) H) (unat now) rtt'"
proof -
  let ?s = "ucast rt :: u32"
  let ?r1 = "rotate_min now (rtt\<lparr>latestMicros := ?s\<rparr>)"
  have rt: "rt \<noteq> 0" "unat rt \<le> 10000000"
    using acc by (auto simp: Rtt_Sample_def word_less_nat_alt split: if_splits)
  then have s: "unat ?s = unat rt" by (simp add: unat_ucast)
  then have snz: "?s \<noteq> 0" using rt(1) by (auto simp: unat_eq_zero [symmetric])
  have "sample_rel H T (rtt\<lparr>latestMicros := ?s\<rparr>)" using rel by (simp add: sample_rel_def)
  note r1 = rotate_min_rel [OF this assms(2,3)]
  have "rtt' = fold_hold held (fold_srtt ?s (fold_min ?s ?r1))"
    using acc by (auto simp: Rtt_Sample_def Let_def split: if_splits)
  then have f: "minBucketsMicros rtt' = minBucketsMicros (fold_min ?s ?r1)"
    "minRotatedAtMicros rtt' = minRotatedAtMicros ?r1"
    by (simp_all add: fold_hold_def fold_srtt_def fold_min_def Let_def)
  have "min_rel (insert (unat now, unat ?s) H) (minBucketsMicros (fold_min ?s ?r1)) (unat (minRotatedAtMicros ?r1))"
    using min_rel_sample [of H "minBucketsMicros ?r1" "unat (minRotatedAtMicros ?r1)" "unat now" ?s] r1 snz
    by (auto simp: sample_rel_def fold_min_def)
  then show ?thesis using f s r1 by (simp add: sample_rel_def)
qed

lemma Rtt_Sample_refused: "Rtt_Sample rt held now rtt = (False, rtt') \<Longrightarrow> rtt' = rtt"
  by (auto simp: Rtt_Sample_def Let_def split: if_splits)

lemma fold_lowest:
  defines "m bs m0 \<equiv> foldl keep_lowest m0 bs"
  shows "m bs m0 \<in> set (m0 # bs) \<and> (\<forall>b\<in>set (m0 # bs). b \<noteq> 0 \<longrightarrow> m bs m0 \<noteq> 0 \<and> m bs m0 \<le> b)"
  unfolding m_def
proof (induction bs arbitrary: m0)
  case Nil
  then show ?case by simp
next
  case (Cons b bs)
  let ?m = "foldl keep_lowest (keep_lowest m0 b) bs"
  have k: "keep_lowest m0 b \<in> {m0, b}"
    "m0 \<noteq> 0 \<Longrightarrow> keep_lowest m0 b \<noteq> 0 \<and> keep_lowest m0 b \<le> m0"
    "b \<noteq> 0 \<Longrightarrow> keep_lowest m0 b \<noteq> 0 \<and> keep_lowest m0 b \<le> b"
    by (auto simp: keep_lowest_def)
  have IH: "?m \<in> set (keep_lowest m0 b # bs)"
    "\<forall>x\<in>set (keep_lowest m0 b # bs). x \<noteq> 0 \<longrightarrow> ?m \<noteq> 0 \<and> ?m \<le> x"
    using Cons.IH [of "keep_lowest m0 b"] by auto
  then show ?case using k by (auto dest: order_trans)
qed

lemma MinRtt_member: "MinRttMicros rtt \<noteq> 0 \<Longrightarrow> MinRttMicros rtt \<in> set (minBucketsMicros rtt)"
  using fold_lowest [of 0 "minBucketsMicros rtt"] by (auto simp: MinRttMicros_def)

lemma MinRtt_least:
  "b \<in> set (minBucketsMicros rtt) \<Longrightarrow> b \<noteq> 0 \<Longrightarrow> MinRttMicros rtt \<noteq> 0 \<and> MinRttMicros rtt \<le> b"
  using fold_lowest [of 0 "minBucketsMicros rtt"] by (auto simp: MinRttMicros_def)

text \<open>A run of measurements, with the ghost set of accepted ones and the time of the last.\<close>

type_synonym measurement = "u64 \<times> u32 \<times> u64"

fun run_samples :: "measurement list \<Rightarrow> RttEstimate \<Rightarrow> RttEstimate" where
  "run_samples [] rtt = rtt"
| "run_samples ((rt, held, now) # ms) rtt = run_samples ms (snd (Rtt_Sample rt held now rtt))"

definition usable :: "measurement \<Rightarrow> bool" where
  "usable m = (fst m \<noteq> 0 \<and> fst m \<le> RTT_SAMPLE_MAX_MICROS)"

definition accepted_samples :: "measurement list \<Rightarrow> samples" where
  "accepted_samples ms = (\<lambda>(rt, held, now). (unat now, unat rt)) ` set (filter usable ms)"

lemma Rtt_Sample_fst: "fst (Rtt_Sample rt held now rtt) = usable (rt, held, now)"
  by (auto simp: Rtt_Sample_def usable_def Let_def)

lemma run_samples_rel:
  assumes "sample_rel H T rtt" and "sorted (T # map (\<lambda>(rt, held, now). unat now) ms)"
    and "\<forall>(rt, held, now)\<in>set ms. now \<noteq> 0"
  shows "\<exists>T'. sample_rel (H \<union> accepted_samples ms) T' (run_samples ms rtt)
     \<and> (if filter usable ms = [] then T' = T else T' = unat (snd (snd (last (filter usable ms)))))"
  using assms
proof (induction ms arbitrary: H T rtt)
  case Nil
  then show ?case by (auto simp: accepted_samples_def)
next
  case (Cons m ms)
  obtain rt held now where m: "m = (rt, held, now)" by (cases m)
  obtain ok rtt1 where one: "Rtt_Sample rt held now rtt = (ok, rtt1)" by (cases "Rtt_Sample rt held now rtt")
  have ok: "ok = usable m" using Rtt_Sample_fst [of rt held now rtt] one m by simp
  show ?case
  proof (cases "usable m")
    case True
    then have "sample_rel (insert (unat now, unat rt) H) (unat now) rtt1"
      using Rtt_Sample_rel [OF Cons.prems(1)] Cons.prems(2,3) one ok m by auto
    from Cons.IH [OF this] Cons.prems(2,3) True one m show ?thesis
      by (auto simp: accepted_samples_def)
  next
    case False
    then have "rtt1 = rtt" using one ok Rtt_Sample_refused by auto
    with Cons.IH [OF Cons.prems(1)] Cons.prems(2,3) False one m show ?thesis
      by (auto simp: accepted_samples_def)
  qed
qed

lemma min_of_bucket_nonzero:
  assumes "min_rel H buckets r" and "i < 3" and "(t, s) \<in> H" and "bucket_of r t = i"
  shows "buckets ! i \<noteq> 0 \<and> unat (buckets ! i) \<le> s"
proof -
  have fin: "finite (bucket_samples H r i)" using assms(1) by (simp add: min_rel_def finite_bucket_samples)
  have mem: "s \<in> bucket_samples H r i" using assms(3,4) by (auto simp: bucket_samples_def)
  then have "min_of (bucket_samples H r i) \<in> bucket_samples H r i" using min_of_member [OF fin] by auto
  moreover have "\<forall>x\<in>bucket_samples H r i. 0 < x" using assms(1) by (auto simp: min_rel_def bucket_samples_def)
  ultimately have "0 < unat (buckets ! i)" using assms(1,2) by (simp add: min_rel_def)
  then show ?thesis using min_of_least [OF fin mem] assms(1,2) by (auto simp: min_rel_def)
qed

lemma MinRtt_window:
  assumes rel: "sample_rel H T rtt" and "(T, s0) \<in> H"
  shows "(\<forall>(t, s)\<in>H. T - t \<le> 8000000 \<longrightarrow> unat (MinRttMicros rtt) \<le> s)
    \<and> (\<exists>(t, s)\<in>H. T - t < 12000000 \<and> unat (MinRttMicros rtt) = s)"
proof -
  define r where "r = unat (minRotatedAtMicros rtt)"
  have mr: "min_rel H (minBucketsMicros rtt) r" and r: "r \<le> T" "T < r + 4000000"
    using assms by (auto simp: sample_rel_def r_def split: if_splits)
  have l: "length (minBucketsMicros rtt) = 3" using mr by (simp add: min_rel_def)
  have low: "MinRttMicros rtt \<noteq> 0 \<and> unat (MinRttMicros rtt) \<le> s" if "(t, s) \<in> H" "T - t \<le> 8000000" for t s
  proof -
    have "bucket_of r t < 3"
      using that(2) r by (auto simp: bucket_of_def less_mult_imp_div_less)
    note b = min_of_bucket_nonzero [OF mr this that(1) refl]
    have "minBucketsMicros rtt ! bucket_of r t \<in> set (minBucketsMicros rtt)"
      using l \<open>bucket_of r t < 3\<close> by (intro nth_mem) simp
    from MinRtt_least [OF this] b show ?thesis by (auto simp: word_le_nat_alt)
  qed
  then have "MinRttMicros rtt \<in> set (minBucketsMicros rtt)"
    using MinRtt_member low [OF assms(2)] by auto
  then obtain i where i: "i < 3" "minBucketsMicros rtt ! i = MinRttMicros rtt"
    using l by (auto simp: in_set_conv_nth)
  have "MinRttMicros rtt \<noteq> 0" using low [OF assms(2)] by simp
  then have "0 < unat (minBucketsMicros rtt ! i)" using i by (simp add: unat_gt_0)
  then have "min_of (bucket_samples H r i) \<noteq> 0"
    using mr i(1) by (simp add: min_rel_def)
  then have ne: "bucket_samples H r i \<noteq> {}" by (auto simp: min_of_def)
  have fin: "finite (bucket_samples H r i)" using mr by (simp add: min_rel_def finite_bucket_samples)
  have "unat (MinRttMicros rtt) \<in> bucket_samples H r i"
    using min_of_member [OF fin ne] mr i by (auto simp: min_rel_def)
  then obtain t where t: "(t, unat (MinRttMicros rtt)) \<in> H" "bucket_of r t = i"
    by (auto simp: bucket_samples_def)
  have "T - t < 12000000"
  proof (cases "r \<le> t")
    case False
    then have "(r - t + 3999999) div 4000000 \<le> 2" using t(2) i(1) by (simp add: bucket_of_def)
    then have "r - t + 3999999 < 3 * 4000000" using div_less_iff_less_mult [of 4000000 "r - t + 3999999" 3] by simp
    then show ?thesis using r by linarith
  qed (use r in linarith)
  then show ?thesis using low t by auto
qed

lemma rotate_min_ok: "rtt_ok rtt \<Longrightarrow> rtt_ok (rotate_min now rtt)"
proof -
  assume ok: "rtt_ok rtt"
  then have ne: "minBucketsMicros rtt \<noteq> []" by (auto simp: rtt_ok_def)
  show ?thesis
    using ok unfolding rotate_min_def Let_def rotate_buckets_closed [OF ne]
    by (auto simp: rtt_ok_def dest: in_set_takeD)
qed

lemma Rtt_Sample_ok:
  assumes "rtt_ok rtt"
  shows "rtt_ok (snd (Rtt_Sample rt held now rtt))"
proof (cases "usable (rt, held, now)")
  case True
  let ?s = "ucast rt :: u32"
  have rt: "rt \<noteq> 0" "unat rt \<le> 10000000" using True by (auto simp: usable_def word_le_nat_alt)
  then have s: "unat ?s = unat rt" by (simp add: unat_ucast)
  then have snz: "?s \<noteq> 0" using rt(1) by (auto simp: unat_eq_zero [symmetric])
  have "rtt_ok (rtt\<lparr>latestMicros := ?s\<rparr>)" using assms s rt by (simp add: rtt_ok_def)
  then have "rtt_ok (rotate_min now (rtt\<lparr>latestMicros := ?s\<rparr>))" by (rule rotate_min_ok)
  then have "rtt_ok (fold_min ?s (rotate_min now (rtt\<lparr>latestMicros := ?s\<rparr>)))"
    using s rt by (auto simp: rtt_ok_def fold_min_def dest!: set_update_subset_insert [THEN subsetD])
  then have "rtt_ok (fold_srtt ?s (fold_min ?s (rotate_min now (rtt\<lparr>latestMicros := ?s\<rparr>))))"
    using fold_srtt_ok s rt snz by simp
  moreover have "snd (Rtt_Sample rt held now rtt) =
      fold_hold held (fold_srtt ?s (fold_min ?s (rotate_min now (rtt\<lparr>latestMicros := ?s\<rparr>))))"
    using True by (auto simp: Rtt_Sample_def usable_def Let_def)
  ultimately show ?thesis by (simp add: rtt_ok_def fold_hold_def)
next
  case False
  then have "fst (Rtt_Sample rt held now rtt) = False" by (simp add: Rtt_Sample_fst)
  then show ?thesis using assms Rtt_Sample_refused by (metis prod.collapse)
qed

lemma Rtt_Reset_ok: "rtt_ok Rtt_Reset"
  by (simp add: rtt_ok_def Rtt_Reset_def)

lemma run_samples_ok: "rtt_ok rtt \<Longrightarrow> rtt_ok (run_samples ms rtt)"
  by (induction ms arbitrary: rtt) (auto simp: Rtt_Sample_ok)

section \<open>The timeout\<close>

definition timeout_spec :: "u32 \<Rightarrow> u32 \<Rightarrow> RttEstimate \<Rightarrow> nat" where
  "timeout_spec fallbackMicros ackCadenceMicros rtt =
     unat (RoundTripOr fallbackMicros rtt)
     + max (max (4 * unat (rttvarMicros rtt)) 1000) (unat (RoundTripOr fallbackMicros rtt) div 8)
     + max (unat ackCadenceMicros) (unat (peerAckDelayMicros rtt))"

lemma unat_u32_bound: "unat (x :: u32) < 2 ^ 32"
  using unsigned_less [of x] by simp

lemma unat_widen: "unat (ucast (x :: u32) :: u64) = unat x"
  by (simp add: unat_ucast_up)

lemma unat_base_timeout:
  "unat (base_timeout fallback cadence rtt) = timeout_spec fallback cadence rtt"
proof -
  define v where "v = (4 :: u64) * ucast (rttvarMicros rtt)"
  define rt where "rt = RoundTripOr fallback rtt"
  define v1 where "v1 = (if v < 1000 then 1000 else v)"
  define sp where "sp = (ucast (rt div 8) :: u64)"
  define v2 where "v2 = (if v1 < sp then sp else v1)"
  define h where "h = (if (ucast cadence :: u64) < ucast (peerAckDelayMicros rtt)
      then ucast (peerAckDelayMicros rtt) else ucast cadence :: u64)"
  have v: "unat v = 4 * unat (rttvarMicros rtt)"
    unfolding v_def by (subst unat_mult_small)
      (use unat_u32_bound [of "rttvarMicros rtt"] in \<open>simp_all add: unat_widen\<close>)
  have v1: "unat v1 = max (4 * unat (rttvarMicros rtt)) 1000"
    by (auto simp: v1_def v word_less_nat_alt max_def)
  have sp: "unat sp = unat rt div 8" by (simp add: sp_def unat_widen unat_div)
  have v2: "unat v2 = max (max (4 * unat (rttvarMicros rtt)) 1000) (unat rt div 8)"
    by (auto simp: v2_def v1 sp word_less_nat_alt max_def)
  have h: "unat h = max (unat cadence) (unat (peerAckDelayMicros rtt))"
    by (auto simp: h_def unat_widen word_less_nat_alt max_def)
  have b: "unat v2 < 2 ^ 36" "unat h < 2 ^ 32"
    using unat_u32_bound [of "rttvarMicros rtt"] unat_u32_bound [of rt] unat_u32_bound [of cadence]
      unat_u32_bound [of "peerAckDelayMicros rtt"] by (auto simp: v2 h)
  have s1: "unat (ucast rt + v2) = unat rt + unat v2"
    by (subst unat_add_small) (use b unat_u32_bound [of rt] in \<open>simp_all add: unat_widen\<close>)
  have "unat (ucast rt + v2 + h) = unat rt + unat v2 + unat h"
    by (subst unat_add_small) (use b s1 unat_u32_bound [of rt] in simp_all)
  moreover have "base_timeout fallback cadence rtt = ucast rt + v2 + h"
    by (simp add: base_timeout_def Let_def v_def v1_def sp_def v2_def h_def rt_def)
  ultimately show ?thesis by (simp add: v2 h timeout_spec_def rt_def)
qed

lemma timeout_spec_bounds: "1000 \<le> timeout_spec f c rtt" "timeout_spec f c rtt < 2 ^ 37"
  using unat_u32_bound [of "rttvarMicros rtt"] unat_u32_bound [of "RoundTripOr f rtt"]
    unat_u32_bound [of c] unat_u32_bound [of "peerAckDelayMicros rtt"]
  by (auto simp: timeout_spec_def)

lemma back_off_doublings:
  assumes "unat rto * 2 ^ n < 2 ^ 64"
  shows "\<exists>k\<le>n. unat (back_off n silent rto) = unat rto * 2 ^ k
    \<and> (k < n \<longrightarrow> unat silent \<le> unat rto * 2 ^ k) \<and> (\<forall>j<k. unat rto * 2 ^ j < unat silent)"
  using assms
proof (induction n arbitrary: rto)
  case 0
  then show ?case by simp
next
  case (Suc n)
  show ?case
  proof (cases "rto < silent")
    case True
    have "unat rto * 2 \<le> unat rto * 2 ^ Suc n" by simp
    also have "\<dots> < 2 ^ 64" by (rule Suc.prems)
    finally have lt: "unat rto * unat (2 :: u64) < 2 ^ LENGTH(64)" by simp
    have d: "unat (push_bit 1 rto) = unat rto * 2"
      using unat_mult_small [OF lt] by (simp add: push_bit_eq_mult)
    then obtain k where k: "k \<le> n" "unat (back_off n silent (push_bit 1 rto)) = unat rto * 2 * 2 ^ k"
      "k < n \<longrightarrow> unat silent \<le> unat rto * 2 * 2 ^ k" "\<forall>j<k. unat rto * 2 * 2 ^ j < unat silent"
      using Suc.IH [of "push_bit 1 rto"] Suc.prems by (auto simp: mult.assoc)
    have "unat rto * 2 ^ j < unat silent" if "j < Suc k" for j
      using that k(4) True by (cases j) (auto simp: word_less_nat_alt mult.assoc)
    then show ?thesis using k True by (intro exI [of _ "Suc k"]) (auto simp: mult.assoc)
  next
    case False
    then show ?thesis by (intro exI [of _ 0]) (simp add: word_less_nat_alt)
  qed
qed

section \<open>Properties\<close>

text \<open>
  C21: The remembered minimum is a sliding minimum. Fed with measurements at non-decreasing clock
  times, the estimator reports, right after an accepted measurement taken at time \<open>T\<close>, a round
  trip no larger than any accepted in the last eight seconds, and one that really was measured
  less than twelve seconds before \<open>T\<close>; nothing older survives the rotation.
\<close>

theorem min_rtt_sliding_window:
  assumes "sorted (map (\<lambda>(rt, held, now). unat now) ms)"
    and "\<forall>(rt, held, now)\<in>set ms. now \<noteq> 0"
    and "filter usable ms \<noteq> []" and "T = unat (snd (snd (last (filter usable ms))))"
  shows "(\<forall>(t, s)\<in>accepted_samples ms. T - t \<le> 8000000 \<longrightarrow> unat (MinRttMicros (run_samples ms Rtt_Reset)) \<le> s)
    \<and> (\<exists>(t, s)\<in>accepted_samples ms. T - t < 12000000 \<and> unat (MinRttMicros (run_samples ms Rtt_Reset)) = s)"
proof -
  have "sample_rel {} 0 Rtt_Reset" by (simp add: sample_rel_def Rtt_Reset_def)
  then have rel: "sample_rel (accepted_samples ms) T (run_samples ms Rtt_Reset)"
    using run_samples_rel [of "{}" 0 Rtt_Reset ms] assms by auto
  have "last (filter usable ms) \<in> set (filter usable ms)" using assms(3) by (rule last_in_set)
  then have "(T, unat (fst (last (filter usable ms)))) \<in> accepted_samples ms"
    unfolding accepted_samples_def assms(4) by (rule rev_image_eqI) (simp add: case_prod_unfold)
  then show ?thesis by (rule MinRtt_window [OF rel])
qed

lemmas Rtt_Sample_eval = Rtt_Sample_def rotate_min_def fold_min_def fold_srtt_def fold_hold_def
  rotate_buckets_closed numeral_3_eq_3

theorem min_rtt_sliding_window_witness:
  "(\<exists>(t, s)\<in>accepted_samples [(500, 0, 1), (700, 0, 9000001), (900, 0, 13000000)].
     13000000 - t < (12000000 :: nat) \<and>
     unat (MinRttMicros (run_samples [(500, 0, 1), (700, 0, 9000001), (900, 0, 13000000)] Rtt_Reset)) = s)
   \<and> MinRttMicros (run_samples [(500, 0, 1), (700, 0, 9000001), (900, 0, 13000000)] Rtt_Reset) = 700"
proof -
  let ?ms = "[(500, 0, 1), (700, 0, 9000001), (900, 0, 13000000)] :: measurement list"
  have m: "sorted (map (\<lambda>(rt, held, now). unat now) ?ms)" "\<forall>(rt, held, now)\<in>set ?ms. now \<noteq> 0"
    by simp_all
  have f: "filter usable ?ms = ?ms" by (simp add: usable_def)
  have l: "filter usable ?ms \<noteq> []" "13000000 = unat (snd (snd (last (filter usable ?ms))))"
    unfolding f by simp_all
  note win = min_rtt_sliding_window [OF m l, THEN conjunct2]
  have "snd (Rtt_Sample 500 0 1 Rtt_Reset) = \<lparr>srttMicros = 500, rttvarMicros = 250, peerAckDelayMicros = 0,
      latestMicros = 500, minBucketsMicros = [500, 0, 0], minRotatedAtMicros = 1, lastAckedAtMicros = 0\<rparr>"
    by (simp add: Rtt_Sample_eval Rtt_Reset_def)
  moreover have "snd (Rtt_Sample 700 0 9000001 \<lparr>srttMicros = 500, rttvarMicros = 250, peerAckDelayMicros = 0,
      latestMicros = 500, minBucketsMicros = [500, 0, 0], minRotatedAtMicros = 1, lastAckedAtMicros = 0\<rparr>)
      = \<lparr>srttMicros = 525, rttvarMicros = 237, peerAckDelayMicros = 0, latestMicros = 700,
          minBucketsMicros = [700, 0, 500], minRotatedAtMicros = 8000001, lastAckedAtMicros = 0\<rparr>"
    by (simp add: Rtt_Sample_eval)
  moreover have "minBucketsMicros (snd (Rtt_Sample 900 0 13000000 \<lparr>srttMicros = 525, rttvarMicros = 237,
      peerAckDelayMicros = 0, latestMicros = 700, minBucketsMicros = [700, 0, 500],
      minRotatedAtMicros = 8000001, lastAckedAtMicros = 0\<rparr>)) = [900, 700, 0]"
    by (simp add: Rtt_Sample_eval)
  ultimately have "MinRttMicros (run_samples ?ms Rtt_Reset) = 700"
    by (simp add: MinRttMicros_def keep_lowest_def)
  with win show ?thesis by (rule conjI)
qed

text \<open>
  C22: The retransmission timeout is the smoothed round trip plus the larger of four deviations, one
  millisecond and an eighth of the round trip, plus the larger of the two holds; it is doubled once
  for each doubling that the peer's silence exceeds, at most three times, and capped at one minute.
  No intermediate 64-bit sum wraps, and the result is never below one millisecond.
\<close>

theorem retransmit_timeout_exact:
  "\<exists>k\<le>3. unat (RetransmitTimeout fallback cadence now rtt) = min 60000000 (timeout_spec fallback cadence rtt * 2 ^ k)
     \<and> (k < 3 \<longrightarrow> unat (SilentForMicros now rtt) \<le> timeout_spec fallback cadence rtt * 2 ^ k)
     \<and> (\<forall>j<k. timeout_spec fallback cadence rtt * 2 ^ j < unat (SilentForMicros now rtt))
     \<and> 1000 \<le> timeout_spec fallback cadence rtt"
proof -
  let ?b = "base_timeout fallback cadence rtt"
  note b = timeout_spec_bounds [of fallback cadence rtt] 
  have "unat ?b * 2 ^ 3 < 2 ^ 64" using b by (simp add: unat_base_timeout)
  then obtain k where k: "k \<le> 3" "unat (back_off 3 (SilentForMicros now rtt) ?b) = unat ?b * 2 ^ k"
    "k < 3 \<longrightarrow> unat (SilentForMicros now rtt) \<le> unat ?b * 2 ^ k" "\<forall>j<k. unat ?b * 2 ^ j < unat (SilentForMicros now rtt)"
    using back_off_doublings by blast
  have "1000 \<le> unat ?b * 2 ^ k" using b(1) by (simp add: unat_base_timeout) (metis le_trans mult.right_neutral mult_le_mono2 one_le_numeral one_le_power)
  then have "unat (RetransmitTimeout fallback cadence now rtt) = min 60000000 (unat ?b * 2 ^ k)"
    using k(2) by (auto simp: RetransmitTimeout_def Let_def word_less_nat_alt min_def)
  then show ?thesis using k b(1) by (auto simp: unat_base_timeout)
qed

theorem retransmit_timeout_exact_witness:
  "\<exists>k\<le>3. unat (RetransmitTimeout 250000 0 900000 (Rtt_Reset\<lparr>lastAckedAtMicros := 1\<rparr>)) =
      min 60000000 (timeout_spec 250000 0 (Rtt_Reset\<lparr>lastAckedAtMicros := 1\<rparr>) * 2 ^ k)"
  using retransmit_timeout_exact [of 250000 0 900000 "Rtt_Reset\<lparr>lastAckedAtMicros := 1\<rparr>"] by blast



end
