(* ===== verification/Delivery.thy ===== *)
theory Delivery
  imports Flux_Constants
begin

text \<open>
  The delivery-rate estimator of \<^verbatim>\<open>flux/internal/delivery.h\<close>: acknowledged and lost bytes in
  four rotating buckets, the loss percentage, the path capacity and the overflow test.
\<close>

section \<open>Definitions\<close>

record DeliveryEstimate =
  bucketBytes :: "u32 list"
  lostBytes :: "u32 list"
  rotatedAtMicros :: u64
  everComplete :: bool

definition Delivery_Reset :: DeliveryEstimate where
  "Delivery_Reset = \<lparr>bucketBytes = replicate DELIVERY_BUCKETS 0, lostBytes = replicate DELIVERY_BUCKETS 0,
     rotatedAtMicros = 0, everComplete = False\<rparr>"

function rotate_delivery :: "u64 \<Rightarrow> DeliveryEstimate \<Rightarrow> DeliveryEstimate" where
  "rotate_delivery elapsed d =
     (if DELIVERY_BUCKET_MICROS \<le> elapsed
      then rotate_delivery (elapsed - DELIVERY_BUCKET_MICROS)
             (d\<lparr>bucketBytes := 0 # butlast (bucketBytes d), lostBytes := 0 # butlast (lostBytes d),
                rotatedAtMicros := rotatedAtMicros d + DELIVERY_BUCKET_MICROS, everComplete := True\<rparr>)
      else d)"
  by pat_completeness auto
termination
  by (relation "measure (\<lambda>(elapsed, d). unat elapsed)")
     (auto simp: word_le_nat_alt unat_sub)

declare rotate_delivery.simps [simp del]

definition saturate_u32 :: "u64 \<Rightarrow> u32" where
  "saturate_u32 v = (if 0xFFFFFFFF < v then 0xFFFFFFFF else ucast v)"

definition Delivery_Sample :: "u32 \<Rightarrow> u64 \<Rightarrow> u64 \<Rightarrow> DeliveryEstimate \<Rightarrow> DeliveryEstimate" where
  "Delivery_Sample ackedBytes lostDeclaredBytes nowMicros d =
     (let d = (if rotatedAtMicros d = 0 then d\<lparr>rotatedAtMicros := nowMicros\<rparr> else d);
          elapsed = (if rotatedAtMicros d < nowMicros then nowMicros - rotatedAtMicros d else 0);
          d = rotate_delivery elapsed d;
          grown = ucast (bucketBytes d ! 0) + ucast ackedBytes;
          lost = ucast (lostBytes d ! 0) + lostDeclaredBytes
      in d\<lparr>bucketBytes := (bucketBytes d)[0 := saturate_u32 grown],
           lostBytes := (lostBytes d)[0 := saturate_u32 lost]\<rparr>)"

definition sum_retired :: "u32 list \<Rightarrow> u64" where
  "sum_retired bs = sum_list (map ucast (tl bs))"

definition LossPercent :: "DeliveryEstimate \<Rightarrow> u32" where
  "LossPercent d =
     (if \<not> everComplete d then 0
      else let delivered = sum_retired (bucketBytes d);
               lost = sum_retired (lostBytes d);
               resolved = delivered + lost
           in if resolved = 0 then 0 else ucast (lost * 100 div resolved))"

definition PeakBytesPerBucket :: "DeliveryEstimate \<Rightarrow> u32" where
  "PeakBytesPerBucket d =
     (if \<not> everComplete d then 0
      else foldl (\<lambda>peak b. if peak < b then b else peak) 0 (tl (bucketBytes d)))"

definition PathBytes :: "u32 \<Rightarrow> DeliveryEstimate \<Rightarrow> u64" where
  "PathBytes minRttMicros d =
     (let peak = PeakBytesPerBucket d
      in if peak = 0 \<or> minRttMicros = 0 then 0
         else ucast peak * ucast minRttMicros div DELIVERY_BUCKET_MICROS)"

definition CouldOverflow :: "u32 \<Rightarrow> u64 \<Rightarrow> DeliveryEstimate \<Rightarrow> bool" where
  "CouldOverflow minRttMicros inFlightBytes d =
     (let path = PathBytes minRttMicros d
      in if path = 0 then True else path * CC_OVERFLOW_GATE_PERCENT \<le> inFlightBytes * 100)"

section \<open>Lemmas\<close>

definition delivery_ok :: "DeliveryEstimate \<Rightarrow> bool" where
  "delivery_ok d \<longleftrightarrow> length (bucketBytes d) = DELIVERY_BUCKETS \<and> length (lostBytes d) = DELIVERY_BUCKETS"

lemma unat_u32_widen: "unat (ucast (x :: u32) :: u64) = unat x" "unat x < 2 ^ 32" for x :: u32
  using unsigned_less [of x] by (simp_all add: unat_ucast_up)

lemma rotate_delivery_shift:
  assumes "delivery_ok d"
  shows "delivery_ok (rotate_delivery elapsed d)
    \<and> bucketBytes (rotate_delivery elapsed d) = take 4 (replicate (unat elapsed div 250000) 0 @ bucketBytes d)
    \<and> lostBytes (rotate_delivery elapsed d) = take 4 (replicate (unat elapsed div 250000) 0 @ lostBytes d)
    \<and> (everComplete (rotate_delivery elapsed d) \<longleftrightarrow> everComplete d \<or> 250000 \<le> unat elapsed)"
  using assms
proof (induction "unat elapsed" arbitrary: elapsed d rule: less_induct)
  case less
  have l: "length (bucketBytes d) = 4" "length (lostBytes d) = 4"
    using less.prems by (simp_all add: delivery_ok_def)
  show ?case
  proof (cases "DELIVERY_BUCKET_MICROS \<le> elapsed")
    case False
    then have "unat elapsed < 250000" by (simp add: word_le_nat_alt)
    then show ?thesis using False l by (simp add: rotate_delivery.simps [of elapsed] delivery_ok_def)
  next
    case True
    let ?d = "d\<lparr>bucketBytes := 0 # butlast (bucketBytes d), lostBytes := 0 # butlast (lostBytes d),
                rotatedAtMicros := rotatedAtMicros d + DELIVERY_BUCKET_MICROS, everComplete := True\<rparr>"
    have le: "250000 \<le> unat elapsed" using True by (simp add: word_le_nat_alt)
    have u: "unat (elapsed - 250000) = unat elapsed - 250000" using True by (simp add: unat_sub)
    define k where "k = (unat elapsed - 250000) div 250000"
    have k: "unat elapsed div 250000 = Suc k" using le by (simp add: k_def le_div_geq)
    have shift: "take 4 (replicate k 0 @ 0 # butlast b) = take 4 (replicate (Suc k) 0 @ b)" if "length b = 4" for b :: "u32 list"
      using that by (intro nth_equalityI)
        (auto simp: nth_append nth_Cons nth_butlast Suc_diff_le not_less split: nat.splits)
    have "delivery_ok ?d" using l by (simp add: delivery_ok_def)
    from less.hyps [OF _ this, of "elapsed - 250000"] u le
    show ?thesis
      using True shift [OF l(1)] shift [OF l(2)]
      by (simp add: rotate_delivery.simps [of elapsed] k k_def)
  qed
qed

lemma unat_saturate: "unat (saturate_u32 v) = min 4294967295 (unat v)"
  by (auto simp: saturate_u32_def word_less_nat_alt unat_ucast min_def)

lemma unat_sum_retired:
  assumes "length bs \<le> 4"
  shows "unat (sum_retired bs) = sum_list (map unat (tl bs))"
proof -
  have "unat (sum_list (map ucast xs) :: u64) = sum_list (map unat xs) \<and> sum_list (map unat xs) \<le> length xs * 2 ^ 32"
    if "length xs \<le> 3" for xs :: "u32 list"
    using that
  proof (induction xs)
    case (Cons x xs)
    then have "sum_list (map unat xs) \<le> 2 * 2 ^ 32" by auto
    then show ?case using Cons unat_u32_widen(2) [of x]
      by (auto simp: unat_u32_widen(1) intro!: trans [OF unat_add_small])
  qed simp
  from this [of "tl bs"] assms show ?thesis by (simp add: sum_retired_def)
qed

lemma sum_retired_bound: "length bs \<le> 4 \<Longrightarrow> unat (sum_retired bs) < 2 ^ 34"
proof -
  assume l: "length bs \<le> 4"
  have "sum_list (map unat xs) \<le> length xs * 2 ^ 32" for xs :: "u32 list"
    using unat_u32_widen(2) by (induction xs) (auto intro: add_mono less_imp_le)
  from this [of "tl bs"] l show ?thesis by (simp add: unat_sum_retired)
qed

lemma fold_peak:
  "foldl (\<lambda>peak b. if peak < b then b else peak) p (bs :: u32 list) = fold max bs p"
  by (induction bs arbitrary: p) (auto simp: max_def intro: arg_cong2 [where f = "fold max"])

lemma unat_PathBytes:
  "unat (PathBytes minRtt d) = unat (PeakBytesPerBucket d) * unat minRtt div 250000"
proof -
  let ?p = "PeakBytesPerBucket d"
  have "unat ?p * unat minRtt < 2 ^ 32 * 2 ^ 32"
    using unat_u32_widen(2) by (intro mult_strict_mono') auto
  then have "unat (ucast ?p * ucast minRtt :: u64) = unat ?p * unat minRtt"
    by (subst unat_mult_small) (simp_all add: unat_u32_widen(1))
  then show ?thesis by (auto simp: PathBytes_def Let_def unat_div)
qed

lemma percent_le_100: "los * 100 div (del + los) \<le> (100 :: nat)"
proof (cases "los = 0")
  case False
  then have "los * 100 div (del + los) \<le> los * 100 div los" by (intro div_le_mono2) auto
  then show ?thesis using False by simp
qed simp

lemma LossPercent_exact:
  assumes "delivery_ok d"
  defines "del \<equiv> sum_list (map unat (tl (bucketBytes d)))" and "los \<equiv> sum_list (map unat (tl (lostBytes d)))"
  shows "unat (LossPercent d) = (if everComplete d \<and> del + los \<noteq> 0 then los * 100 div (del + los) else 0)"
proof -
  have l: "length (bucketBytes d) \<le> 4" "length (lostBytes d) \<le> 4" using assms(1) by (simp_all add: delivery_ok_def)
  let ?D = "sum_retired (bucketBytes d)" and ?L = "sum_retired (lostBytes d)"
  have D: "unat ?D = del" "unat ?L = los" using l by (simp_all add: unat_sum_retired del_def los_def)
  have b: "del < 2 ^ 34" "los < 2 ^ 34" using sum_retired_bound l D by metis+
  have s: "unat (?D + ?L) = del + los" by (subst unat_add_small) (use D b in simp_all)
  have m: "unat (?L * 100) = los * 100" by (subst unat_mult_small) (use D b in simp_all)
  have "unat (ucast (?L * 100 div (?D + ?L)) :: u32) = los * 100 div (del + los)"
    using percent_le_100 [of los del] by (simp add: unat_ucast unat_div s m)
  moreover have "?D + ?L = 0 \<longleftrightarrow> del + los = 0" using s by (auto simp: unat_eq_zero [symmetric])
  ultimately show ?thesis by (simp add: LossPercent_def Let_def)
qed

lemma replicate_two: "replicate 2 x = [x, x]"
  by (simp add: numeral_2_eq_2)

lemma four_split: "length xs = 4 \<Longrightarrow> \<exists>x ys. xs = x # ys \<and> length ys = 3"
  by (cases xs) auto

section \<open>Properties\<close>





end
