(* ===== verification/Congestion_Curve.thy ===== *)
theory Congestion_Curve
  imports Flux_Constants Common_Math "HOL-Library.Signed_Division" "HOL-Library.Monad_Syntax"
begin

text \<open>
  The pure growth curves of \<^verbatim>\<open>flux/internal/congestion_curve.h\<close>. Unsigned arithmetic wraps as
  in C++; the signed 64-bit part of \<open>CubicWindow\<close> is computed over the integers and every
  operation whose result does not fit 64 bits, which the language leaves undefined, is \<open>None\<close>.
\<close>

section \<open>Definitions\<close>

definition QueueTargetMicros :: "u32 \<Rightarrow> u32" where
  "QueueTargetMicros minRttMicros =
     (let target = minRttMicros div QUEUE_TARGET_DIVISOR
      in if target < QUEUE_TARGET_MIN_MICROS then QUEUE_TARGET_MIN_MICROS else target)"

definition i64 :: "int \<Rightarrow> int option" where
  "i64 x = (if - (2 ^ 63) \<le> x \<and> x < 2 ^ 63 then Some x else None)"

definition CubicWindow :: "u32 \<Rightarrow> u64 \<Rightarrow> u64 option" where
  "CubicWindow wMaxBytes elapsedMicros =
     (let cBytes = (CC_CUBIC_C_SCALED * MAX_WIRE_PACKET_SIZE div CC_CUBIC_C_SCALE :: u64)
      in if cBytes = 0 \<or> wMaxBytes = 0 then Some (ucast wMaxBytes)
         else do {
           let reduction = ucast wMaxBytes * (100 - CC_LOSS_RETAIN_PERCENT) div 100;
           root \<leftarrow> CubeRoot (reduction * 1000000000 div cBytes);
           let kMilli = uint root;
           elapsedMilli \<leftarrow> i64 (uint (elapsedMicros div 1000));
           offset \<leftarrow> i64 (elapsedMilli - kMilli);
           let bounded = (if 2000000 < offset then 2000000 else if offset < -2000000 then -2000000 else offset);
           p1 \<leftarrow> i64 (uint cBytes * bounded);
           p2 \<leftarrow> i64 (p1 * bounded);
           p3 \<leftarrow> i64 (p2 * bounded);
           let growth = p3 sdiv 1000000000;
           window \<leftarrow> i64 (uint wMaxBytes + growth);
           Some (if window < 0 then 0 else word_of_int window)
         })"

definition RenoWindow :: "u32 \<Rightarrow> u64 \<Rightarrow> u32 \<Rightarrow> u64" where
  "RenoWindow wMaxBytes elapsedMicros srttMicros =
     (if srttMicros = 0 then 0
      else let retained = ucast wMaxBytes * CC_LOSS_RETAIN_PERCENT div 100;
               rounds = elapsedMicros div ucast srttMicros;
               perRound = MAX_WIRE_PACKET_SIZE * 3 * (100 - CC_LOSS_RETAIN_PERCENT) div (100 + CC_LOSS_RETAIN_PERCENT)
           in retained + rounds * perRound)"

section \<open>The cubic\<close>

definition cubic_reduction :: "u32 \<Rightarrow> nat" where
  "cubic_reduction wMax = unat wMax * 30 div 100"

lemma cubic_K:
  fixes wMax :: u32
  shows "\<exists>r. CubeRoot (ucast wMax * (100 - 70) div 100 * 1000000000 div 480) = Some r
     \<and> unat r ^ 3 \<le> cubic_reduction wMax * 1000000000 div 480
     \<and> cubic_reduction wMax * 1000000000 div 480 < Suc (unat r) ^ 3 \<and> unat r \<le> 138978"
proof -
  have w: "unat wMax < 2 ^ 32" using unsigned_less [of wMax] by simp
  have "unat (ucast wMax * (100 - 70) :: u64) = unat wMax * 30"
    by (subst unat_mult_small) (use w in \<open>simp_all add: unat_ucast_up\<close>)
  then have r: "unat (ucast wMax * (100 - 70) div 100 :: u64) = cubic_reduction wMax"
    by (simp add: unat_div cubic_reduction_def)
  have rb: "cubic_reduction wMax < 1288490189" using w by (simp add: cubic_reduction_def)
  have "unat (ucast wMax * (100 - 70) div 100 * 1000000000 :: u64) = cubic_reduction wMax * 1000000000"
    by (subst unat_mult_small) (use r rb in simp_all)
  then have a: "unat (ucast wMax * (100 - 70) div 100 * 1000000000 div 480 :: u64) = cubic_reduction wMax * 1000000000 div 480"
    by (simp add: unat_div)
  have ab: "cubic_reduction wMax * 1000000000 div 480 < 138979 ^ 3" using rb by simp
  obtain r where r: "CubeRoot (ucast wMax * (100 - 70) div 100 * 1000000000 div 480) = Some r"
    "unat r ^ 3 \<le> cubic_reduction wMax * 1000000000 div 480" "cubic_reduction wMax * 1000000000 div 480 < Suc (unat r) ^ 3"
    using CubeRoot_exact [of "ucast wMax * (100 - 70) div 100 * 1000000000 div 480"] a ab by auto
  have "unat r < 138979"
    by (rule power_less_imp_less_base [of _ 3]) (use r(2) ab in linarith, simp)
  then show ?thesis using r by auto
qed

text \<open>The curve without machine limits, for the root \<open>k\<close> of this window.\<close>

definition cubic_growth :: "int \<Rightarrow> int" where
  "cubic_growth x = 480 * x * x * x sdiv 1000000000"

lemma sdiv_mono:
  fixes a b c :: int
  assumes "a \<le> b" and "0 < c"
  shows "a sdiv c \<le> b sdiv c"
proof -
  have pos: "x sdiv c = x div c" if "0 \<le> x" for x
    using that assms(2) by (auto simp: signed_divide_int_def sgn_if)
  have neg: "x sdiv c = - ((- x) div c)" if "x < 0" for x
    using that assms(2) by (auto simp: signed_divide_int_def sgn_if)
  have nn: "0 \<le> x div c" if "0 \<le> x" for x
    using that assms(2) by (simp add: pos_imp_zdiv_nonneg_iff)
  consider "0 \<le> a" | "a < 0" "0 \<le> b" | "b < 0" using assms(1) by linarith
  then show ?thesis
  proof cases
    case 1
    then show ?thesis using assms by (simp add: pos zdiv_mono1)
  next
    case 2
    then show ?thesis using nn [of b] nn [of "- a"] by (simp add: pos neg)
  next
    case 3
    then show ?thesis using assms zdiv_mono1 [of "- b" "- a" c] by (simp add: neg)
  qed
qed

lemma sdiv_neg_multiple: "0 < c \<Longrightarrow> 0 \<le> r \<Longrightarrow> (- (r * c)) sdiv c = - r" for r c :: int
  by (cases "r = 0") (auto simp: signed_divide_int_def sgn_if abs_mult not_less mult_less_0_iff zero_less_mult_iff)

lemma cube_mono:
  fixes x y :: int
  assumes "x \<le> y"
  shows "x * x * x \<le> y * y * y"
  using power_mono_odd [of 3 x y] assms by (simp add: power3_eq_cube)

lemma cubic_growth_mono: "x \<le> y \<Longrightarrow> cubic_growth x \<le> cubic_growth y"
  unfolding cubic_growth_def using cube_mono [of x y] by (intro sdiv_mono) (simp_all add: mult.assoc)

lemma cubic_growth_bounds:
  assumes "- 138978 \<le> x" and "x \<le> 267844"
  shows "- 1288485127 \<le> cubic_growth x" and "cubic_growth x \<le> 9223314206"
proof -
  have "cubic_growth (- 138978) \<le> cubic_growth x" "cubic_growth x \<le> cubic_growth 267844"
    using assms by (simp_all add: cubic_growth_mono)
  then show "- 1288485127 \<le> cubic_growth x" "cubic_growth x \<le> 9223314206"
    by (simp_all add: cubic_growth_def signed_divide_int_def)
qed

lemma i64_in: "- 9223372036854775808 \<le> x \<Longrightarrow> x < 9223372036854775808 \<Longrightarrow> i64 x = Some x"
  by (simp add: i64_def)

lemma cube_in_range:
  fixes x :: int
  assumes "- 138978 \<le> x" and "x \<le> 267844"
  shows "i64 (480 * x) = Some (480 * x)" "i64 (480 * x * x) = Some (480 * x * x)"
    "i64 (480 * x * x * x) = Some (480 * x * x * x)"
proof -
  have a: "\<bar>x\<bar> \<le> 267844" using assms by linarith
  have s: "x * x \<le> 267844 * 267844" using a abs_le_square_iff [of x 267844] by (simp add: power2_eq_square)
  have s0: "0 \<le> x * x" by simp
  have c: "(- 138978) * (- 138978) * (- 138978) \<le> x * x * x" "x * x * x \<le> 267844 * 267844 * 267844"
    by (rule cube_mono [OF assms(1)], rule cube_mono [OF assms(2)])
  show "i64 (480 * x) = Some (480 * x)" using a by (intro i64_in) simp_all
  show "i64 (480 * x * x) = Some (480 * x * x)"
    unfolding mult.assoc by (intro i64_in) (use s s0 in linarith)+
  show "i64 (480 * x * x * x) = Some (480 * x * x * x)"
    unfolding mult.assoc by (intro i64_in) (use c [unfolded mult.assoc] in linarith)+
qed

lemma CubicWindow_eq:
  assumes "wMax \<noteq> 0" and "unat elapsed < 267845000"
  shows "\<exists>k. CubeRoot (ucast wMax * (100 - 70) div 100 * 1000000000 div 480) = Some k \<and> unat k \<le> 138978
     \<and> CubicWindow wMax elapsed = Some (word_of_int (max 0 (uint wMax + cubic_growth (int (unat elapsed div 1000) - int (unat k)))))"
proof -
  obtain k where k: "CubeRoot (ucast wMax * (100 - 70) div 100 * 1000000000 div 480) = Some k" "unat k \<le> 138978"
    using cubic_K [of wMax] by auto
  define x where "x = int (unat elapsed div 1000) - int (unat k)"
  have x: "- 138978 \<le> x" "x \<le> 267844" using k(2) assms(2) unfolding x_def by linarith+
  have e: "uint (elapsed div 1000) = int (unat elapsed div 1000)" by (simp add: uint_div zdiv_int)
  have ek: "i64 (uint (elapsed div 1000)) = Some (int (unat elapsed div 1000))"
    unfolding e using assms(2) by (intro i64_in) simp_all
  have o: "i64 (int (unat elapsed div 1000) - uint k) = Some x"
    unfolding x_def using x by (auto simp: x_def i64_def)
  have w: "uint wMax < 4294967296" "0 \<le> uint wMax" using uint_lt2p [of wMax] by simp_all
  have g: "i64 (uint wMax + cubic_growth x) = Some (uint wMax + cubic_growth x)"
    by (intro i64_in) (use cubic_growth_bounds [OF x] w in linarith)+
  have b: "(if 2000000 < x then 2000000 else if x < -2000000 then -2000000 else x) = x" using x by simp
  have "CubicWindow wMax elapsed = Some (if uint wMax + cubic_growth x < 0 then 0 else word_of_int (uint wMax + cubic_growth x))"
    using assms(1) k(1) ek o g b cube_in_range [OF x]
    by (simp add: CubicWindow_def Let_def cubic_growth_def [symmetric])
  then show ?thesis using k by (auto simp: x_def max_def)
qed

section \<open>Properties\<close>



text \<open>
  From 407 seconds after the last reduction on, the product that the clamp on the offset is meant
  to keep in range leaves the signed 64-bit range for every window.
\<close>

lemma cubic_overflow:
  assumes "wMax \<noteq> 0" and "407000000 \<le> unat elapsed"
  shows "CubicWindow wMax elapsed = None"
proof -
  obtain k where k: "CubeRoot (ucast wMax * (100 - 70) div 100 * 1000000000 div 480) = Some k" "unat k \<le> 138978"
    using cubic_K [of wMax] by auto
  have e: "uint (elapsed div 1000) = int (unat elapsed div 1000)" by (simp add: uint_div zdiv_int)
  have "unat elapsed < 18446744073709551616" using unsigned_less [of elapsed] by simp
  then have el: "unat elapsed div 1000 < 18446744073709552" "407000 \<le> unat elapsed div 1000" using assms(2) by auto
  define x where "x = int (unat elapsed div 1000) - int (unat k)"
  have x: "267845 \<le> x" "x < 18446744073709552" using el k(2) unfolding x_def by linarith+
  define b where "b = (if 2000000 < x then 2000000 else if x < -2000000 then -2000000 else x)"
  have b: "267845 \<le> b" "b \<le> 2000000" using x by (auto simp: b_def)
  have ek: "i64 (uint (elapsed div 1000)) = Some (int (unat elapsed div 1000))"
    unfolding e using el by (intro i64_in) simp_all
  have o: "i64 (int (unat elapsed div 1000) - uint k) = Some x"
    unfolding x_def using x by (auto simp: x_def i64_def)
  have "b * b \<le> 2000000 * 2000000" by (rule mult_mono) (use b in simp_all)
  moreover have "0 \<le> b * b" by simp
  ultimately have p: "i64 (480 * b) = Some (480 * b)" "i64 (480 * b * b) = Some (480 * b * b)"
    unfolding mult.assoc by (intro i64_in; use b in linarith)+
  have "267845 * 267845 * 267845 \<le> b * b * b" using b(1) by (rule cube_mono)
  then have "i64 (480 * b * b * b) = None" by (simp add: i64_def mult.assoc)
  then show ?thesis
    using assms(1) k(1) ek o p by (simp add: CubicWindow_def Let_def b_def [symmetric])
qed

end
