(* ===== verification/Congestion.thy ===== *)
theory Congestion
  imports Rtt Delivery Congestion_Curve
begin

text \<open>
  The congestion controller of \<^verbatim>\<open>peer/congestion.cpp\<close>. \<open>PeerCc\<close> holds the fields of \<open>Peer\<close> that
  the controller reads and writes, \<open>CongestionDelta\<close> the feedback that an acknowledgement or a
  retransmission pass gathered, and \<open>CcConfig\<close> what it takes from the socket's configuration.
  \<open>Socket::ApplyCongestion\<close> is split where the source has its sections; each section is one
  function on the peer and \<open>ApplyCongestion\<close> composes them with the source's early returns. The
  result is \<open>None\<close> only where \<open>CubicWindow\<close> leaves the signed range.
\<close>

section \<open>State\<close>

record PeerCc =
  congestionBudget :: u32
  bytesInFlight :: u32
  outstandingToPeer :: u32
  slowStartThreshold :: u32
  slowStartQueueSinceMicros :: u64
  wMaxBytes :: u32
  congestionEpochMicros :: u64
  congestionEpoch :: u8
  starvedCandidateSinceMicros :: u64
  starvedSinceMicros :: u64
  starvedClearSinceMicros :: u64
  starvedExitedAtMicros :: u64
  starvedQueueCapMicros :: u32
  starvedMinRttMicros :: u32
  starvedEpisodes :: u32
  rtt :: RttEstimate
  delivery :: DeliveryEstimate

record CongestionDelta =
  resolvedBytes :: u32
  resolvedPackets :: u32
  ackedBytes :: u32
  rttSampleMicros :: u32
  ackDelayMicros :: u32
  sawLoss :: bool
  lostDeclaredBytes :: u32
  lostEpoch :: u8
  sawProbe :: bool

record CcConfig =
  minCongestionBudget :: u32
  maxCongestionBudget :: u32
  retryIntervalMicros :: u32
  cfgAckDelayMicros :: u32

section \<open>Helpers of the controller\<close>

definition RampStep :: "u32 \<Rightarrow> u32 \<Rightarrow> u32 \<Rightarrow> u32" where
  "RampStep budget acked ceiling =
     (let step = (if acked = 0 then 1 else acked);
          grown = budget + step;
          grown = (if grown < budget then UINT32_MAX else grown)
      in if ceiling < grown then ceiling else grown)"

definition StarvedQueueMicros :: "PeerCc \<Rightarrow> u32" where
  "StarvedQueueMicros peer =
     (if starvedMinRttMicros peer < srttMicros (rtt peer)
      then srttMicros (rtt peer) - starvedMinRttMicros peer else 0)"

definition StarvedWorstQueueMicros :: "PeerCc \<Rightarrow> u32" where
  "StarvedWorstQueueMicros peer =
     (let latest = (if starvedMinRttMicros peer < latestMicros (rtt peer)
                    then latestMicros (rtt peer) - starvedMinRttMicros peer else 0);
          smoothed = StarvedQueueMicros peer
      in if smoothed < latest then latest else smoothed)"

definition ConfirmWindowMicros :: "u32 \<Rightarrow> u32 \<Rightarrow> u32 \<Rightarrow> u64" where
  "ConfirmWindowMicros roundTripMicros rounds floorMicros =
     (let spanned = ucast rounds * ucast roundTripMicros
      in if ucast floorMicros < spanned then spanned else ucast floorMicros)"

definition AssertBudgetInRange :: "CcConfig \<Rightarrow> PeerCc \<Rightarrow> bool" where
  "AssertBudgetInRange cfg peer \<longleftrightarrow>
     minCongestionBudget cfg \<le> congestionBudget peer \<and> congestionBudget peer \<le> maxCongestionBudget cfg"

definition since :: "u64 \<Rightarrow> u64 \<Rightarrow> u64" where
  "since nowMicros stamp = (if stamp < nowMicros then nowMicros - stamp else 0)"

section \<open>The sections of ApplyCongestion\<close>

definition fold_feedback :: "CongestionDelta \<Rightarrow> u64 \<Rightarrow> PeerCc \<Rightarrow> PeerCc" where
  "fold_feedback d nowMicros peer =
     (let peer = peer\<lparr>bytesInFlight := bytesInFlight peer
                        - (if resolvedBytes d \<le> bytesInFlight peer then resolvedBytes d else bytesInFlight peer),
                      outstandingToPeer := outstandingToPeer peer
                        - (if resolvedPackets d \<le> outstandingToPeer peer then resolvedPackets d else outstandingToPeer peer)\<rparr>;
          peer = (if rttSampleMicros d \<noteq> 0
                  then peer\<lparr>rtt := snd (Rtt_Sample (ucast (rttSampleMicros d)) (ackDelayMicros d) nowMicros (rtt peer))\<rparr>
                  else peer);
          peer = (if ackedBytes d \<noteq> 0 then peer\<lparr>rtt := MarkAcked nowMicros (rtt peer)\<rparr> else peer)
      in peer\<lparr>delivery := Delivery_Sample (ackedBytes d) (ucast (lostDeclaredBytes d)) nowMicros (delivery peer)\<rparr>)"

definition forget_old_episode :: "u64 \<Rightarrow> PeerCc \<Rightarrow> PeerCc" where
  "forget_old_episode nowMicros peer =
     (if starvedExitedAtMicros peer \<noteq> 0
         \<and> starvedExitedAtMicros peer + CC_STARVED_REENTRY_WINDOW_MICROS < nowMicros
      then peer\<lparr>starvedExitedAtMicros := 0, starvedQueueCapMicros := 0, starvedMinRttMicros := 0\<rparr>
      else peer)"

definition starvation_verdict :: "CcConfig \<Rightarrow> CongestionDelta \<Rightarrow> u64 \<Rightarrow> PeerCc \<Rightarrow> PeerCc" where
  "starvation_verdict cfg d nowMicros peer =
     (let pathMinRtt = MinRttMicros (rtt peer);
          queueNow = QueueMicros (rtt peer);
          queueOverTarget = (pathMinRtt \<noteq> 0 \<and> QueueTargetMicros pathMinRtt < queueNow)
      in if starvedSinceMicros peer \<noteq> 0 then peer
         else
           let peer = forget_old_episode nowMicros peer;
               starvedNow = (queueOverTarget \<and> congestionBudget peer \<le> CC_STARVED_BUDGET_BYTES)
           in if \<not> starvedNow then peer\<lparr>starvedCandidateSinceMicros := 0\<rparr>
              else if ackedBytes d \<noteq> 0 \<and> starvedExitedAtMicros peer \<noteq> 0
              then peer\<lparr>starvedSinceMicros := nowMicros, starvedExitedAtMicros := 0,
                        starvedClearSinceMicros := 0, starvedCandidateSinceMicros := 0,
                        starvedEpisodes := starvedEpisodes peer + 1\<rparr>
              else if starvedCandidateSinceMicros peer = 0
              then peer\<lparr>starvedCandidateSinceMicros := nowMicros\<rparr>
              else if ackedBytes d \<noteq> 0
              then
                (let held = since nowMicros (starvedCandidateSinceMicros peer);
                     confirm = ConfirmWindowMicros (RoundTripOr (retryIntervalMicros cfg) (rtt peer))
                                 CC_STARVED_CONFIRM_ROUNDS CC_STARVED_CONFIRM_MIN_MICROS
                 in if confirm \<le> held
                    then peer\<lparr>starvedSinceMicros := nowMicros,
                              starvedQueueCapMicros := queueNow + QueueTargetMicros pathMinRtt div CC_STARVED_CAP_SLACK_DIVISOR,
                              starvedMinRttMicros := pathMinRtt,
                              starvedClearSinceMicros := 0, starvedCandidateSinceMicros := 0,
                              starvedEpisodes := starvedEpisodes peer + 1\<rparr>
                    else peer)
              else peer)"

definition probe_collapse :: "CcConfig \<Rightarrow> CongestionDelta \<Rightarrow> u64 \<Rightarrow> PeerCc \<Rightarrow> PeerCc" where
  "probe_collapse cfg d nowMicros peer =
     (if sawProbe d \<and> ackedBytes d = 0
      then
        let base = RetransmitTimeout (retryIntervalMicros cfg) (cfgAckDelayMicros cfg) 0 (rtt peer)
        in if base * PERSISTENT_CONGESTION_PROBES < SilentForMicros nowMicros (rtt peer)
           then
             let peer = (if congestionBudget peer \<noteq> minCongestionBudget cfg
                         then peer\<lparr>congestionBudget := minCongestionBudget cfg,
                                   wMaxBytes := minCongestionBudget cfg,
                                   congestionEpochMicros := nowMicros,
                                   slowStartQueueSinceMicros := 0,
                                   congestionEpoch := congestionEpoch peer + 1\<rparr>
                         else peer)
             in peer\<lparr>starvedCandidateSinceMicros := 0, starvedSinceMicros := 0,
                     starvedClearSinceMicros := 0, starvedExitedAtMicros := 0,
                     starvedQueueCapMicros := 0, starvedMinRttMicros := 0\<rparr>
           else peer
      else peer)"

definition is_new_loss :: "CongestionDelta \<Rightarrow> PeerCc \<Rightarrow> bool" where
  "is_new_loss d peer \<longleftrightarrow> sawLoss d \<and> 0 \<le> sint (lostEpoch d - congestionEpoch peer)"

definition loss_congested :: "u32 \<Rightarrow> CongestionDelta \<Rightarrow> PeerCc \<Rightarrow> bool" where
  "loss_congested inFlightAtEvent d peer =
     (let minRtt = MinRttMicros (rtt peer);
          lost = (ucast (lostDeclaredBytes d) :: u64);
          bigBite = (lost + ucast (ackedBytes d) \<le> lost * 2
                     \<and> 3 * MAX_WIRE_PACKET_SIZE \<le> lost
                     \<and> CouldOverflow minRtt (ucast inFlightAtEvent) (delivery peer));
          lossAboveTolerance = (CC_LOSS_TOLERANCE_PERCENT < LossPercent (delivery peer));
          queueStanding = (if starvedSinceMicros peer \<noteq> 0
                           then starvedQueueCapMicros peer < StarvedWorstQueueMicros peer
                           else minRtt \<noteq> 0 \<and> QueueTargetMicros minRtt < QueueMicros (rtt peer))
      in minRtt = 0 \<or> queueStanding \<or> (bigBite \<and> lossAboveTolerance))"

definition loss_trim :: "CcConfig \<Rightarrow> u32 \<Rightarrow> CongestionDelta \<Rightarrow> u64 \<Rightarrow> PeerCc \<Rightarrow> PeerCc" where
  "loss_trim cfg inFlightAtEvent d nowMicros peer =
     (let congested = loss_congested inFlightAtEvent d peer;
          retain = (if congested then CC_LOSS_RETAIN_PERCENT else CC_NOISE_RETAIN_PERCENT);
          budgetAtLoss = congestionBudget peer;
          trimmed = ucast (ucast (congestionBudget peer) * retain div 100 :: u64);
          trimmed = (if trimmed < minCongestionBudget cfg then minCongestionBudget cfg else trimmed);
          peer = peer\<lparr>congestionBudget := trimmed, slowStartQueueSinceMicros := 0\<rparr>;
          peer = (if congested
                  then peer\<lparr>wMaxBytes := budgetAtLoss, slowStartThreshold := trimmed, congestionEpochMicros := nowMicros\<rparr>
                  else peer)
      in peer\<lparr>congestionEpoch := congestionEpoch peer + 1\<rparr>)"

definition starved_climb :: "CcConfig \<Rightarrow> CongestionDelta \<Rightarrow> PeerCc \<Rightarrow> PeerCc" where
  "starved_climb cfg d peer =
     (if starvedQueueCapMicros peer < StarvedWorstQueueMicros peer then peer
      else peer\<lparr>congestionBudget := RampStep (congestionBudget peer) (ackedBytes d) (maxCongestionBudget cfg)\<rparr>)"

definition starved_recovery :: "CcConfig \<Rightarrow> CongestionDelta \<Rightarrow> u64 \<Rightarrow> PeerCc \<Rightarrow> PeerCc" where
  "starved_recovery cfg d nowMicros peer =
     (if StarvedQueueMicros peer \<le> QueueTargetMicros (starvedMinRttMicros peer)
      then
        if starvedClearSinceMicros peer = 0
        then starved_climb cfg d (peer\<lparr>starvedClearSinceMicros := nowMicros\<rparr>)
        else
          let clearHeld = since nowMicros (starvedClearSinceMicros peer);
              confirm = ConfirmWindowMicros (RoundTripOr (retryIntervalMicros cfg) (rtt peer))
                          CC_STARVED_EXIT_ROUNDS CC_STARVED_EXIT_MIN_MICROS
          in if confirm \<le> clearHeld
             then peer\<lparr>starvedSinceMicros := 0, starvedExitedAtMicros := nowMicros,
                       starvedClearSinceMicros := 0, slowStartThreshold := congestionBudget peer,
                       wMaxBytes := congestionBudget peer, congestionEpochMicros := nowMicros,
                       slowStartQueueSinceMicros := 0\<rparr>
             else starved_climb cfg d peer
      else starved_climb cfg d (peer\<lparr>starvedClearSinceMicros := 0\<rparr>))"

definition signal_live :: "PeerCc \<Rightarrow> bool" where
  "signal_live peer \<longleftrightarrow> MinRttMicros (rtt peer) \<noteq> 0 \<and> CC_INITIAL_WINDOW_BYTES \<le> congestionBudget peer"

definition queue_standing :: "PeerCc \<Rightarrow> bool" where
  "queue_standing peer \<longleftrightarrow>
     signal_live peer \<and> QueueTargetMicros (MinRttMicros (rtt peer)) < QueueMicros (rtt peer)"

definition latest_standing :: "PeerCc \<Rightarrow> bool" where
  "latest_standing peer \<longleftrightarrow>
     signal_live peer \<and> QueueTargetMicros (MinRttMicros (rtt peer)) < LatestQueueMicros (rtt peer)"

definition ramp :: "CcConfig \<Rightarrow> CongestionDelta \<Rightarrow> PeerCc \<Rightarrow> PeerCc" where
  "ramp cfg d peer = peer\<lparr>congestionBudget := RampStep (congestionBudget peer) (ackedBytes d) (maxCongestionBudget cfg)\<rparr>"

definition slow_start :: "CcConfig \<Rightarrow> CongestionDelta \<Rightarrow> u64 \<Rightarrow> PeerCc \<Rightarrow> PeerCc" where
  "slow_start cfg d nowMicros peer =
     (if slowStartQueueSinceMicros peer = 0
      then if latest_standing peer then peer\<lparr>slowStartQueueSinceMicros := nowMicros\<rparr> else ramp cfg d peer
      else if \<not> latest_standing peer \<and> \<not> queue_standing peer
      then ramp cfg d (peer\<lparr>slowStartQueueSinceMicros := 0\<rparr>)
      else
        let held = since nowMicros (slowStartQueueSinceMicros peer);
            confirm = CC_SLOW_START_CONFIRM_ROUNDS * ucast (RoundTripOr (retryIntervalMicros cfg) (rtt peer))
        in if confirm \<le> held
           then peer\<lparr>slowStartThreshold := congestionBudget peer, wMaxBytes := congestionBudget peer,
                     congestionEpochMicros := nowMicros, slowStartQueueSinceMicros := 0\<rparr>
           else peer)"

definition grow_towards :: "CcConfig \<Rightarrow> u64 \<Rightarrow> PeerCc \<Rightarrow> PeerCc" where
  "grow_towards cfg want peer =
     (if ucast (congestionBudget peer) < want
      then
        let step = want - ucast (congestionBudget peer);
            capped = (if MAX_WIRE_PACKET_SIZE < step then MAX_WIRE_PACKET_SIZE else step);
            grown = congestionBudget peer + ucast capped;
            grown = (if grown < congestionBudget peer then UINT32_MAX else grown);
            grown = (if maxCongestionBudget cfg < grown then maxCongestionBudget cfg else grown)
        in peer\<lparr>congestionBudget := grown\<rparr>
      else peer)"

definition start_curve :: "u64 \<Rightarrow> PeerCc \<Rightarrow> PeerCc" where
  "start_curve nowMicros peer =
     (if congestionEpochMicros peer = 0
      then peer\<lparr>congestionEpochMicros := nowMicros,
                wMaxBytes := (if wMaxBytes peer = 0 then congestionBudget peer else wMaxBytes peer)\<rparr>
      else peer)"

definition congestion_avoidance :: "CcConfig \<Rightarrow> u64 \<Rightarrow> PeerCc \<Rightarrow> PeerCc option" where
  "congestion_avoidance cfg nowMicros peer =
     (if queue_standing peer then Some peer
      else
        let peer = start_curve nowMicros peer;
            elapsed = since nowMicros (congestionEpochMicros peer)
        in do {
          cubic \<leftarrow> CubicWindow (wMaxBytes peer) elapsed;
          let reno = RenoWindow (wMaxBytes peer) elapsed (srttMicros (rtt peer));
          let want = (if reno < cubic then cubic else reno);
          Some (grow_towards cfg want peer)
        })"

definition ApplyCongestion :: "CcConfig \<Rightarrow> CongestionDelta \<Rightarrow> u64 \<Rightarrow> PeerCc \<Rightarrow> PeerCc option" where
  "ApplyCongestion cfg d nowMicros peer =
     (let inFlightAtEvent = bytesInFlight peer;
          peer = fold_feedback d nowMicros peer;
          peer = starvation_verdict cfg d nowMicros peer;
          peer = probe_collapse cfg d nowMicros peer
      in if is_new_loss d peer then Some (loss_trim cfg inFlightAtEvent d nowMicros peer)
         else if ackedBytes d = 0 then Some peer
         else if starvedSinceMicros peer \<noteq> 0 then Some (starved_recovery cfg d nowMicros peer)
         else if congestionBudget peer < slowStartThreshold peer then Some (slow_start cfg d nowMicros peer)
         else congestion_avoidance cfg nowMicros peer)"

section \<open>Configuration and a fresh peer\<close>

definition InitBudgets :: "u32 \<Rightarrow> u32 \<Rightarrow> u32 \<Rightarrow> u32 \<Rightarrow> CcConfig" where
  "InitBudgets cfgMinBudget maxOutPerPeer retry ackDelay =
     (let floor = (if cfgMinBudget \<noteq> 0 then cfgMinBudget else 2400);
          ceiling = (ucast maxOutPerPeer * 1024 * MAX_WIRE_PACKET_SIZE :: u64)
      in \<lparr>minCongestionBudget = (if floor < MAX_WIRE_PACKET_SIZE then MAX_WIRE_PACKET_SIZE else floor),
          maxCongestionBudget = (if ceiling = 0 then CC_INITIAL_WINDOW_BYTES
                                 else if UINT32_MAX < ceiling then UINT32_MAX else ucast ceiling),
          retryIntervalMicros = retry, cfgAckDelayMicros = ackDelay\<rparr>)"

definition fresh_cc :: PeerCc where
  "fresh_cc = \<lparr>congestionBudget = CC_INITIAL_WINDOW_BYTES, bytesInFlight = 0, outstandingToPeer = 0,
     slowStartThreshold = UINT32_MAX, slowStartQueueSinceMicros = 0, wMaxBytes = 0,
     congestionEpochMicros = 0, congestionEpoch = 0, starvedCandidateSinceMicros = 0,
     starvedSinceMicros = 0, starvedClearSinceMicros = 0, starvedExitedAtMicros = 0,
     starvedQueueCapMicros = 0, starvedMinRttMicros = 0, starvedEpisodes = 0,
     rtt = Rtt_Reset, delivery = Delivery_Reset\<rparr>"

fun run_congestion :: "CcConfig \<Rightarrow> (CongestionDelta \<times> u64) list \<Rightarrow> PeerCc \<Rightarrow> PeerCc option" where
  "run_congestion cfg [] peer = Some peer"
| "run_congestion cfg ((d, now) # ds) peer =
     (case ApplyCongestion cfg d now peer of None \<Rightarrow> None | Some peer' \<Rightarrow> run_congestion cfg ds peer')"

section \<open>What each section does to the budget\<close>

lemma RampStep_bounds:
  assumes "budget \<le> ceiling"
  shows "budget \<le> RampStep budget acked ceiling" and "RampStep budget acked ceiling \<le> ceiling"
proof -
  have "budget \<le> (if grown < budget then UINT32_MAX else grown)" for grown :: u32
    by (auto simp: not_less u32_le_max)
  then show "budget \<le> RampStep budget acked ceiling" "RampStep budget acked ceiling \<le> ceiling"
    using assms by (auto simp: RampStep_def Let_def not_less)
qed

lemma grow_towards_bounds:
  assumes "congestionBudget peer \<le> maxCongestionBudget cfg"
  shows "congestionBudget peer \<le> congestionBudget (grow_towards cfg want peer)"
    and "congestionBudget (grow_towards cfg want peer) \<le> maxCongestionBudget cfg"
proof -
  have "congestionBudget peer \<le> (if grown < congestionBudget peer then UINT32_MAX else grown)" for grown :: u32
    by (auto simp: not_less u32_le_max)
  then show "congestionBudget peer \<le> congestionBudget (grow_towards cfg want peer)"
    "congestionBudget (grow_towards cfg want peer) \<le> maxCongestionBudget cfg"
    using assms by (auto simp: grow_towards_def Let_def not_less)
qed

lemma budget_frames [simp]:
  "congestionBudget (fold_feedback d now peer) = congestionBudget peer"
  "congestionBudget (forget_old_episode now peer) = congestionBudget peer"
  "congestionBudget (starvation_verdict cfg d now peer) = congestionBudget peer"
  "congestionBudget (start_curve now peer) = congestionBudget peer"
  by (simp_all add: fold_feedback_def forget_old_episode_def starvation_verdict_def start_curve_def Let_def)

lemma epoch_frames [simp]:
  "congestionEpoch (fold_feedback d now peer) = congestionEpoch peer"
  "congestionEpoch (starvation_verdict cfg d now peer) = congestionEpoch peer"
  by (simp_all add: fold_feedback_def forget_old_episode_def starvation_verdict_def Let_def)

lemma inflight_frames [simp]:
  "bytesInFlight (starvation_verdict cfg d now peer) = bytesInFlight peer"
  "outstandingToPeer (starvation_verdict cfg d now peer) = outstandingToPeer peer"
  "bytesInFlight (probe_collapse cfg d now peer) = bytesInFlight peer"
  "outstandingToPeer (probe_collapse cfg d now peer) = outstandingToPeer peer"
  "bytesInFlight (loss_trim cfg n d now peer) = bytesInFlight peer"
  "outstandingToPeer (loss_trim cfg n d now peer) = outstandingToPeer peer"
  "bytesInFlight (starved_climb cfg d peer) = bytesInFlight peer"
  "outstandingToPeer (starved_climb cfg d peer) = outstandingToPeer peer"
  "bytesInFlight (slow_start cfg d now peer) = bytesInFlight peer"
  "outstandingToPeer (slow_start cfg d now peer) = outstandingToPeer peer"
  "bytesInFlight (start_curve now peer) = bytesInFlight peer"
  "outstandingToPeer (start_curve now peer) = outstandingToPeer peer"
  "bytesInFlight (grow_towards cfg want peer) = bytesInFlight peer"
  "outstandingToPeer (grow_towards cfg want peer) = outstandingToPeer peer"
  by (simp_all add: starvation_verdict_def forget_old_episode_def probe_collapse_def loss_trim_def
      starved_climb_def slow_start_def ramp_def start_curve_def grow_towards_def Let_def)

lemma inflight_recovery [simp]:
  "bytesInFlight (starved_recovery cfg d now peer) = bytesInFlight peer"
  "outstandingToPeer (starved_recovery cfg d now peer) = outstandingToPeer peer"
  by (simp_all add: starved_recovery_def Let_def)

lemma inflight_avoidance:
  "congestion_avoidance cfg now peer = Some peer' \<Longrightarrow>
   bytesInFlight peer' = bytesInFlight peer \<and> outstandingToPeer peer' = outstandingToPeer peer"
  by (auto simp: congestion_avoidance_def Let_def split: if_splits bind_splits)

lemma probe_collapse_budget:
  "congestionBudget (probe_collapse cfg d now peer) \<in> {congestionBudget peer, minCongestionBudget cfg}"
  by (auto simp: probe_collapse_def Let_def)

lemma probe_collapse_idle [simp]: "\<not> (sawProbe d \<and> ackedBytes d = 0) \<Longrightarrow> probe_collapse cfg d now peer = peer"
  by (auto simp: probe_collapse_def)

lemma unat_retain:
  fixes b :: u32 and r :: u64
  assumes "unat r \<le> 100"
  shows "unat (ucast (ucast b * r div 100) :: u32) = unat b * unat r div 100"
proof -
  have b: "unat b < 4294967296" by (rule unat_u32_less)
  have m: "unat b * unat r \<le> unat b * 100" using assms by simp
  then have le: "unat b * unat r div 100 \<le> unat b" by (metis div_le_mono div_mult_self_is_m zero_less_numeral)
  have "unat b * unat r < 18446744073709551616" using m b by linarith
  then have m: "unat (ucast b * r) = unat b * unat r"
    by (subst unat_mult_small) (simp_all add: unat_ucast_up)
  show ?thesis using le b by (simp add: unat_ucast unat_div m)
qed

lemma loss_trim_budget:
  "unat (congestionBudget (loss_trim cfg inflight d now peer)) =
     max (unat (minCongestionBudget cfg))
       (unat (congestionBudget peer) * (if loss_congested inflight d peer then 70 else 95) div 100)"
  by (auto simp: loss_trim_def Let_def word_less_nat_alt unat_retain max_def)

lemma starved_climb_bounds:
  assumes "congestionBudget peer \<le> maxCongestionBudget cfg"
  shows "congestionBudget peer \<le> congestionBudget (starved_climb cfg d peer)
       \<and> congestionBudget (starved_climb cfg d peer) \<le> maxCongestionBudget cfg"
  using assms RampStep_bounds by (auto simp: starved_climb_def)

lemma starved_recovery_bounds:
  assumes "congestionBudget peer \<le> maxCongestionBudget cfg"
  shows "congestionBudget peer \<le> congestionBudget (starved_recovery cfg d now peer)
       \<and> congestionBudget (starved_recovery cfg d now peer) \<le> maxCongestionBudget cfg"
  using assms starved_climb_bounds [of "peer\<lparr>starvedClearSinceMicros := now\<rparr>" cfg d]
    starved_climb_bounds [of "peer\<lparr>starvedClearSinceMicros := 0\<rparr>" cfg d] starved_climb_bounds [of peer cfg d]
  by (auto simp: starved_recovery_def Let_def)

lemma slow_start_bounds:
  assumes "congestionBudget peer \<le> maxCongestionBudget cfg"
  shows "congestionBudget peer \<le> congestionBudget (slow_start cfg d now peer)
       \<and> congestionBudget (slow_start cfg d now peer) \<le> maxCongestionBudget cfg"
  using assms RampStep_bounds by (auto simp: slow_start_def ramp_def Let_def)

lemma congestion_avoidance_bounds:
  assumes "congestionBudget peer \<le> maxCongestionBudget cfg" and "congestion_avoidance cfg now peer = Some peer'"
  shows "congestionBudget peer \<le> congestionBudget peer' \<and> congestionBudget peer' \<le> maxCongestionBudget cfg"
  using assms grow_towards_bounds [of "start_curve now peer" cfg]
  by (auto simp: congestion_avoidance_def Let_def split: if_splits bind_splits)

text \<open>The peer after the three sections that always run.\<close>

abbreviation settled :: "CcConfig \<Rightarrow> CongestionDelta \<Rightarrow> u64 \<Rightarrow> PeerCc \<Rightarrow> PeerCc" where
  "settled cfg d now peer \<equiv> probe_collapse cfg d now (starvation_verdict cfg d now (fold_feedback d now peer))"

lemma ApplyCongestion_growth:
  assumes "ApplyCongestion cfg d now peer = Some peer'" and "\<not> is_new_loss d (settled cfg d now peer)"
    and "congestionBudget (settled cfg d now peer) \<le> maxCongestionBudget cfg"
  shows "congestionBudget (settled cfg d now peer) \<le> congestionBudget peer' \<and> congestionBudget peer' \<le> maxCongestionBudget cfg"
  using assms starved_recovery_bounds [OF assms(3)] slow_start_bounds [OF assms(3)] congestion_avoidance_bounds [OF assms(3)]
  by (auto simp: ApplyCongestion_def Let_def split: if_splits)

lemma ApplyCongestion_in_range:
  assumes "AssertBudgetInRange cfg peer" and "minCongestionBudget cfg \<le> maxCongestionBudget cfg"
    and "ApplyCongestion cfg d now peer = Some peer'"
  shows "AssertBudgetInRange cfg peer'"
proof -
  let ?s = "settled cfg d now peer"
  have s: "minCongestionBudget cfg \<le> congestionBudget ?s" "congestionBudget ?s \<le> maxCongestionBudget cfg"
    using assms(1,2) probe_collapse_budget [of cfg d now "starvation_verdict cfg d now (fold_feedback d now peer)"]
    by (auto simp: AssertBudgetInRange_def)
  show ?thesis
  proof (cases "is_new_loss d ?s")
    case True
    then have p: "peer' = loss_trim cfg (bytesInFlight peer) d now ?s"
      using assms(3) by (simp add: ApplyCongestion_def Let_def)
    have "unat (congestionBudget ?s) * (if c then 70 else 95) div 100 \<le> unat (congestionBudget ?s)" for c
      by auto
    then show ?thesis
      unfolding p AssertBudgetInRange_def word_le_nat_alt loss_trim_budget
      using s by (auto simp: word_le_nat_alt intro: order_trans)
  next
    case False
    then show ?thesis
      using ApplyCongestion_growth [OF assms(3) _ s(2)] s by (auto simp: AssertBudgetInRange_def)
  qed
qed

lemma run_congestion_in_range:
  assumes "AssertBudgetInRange cfg peer" and "minCongestionBudget cfg \<le> maxCongestionBudget cfg"
    and "run_congestion cfg ds peer = Some peer'"
  shows "AssertBudgetInRange cfg peer'"
  using assms(1,3)
proof (induction ds arbitrary: peer)
  case (Cons x ds)
  obtain d now where x: "x = (d, now)" by (cases x)
  obtain p1 where p1: "ApplyCongestion cfg d now peer = Some p1" "run_congestion cfg ds p1 = Some peer'"
    using Cons.prems(2) x by (auto split: option.splits)
  have "AssertBudgetInRange cfg p1" by (rule ApplyCongestion_in_range [OF Cons.prems(1) assms(2) p1(1)])
  then show ?case using p1(2) by (rule Cons.IH)
qed simp

lemma InitBudgets_ceiling:
  "unat (maxCongestionBudget (InitBudgets m n retry ack)) =
     (if n = 0 then 12000 else min 4294967295 (unat n * 1024 * 1200))"
proof -
  have n: "unat n < 4294967296" by (rule unat_u32_less)
  have 1: "unat (ucast n * 1024 :: u64) = unat n * 1024"
    by (subst unat_mult_small) (use n in \<open>simp_all add: unat_ucast_up\<close>)
  have 2: "unat (ucast n * 1024 * 1200 :: u64) = unat n * 1024 * 1200"
    by (subst unat_mult_small) (use 1 n in simp_all)
  have 0: "ucast n * 1024 * 1200 = (0 :: u64) \<longleftrightarrow> n = 0"
    using 2 by (auto simp: unat_eq_zero [symmetric])
  show ?thesis
    using 0 2 by (auto simp: InitBudgets_def Let_def word_less_nat_alt min_def unat_ucast)
qed

lemma fresh_cc_in_range:
  "AssertBudgetInRange (InitBudgets m n retry ack) fresh_cc \<longleftrightarrow> m \<le> 12000"
proof -
  have "12000 \<le> unat (maxCongestionBudget (InitBudgets m n retry ack))"
  proof (cases "n = 0")
    case False
    then have "1 \<le> unat n" by (simp add: unat_gt_0 Suc_leI)
    then show ?thesis using False by (simp add: InitBudgets_ceiling)
  qed (simp add: InitBudgets_ceiling)
  then have "12000 \<le> maxCongestionBudget (InitBudgets m n retry ack)" by (simp add: word_le_nat_alt)
  moreover have "minCongestionBudget (InitBudgets m n retry ack) \<le> 12000 \<longleftrightarrow> m \<le> 12000"
    by (auto simp: InitBudgets_def Let_def word_le_nat_alt word_less_nat_alt)
  ultimately show ?thesis
    by (simp add: AssertBudgetInRange_def fresh_cc_def)
qed

section \<open>Properties\<close>

text \<open>
  C15: The congestion budget never leaves the configured range. With a configured floor of at most
  the opening window of 12000 bytes, a fresh peer starts inside the range, and every sequence of
  feedback (acknowledgements, losses, probes, in any combination and with any byte counts) keeps it
  there, so the assertion that the source repeats after every change always holds; the additions
  that wrap are caught by the saturation. With a larger configured floor the fresh peer already
  violates it.
\<close>

theorem budget_stays_in_range:
  shows "(m \<le> 12000 \<longrightarrow> run_congestion (InitBudgets m n retry ack) ds fresh_cc = Some peer \<longrightarrow>
           AssertBudgetInRange (InitBudgets m n retry ack) peer)
       \<and> (12000 < m \<longrightarrow> \<not> AssertBudgetInRange (InitBudgets m n retry ack) fresh_cc)"
proof (intro conjI impI)
  let ?cfg = "InitBudgets m n retry ack"
  assume "m \<le> 12000" and run: "run_congestion ?cfg ds fresh_cc = Some peer"
  then have r: "AssertBudgetInRange ?cfg fresh_cc" by (simp add: fresh_cc_in_range)
  then have "minCongestionBudget ?cfg \<le> maxCongestionBudget ?cfg"
    unfolding AssertBudgetInRange_def by (rule conjE) (rule order_trans)
  then show "AssertBudgetInRange ?cfg peer" by (rule run_congestion_in_range [OF r _ run])
qed (simp add: fresh_cc_in_range)

text \<open>
  C16: A congestion event costs one reduction. A loss of a packet sent in the current epoch or later
  trims the budget to seventy percent, or to ninety-five when neither witness blames a queue, never
  below the floor, and opens the next epoch; losses whose packets were sent in an earlier epoch (up to
  127 behind) belong to an event already answered and never lower the budget, however many arrive.
\<close>

theorem one_trim_per_event:
  assumes "AssertBudgetInRange cfg peer" and "\<not> (sawProbe d \<and> ackedBytes d = 0)"
    and "ApplyCongestion cfg d now peer = Some peer'"
  shows "(sawLoss d \<and> 0 \<le> sint (lostEpoch d - congestionEpoch peer) \<longrightarrow>
            congestionEpoch peer' = congestionEpoch peer + 1
          \<and> unat (congestionBudget peer') \<in>
              {max (unat (minCongestionBudget cfg)) (unat (congestionBudget peer) * 70 div 100),
               max (unat (minCongestionBudget cfg)) (unat (congestionBudget peer) * 95 div 100)})
       \<and> (\<not> (sawLoss d \<and> 0 \<le> sint (lostEpoch d - congestionEpoch peer)) \<longrightarrow>
            congestionBudget peer \<le> congestionBudget peer')"
proof -
  let ?s = "settled cfg d now peer"
  have new: "is_new_loss d ?s \<longleftrightarrow> sawLoss d \<and> 0 \<le> sint (lostEpoch d - congestionEpoch peer)"
    using assms(2) by (simp add: is_new_loss_def)
  have b: "congestionBudget ?s = congestionBudget peer" using assms(2) by simp
  show ?thesis
  proof (cases "is_new_loss d ?s")
    case True
    then have p: "peer' = loss_trim cfg (bytesInFlight peer) d now ?s"
      using assms(3) by (simp add: ApplyCongestion_def Let_def)
    have "congestionEpoch peer' = congestionEpoch peer + 1"
      using assms(2) by (simp add: p loss_trim_def Let_def)
    then show ?thesis using new True loss_trim_budget [of cfg "bytesInFlight peer" d now ?s] p b by auto
  next
    case False
    then show ?thesis
      using ApplyCongestion_growth [OF assms(3)] assms(1) new b by (auto simp: AssertBudgetInRange_def)
  qed
qed

lemma run_one_loss:
  "\<exists>peer. run_congestion (InitBudgets 0 4 100000 5000)
     [(\<lparr>resolvedBytes = 1200, resolvedPackets = 1, ackedBytes = 0, rttSampleMicros = 0, ackDelayMicros = 0,
        sawLoss = True, lostDeclaredBytes = 1200, lostEpoch = 0, sawProbe = False\<rparr>, 77)] fresh_cc = Some peer"
  by (simp add: ApplyCongestion_def Let_def is_new_loss_def fresh_cc_def)

theorem budget_stays_in_range_witness:
  "\<exists>peer. run_congestion (InitBudgets 0 4 100000 5000)
     [(\<lparr>resolvedBytes = 1200, resolvedPackets = 1, ackedBytes = 0, rttSampleMicros = 0, ackDelayMicros = 0,
        sawLoss = True, lostDeclaredBytes = 1200, lostEpoch = 0, sawProbe = False\<rparr>, 77)] fresh_cc = Some peer
     \<and> AssertBudgetInRange (InitBudgets 0 4 100000 5000) peer"
  using run_one_loss budget_stays_in_range [of 0 4 100000 5000
      "[(\<lparr>resolvedBytes = 1200, resolvedPackets = 1, ackedBytes = 0, rttSampleMicros = 0, ackDelayMicros = 0,
        sawLoss = True, lostDeclaredBytes = 1200, lostEpoch = 0, sawProbe = False\<rparr>, 77)]"] by fastforce

theorem one_trim_per_event_witness:
  "\<exists>peer'. ApplyCongestion (InitBudgets 0 4 100000 5000)
      \<lparr>resolvedBytes = 0, resolvedPackets = 0, ackedBytes = 0, rttSampleMicros = 0, ackDelayMicros = 0,
        sawLoss = True, lostDeclaredBytes = 1200, lostEpoch = 0, sawProbe = False\<rparr> 77 (fresh_cc\<lparr>congestionEpoch := 1\<rparr>) = Some peer'
     \<and> 12000 \<le> congestionBudget peer'"
proof -
  let ?cfg = "InitBudgets 0 4 100000 5000" and ?p = "fresh_cc\<lparr>congestionEpoch := 1\<rparr>"
  let ?d = "\<lparr>resolvedBytes = 0, resolvedPackets = 0, ackedBytes = 0, rttSampleMicros = 0, ackDelayMicros = 0,
        sawLoss = True, lostDeclaredBytes = 1200, lostEpoch = 0, sawProbe = False\<rparr>"
  have "AssertBudgetInRange ?cfg ?p"
    using fresh_cc_in_range [of 0 4 100000 5000] by (simp add: AssertBudgetInRange_def)
  moreover obtain p' where "ApplyCongestion ?cfg ?d 77 ?p = Some p'"
    by (auto simp: ApplyCongestion_def Let_def is_new_loss_def)
  moreover have "congestionBudget ?p = 12000" by (simp add: fresh_cc_def)
  ultimately show ?thesis
    using one_trim_per_event [of ?cfg ?p ?d 77 p'] by auto
qed

text \<open>
  C17: In-flight accounting never wraps: whatever a flow reports as resolved, the bytes and packets
  charged to the peer go down by exactly that, or to zero, on every path through the controller.
\<close>

theorem inflight_never_wraps:
  assumes "ApplyCongestion cfg d now peer = Some peer'"
  shows "unat (bytesInFlight peer') = unat (bytesInFlight peer) - unat (resolvedBytes d)
    \<and> unat (outstandingToPeer peer') = unat (outstandingToPeer peer) - unat (resolvedPackets d)"
proof -
  have f: "bytesInFlight peer' = bytesInFlight (fold_feedback d now peer)
      \<and> outstandingToPeer peer' = outstandingToPeer (fold_feedback d now peer)"
    using assms inflight_avoidance by (fastforce simp: ApplyCongestion_def Let_def split: if_splits)
  have "unat (x - (if y \<le> x then y else x)) = unat x - unat y" for x y :: u32
    by (auto simp: unat_sub word_le_nat_alt)
  then show ?thesis unfolding f [THEN conjunct1] f [THEN conjunct2] by (simp add: fold_feedback_def Let_def)
qed

theorem inflight_never_wraps_witness:
  "\<exists>peer'. ApplyCongestion (InitBudgets 0 4 100000 5000)
      \<lparr>resolvedBytes = 5000, resolvedPackets = 9, ackedBytes = 0, rttSampleMicros = 0, ackDelayMicros = 0,
        sawLoss = False, lostDeclaredBytes = 0, lostEpoch = 0, sawProbe = False\<rparr> 77 (fresh_cc\<lparr>bytesInFlight := 6000, outstandingToPeer := 4\<rparr>) = Some peer'
     \<and> unat (bytesInFlight peer') = 1000 \<and> unat (outstandingToPeer peer') = 0"
proof -
  let ?cfg = "InitBudgets 0 4 100000 5000" and ?p = "fresh_cc\<lparr>bytesInFlight := 6000, outstandingToPeer := 4\<rparr>"
  let ?d = "\<lparr>resolvedBytes = 5000, resolvedPackets = 9, ackedBytes = 0, rttSampleMicros = 0, ackDelayMicros = 0,
        sawLoss = False, lostDeclaredBytes = 0, lostEpoch = 0, sawProbe = False\<rparr>"
  obtain p' where "ApplyCongestion ?cfg ?d 77 ?p = Some p'"
    by (auto simp: ApplyCongestion_def Let_def is_new_loss_def)
  then show ?thesis using inflight_never_wraps [of ?cfg ?d 77 ?p p'] by auto
qed

text \<open>
  C27: A peer that stays loss-free leaves the defined range of the growth curve. An acknowledgement
  that finds the peer out of slow start, not starved, with no standing queue, and its last reduction
  407 seconds or more in the past makes the controller evaluate a signed product that does not fit
  64 bits.
\<close>

theorem quiet_peer_reaches_overflow:
  assumes "ackedBytes d \<noteq> 0" and "\<not> sawLoss d"
    and "starvedSinceMicros (settled cfg d now peer) = 0"
    and "slowStartThreshold peer \<le> congestionBudget peer" and "\<not> queue_standing (settled cfg d now peer)"
    and "congestionEpochMicros peer \<noteq> 0" and "wMaxBytes peer \<noteq> 0"
    and "unat (congestionEpochMicros peer) + 407000000 \<le> unat now"
  shows "ApplyCongestion cfg d now peer = None"
proof -
  let ?s = "settled cfg d now peer"
  have f: "congestionEpochMicros ?s = congestionEpochMicros peer" "wMaxBytes ?s = wMaxBytes peer"
    "slowStartThreshold ?s = slowStartThreshold peer" "congestionBudget ?s = congestionBudget peer"
    using assms(1) by (simp_all add: fold_feedback_def starvation_verdict_def forget_old_episode_def Let_def)
  have "congestionEpochMicros peer < now" using assms(8) by (simp add: word_less_nat_alt)
  then have "407000000 \<le> unat (since now (congestionEpochMicros peer))"
    using assms(8) by (simp add: since_def unat_sub less_imp_le)
  then have "CubicWindow (wMaxBytes peer) (since now (congestionEpochMicros peer)) = None"
    using assms(7) cubic_overflow by blast
  then have "congestion_avoidance cfg now ?s = None"
    using assms(5,6) f by (simp add: congestion_avoidance_def start_curve_def Let_def)
  then show ?thesis
    using assms f by (simp add: ApplyCongestion_def Let_def is_new_loss_def not_less)
qed

theorem quiet_peer_reaches_overflow_witness:
  "ApplyCongestion (InitBudgets 0 4 100000 5000)
     \<lparr>resolvedBytes = 1200, resolvedPackets = 1, ackedBytes = 1200, rttSampleMicros = 0, ackDelayMicros = 0,
      sawLoss = False, lostDeclaredBytes = 0, lostEpoch = 0, sawProbe = False\<rparr> 500000000
     (fresh_cc\<lparr>slowStartThreshold := 12000, congestionEpochMicros := 1, wMaxBytes := 12000\<rparr>) = None"
  by (rule quiet_peer_reaches_overflow)
     (simp_all add: fresh_cc_def fold_feedback_def starvation_verdict_def forget_old_episode_def Let_def
        MarkAcked_def queue_standing_def signal_live_def MinRttMicros_def Rtt_Reset_def keep_lowest_def numeral_3_eq_3)

end
