(* ===== verification/Batch.thy ===== *)
theory Batch
  imports Bytes_Cursor Flux_Constants
begin

text \<open>
  Packing several messages into one packet's content, \<^verbatim>\<open>wire/batch.cpp\<close>. The cursor's pointer
  into the packet is the buffer it points at (\<open>None\<close> for a null pointer). The abstract view is the
  list of messages a batch holds and the byte layout of that list: a single message is bare, two
  or more carry a two-byte length each.
\<close>

unbundle bit_operations_syntax

section \<open>Definitions\<close>

record BatchCursor =
  content :: "bytes option"
  used :: u16
  count :: u16
  firstLen :: u16
  capacity :: u16

definition PutLen :: "bytes \<Rightarrow> nat \<Rightarrow> u16 \<Rightarrow> bytes" where
  "PutLen mem at v = mem[at := ucast v, at + 1 := ucast (drop_bit 8 v)]"

definition TakeLen :: "bytes \<Rightarrow> nat \<Rightarrow> u16" where
  "TakeLen mem at = ucast (mem ! at) OR push_bit 8 (ucast (mem ! (at + 1)))"

definition BatchCostOf :: "BatchCursor \<Rightarrow> u16 \<Rightarrow> u32" where
  "BatchCostOf cursor len =
     (if len = 0 then 0
      else if count cursor = 0 then ucast len
      else if count cursor = 1 then WIRE_BATCH_LEN_SIZE + WIRE_BATCH_LEN_SIZE + ucast len
      else WIRE_BATCH_LEN_SIZE + ucast len)"

definition BatchFits :: "BatchCursor \<Rightarrow> u16 \<Rightarrow> bool" where
  "BatchFits cursor len =
     (let cost = BatchCostOf cursor len
      in if cost = 0 then False else ucast (used cursor) + cost \<le> ucast (capacity cursor))"

definition BatchAppend :: "BatchCursor \<Rightarrow> bytes option \<Rightarrow> u16 \<Rightarrow> bool \<times> BatchCursor" where
  "BatchAppend cursor message len =
     (case (message, content cursor) of
        (Some msg, Some mem) \<Rightarrow>
          if \<not> BatchFits cursor len then (False, cursor)
          else if count cursor = 0
          then (True, cursor\<lparr>content := Some (mem_write mem 0 (take (unat len) msg)),
                             used := len, firstLen := len, count := 1\<rparr>)
          else
            let (mem, u) =
                  (if count cursor = 1
                   then (PutLen (mem_write mem 2 (take (unat (firstLen cursor)) mem)) 0 (firstLen cursor),
                         used cursor + WIRE_BATCH_LEN_SIZE)
                   else (mem, used cursor));
                mem = PutLen mem (unat u) len;
                mem = mem_write mem (unat u + 2) (take (unat len) msg)
            in (True, cursor\<lparr>content := Some mem, used := u + WIRE_BATCH_LEN_SIZE + len,
                             count := count cursor + 1\<rparr>)
      | _ \<Rightarrow> (False, cursor))"

function validate_from :: "bytes \<Rightarrow> nat \<Rightarrow> nat \<Rightarrow> bool" where
  "validate_from mem len offset =
     (if offset + WIRE_BATCH_LEN_SIZE \<le> len
      then
        let entry = unat (TakeLen mem offset)
        in if entry = 0 then False
           else
             let offset = offset + WIRE_BATCH_LEN_SIZE + entry
             in if len < offset then False else validate_from mem len offset
      else offset = len)"
  by pat_completeness auto
termination
  by (relation "measure (\<lambda>(mem, len, offset). len - offset)") auto

declare validate_from.simps [simp del]

definition BatchValidate :: "bytes option \<Rightarrow> u16 \<Rightarrow> bool" where
  "BatchValidate c len = (case c of None \<Rightarrow> False | Some mem \<Rightarrow> validate_from mem (unat len) 0)"

definition BatchNext :: "bytes option \<Rightarrow> u16 \<Rightarrow> u16 \<Rightarrow> (bytes \<times> u16) option" where
  "BatchNext c len offset =
     (case c of None \<Rightarrow> None
      | Some mem \<Rightarrow>
        if len \<le> offset then None
        else if unat len < unat offset + WIRE_BATCH_LEN_SIZE then None
        else
          let entry = TakeLen mem (unat offset)
          in if unat len < unat offset + WIRE_BATCH_LEN_SIZE + unat entry then None
             else Some (take (unat entry) (drop (unat offset + WIRE_BATCH_LEN_SIZE) mem),
                        offset + WIRE_BATCH_LEN_SIZE + entry))"

text \<open>The receiver's walk over a batch: \<open>BatchNext\<close> until it reports the end.\<close>

function walk_batch :: "bytes option \<Rightarrow> u16 \<Rightarrow> u16 \<Rightarrow> bytes list" where
  "walk_batch c len offset =
     (case BatchNext c len offset of None \<Rightarrow> []
      | Some (m, offset') \<Rightarrow> if unat offset < unat offset' then m # walk_batch c len offset' else [m])"
  by pat_completeness auto
termination
proof (relation "measure (\<lambda>(c, len, offset). 65536 - unat offset)", simp)
  fix c and len offset :: u16 and x m offset'
  assume "BatchNext c len offset = Some x" "(m, offset') = x" "unat offset < unat offset'"
  then show "((c, len, offset'), c, len, offset) \<in> measure (\<lambda>(c, len, offset). 65536 - unat offset)"
    using unat_u16_less [of offset'] by simp
qed

declare walk_batch.simps [simp del]

section \<open>The layout of a list of messages\<close>

definition entry :: "bytes \<Rightarrow> bytes" where
  "entry m = le16 (of_nat (length m)) @ m"

definition chain :: "bytes list \<Rightarrow> bytes" where
  "chain msgs = concat (map entry msgs)"

fun layout :: "bytes list \<Rightarrow> bytes" where
  "layout [] = []"
| "layout [m] = m"
| "layout msgs = chain msgs"

definition framable :: "bytes \<Rightarrow> bool" where
  "framable m \<longleftrightarrow> m \<noteq> [] \<and> length m < 65536"

lemma length_entry [simp]: "length (entry m) = length m + 2"
  by (simp add: entry_def)

lemma chain_simps [simp]: "chain [] = []" "chain (m # ms) = entry m @ chain ms"
  "chain (ms @ ms') = chain ms @ chain ms'"
  by (simp_all add: chain_def)

lemma layout_chain: "2 \<le> length msgs \<Longrightarrow> layout msgs = chain msgs"
  by (cases msgs rule: layout.cases) auto

lemma PutLen_write: "at + 2 \<le> length mem \<Longrightarrow> PutLen mem at v = mem_write mem at (le16 v)"
  using mem_write_snoc [of at "[]" mem "ucast v"] mem_write_snoc [of at "[ucast v]" mem "ucast (drop_bit 8 v)"]
  by (simp add: PutLen_def le16_def)

lemma TakeLen_image:
  assumes "take 2 (drop at mem) = le16 v" and "at + 2 \<le> length mem"
  shows "TakeLen mem at = v"
  using slice_nth [OF assms(1), of 0] slice_nth [OF assms(1), of 1] assms(2) le16_decode [of v]
  by (simp add: TakeLen_def le16_def)

lemma le16_surj: "length bs = 2 \<Longrightarrow> bs = le16 (ucast (bs ! 0) OR push_bit 8 (ucast (bs ! 1)))"
proof -
  assume "length bs = 2"
  then obtain a b where bs: "bs = [a, b]" by (auto simp: length_Suc_conv numeral_2_eq_2)
  have "ucast (ucast a OR push_bit 8 (ucast b) :: u16) = a"
    by (rule bit_word_eqI) (auto simp: bit_simps)
  moreover have "ucast (drop_bit 8 (ucast a OR push_bit 8 (ucast b) :: u16)) = b"
    by (rule bit_word_eqI) (auto simp: bit_simps dest: bit_imp_le_length)
  ultimately show ?thesis by (simp add: bs le16_def)
qed

lemma TakeLen_bytes:
  assumes "at + 2 \<le> length mem"
  shows "take 2 (drop at mem) = le16 (TakeLen mem at)"
  using le16_surj [of "take 2 (drop at mem)"] assms by (simp add: TakeLen_def)

section \<open>Walking a chain\<close>

lemma entry_slice:
  assumes "e = unat (TakeLen mem off)" and "off + 2 + e \<le> length mem"
  shows "entry (take e (drop (off + 2) mem)) = take (2 + e) (drop off mem)"
proof -
  have l: "length (take e (drop (off + 2) mem)) = e" using assms(2) by simp
  have "le16 (of_nat e) = take 2 (drop off mem)"
    using TakeLen_bytes [of off mem] assms by simp
  then have "entry (take e (drop (off + 2) mem)) = take 2 (drop off mem) @ take e (drop (off + 2) mem)"
    unfolding entry_def l by simp
  also have "\<dots> = take (2 + e) (drop off mem)"
    by (simp only: take_add drop_drop add.commute [of 2 off])
  finally show ?thesis .
qed

lemma BatchNext_Some:
  assumes "BatchNext (Some mem) len offset = Some (m, offset')" and "unat len \<le> length mem"
  shows "unat offset' = unat offset + 2 + length m \<and> unat offset' \<le> unat len
     \<and> take (unat len) mem = take (unat offset) mem @ entry m @ drop (unat offset') (take (unat len) mem)"
proof -
  define e where "e = TakeLen mem (unat offset)"
  have m: "m = take (unat e) (drop (unat offset + 2) mem)" "offset' = offset + 2 + e"
    and le: "unat offset + 2 + unat e \<le> unat len"
    using assms(1) by (auto simp: BatchNext_def Let_def e_def split: if_splits)
  have len: "unat len < 65536" by (rule unat_u16_less)
  have "unat (offset + 2) = unat offset + 2" by (subst unat_add_small) (use le len in simp_all)
  then have o': "unat offset' = unat offset + 2 + unat e"
    unfolding m(2) by (subst unat_add_small) (use le len in simp_all)
  have lm: "length m = unat e" using m(1) le assms(2) by simp
  have "entry m = take (2 + unat e) (drop (unat offset) mem)"
    unfolding m(1) by (rule entry_slice) (use le assms(2) in \<open>simp_all add: e_def\<close>)
  then have "take (unat offset) mem @ entry m = take (unat offset') mem"
    unfolding o' by (simp only: add.assoc take_add [symmetric])
  then have "take (unat len) mem = take (unat offset) mem @ entry m @ drop (unat offset') (take (unat len) mem)"
    using le o' by (metis append.assoc append_take_drop_id min.absorb1 take_take)
  then show ?thesis using o' lm le by simp
qed

lemma drop_after_entry:
  assumes "unat len \<le> length mem" and "drop off (take (unat (len :: u16)) mem) = entry m @ rest" and "framable m"
  shows "off + 2 + length m \<le> unat len" and "TakeLen mem off = of_nat (length m)"
    and "take (length m) (drop (off + 2) mem) = m" and "drop (off + 2 + length m) (take (unat len) mem) = rest"
proof -
  have len: "length (drop off (take (unat len) mem)) = length m + 2 + length rest" by (simp add: assms(2))
  then show le: "off + 2 + length m \<le> unat len" using assms(1) by simp
  have t: "take k (drop off mem) = take k (entry m @ rest)" if "k \<le> unat len - off" for k
    using assms(2) that by (metis drop_take min.absorb1 take_take)
  have "take 2 (drop off mem) = le16 (of_nat (length m))"
    using t [of 2] le by (simp add: entry_def)
  then show "TakeLen mem off = of_nat (length m)" by (rule TakeLen_image) (use le assms(1) in simp)
  have "take (2 + length m) (drop off mem) = entry m" using t [of "2 + length m"] le by simp
  then have "drop 2 (take (2 + length m) (drop off mem)) = m" by (simp add: entry_def)
  then show "take (length m) (drop (off + 2) mem) = m" by (simp add: drop_take add.commute)
  show "drop (off + 2 + length m) (take (unat len) mem) = rest"
    using arg_cong [OF assms(2), of "drop (length m + 2)"] by (simp add: add.commute add.left_commute)
qed

lemma validate_from_chain:
  assumes "unat (len :: u16) \<le> length mem" and "off \<le> unat len"
  shows "validate_from mem (unat len) off \<longleftrightarrow>
    (\<exists>msgs. (\<forall>m\<in>set msgs. framable m) \<and> drop off (take (unat len) mem) = chain msgs)"
  using assms(2)
proof (induction "unat len - off" arbitrary: off rule: less_induct)
  case less
  define e where "e = unat (TakeLen mem off)"
  have e: "e < 65536" unfolding e_def by (rule unat_u16_less)
  show ?case
  proof (cases "off + 2 \<le> unat len \<and> e \<noteq> 0 \<and> off + 2 + e \<le> unat len")
    case True
    let ?m = "take e (drop (off + 2) mem)"
    have fr: "framable ?m" using True e assms(1) by (auto simp: framable_def)
    have "entry ?m = take (2 + e) (drop off mem)"
      by (rule entry_slice) (use True assms(1) in \<open>simp_all add: e_def\<close>)
    moreover have "drop off (take (unat len) mem) = take (2 + e) (drop off mem) @ drop (off + 2 + e) (take (unat len) mem)"
    proof -
      have "drop off (take (unat len) mem) = take (2 + e) (drop off (take (unat len) mem)) @ drop (2 + e) (drop off (take (unat len) mem))"
        by (rule append_take_drop_id [symmetric])
      moreover have "take (2 + e) (drop off (take (unat len) mem)) = take (2 + e) (drop off mem)"
      proof -
        have "2 + e \<le> unat len - off" using True by linarith
        then show ?thesis by (simp add: drop_take min.absorb1)
      qed
      moreover have "drop (2 + e) (drop off (take (unat len) mem)) = drop (off + 2 + e) (take (unat len) mem)"
        by (simp add: add.commute add.left_commute)
      ultimately show ?thesis by (simp only:)
    qed
    ultimately have ent: "drop off (take (unat len) mem) = entry ?m @ drop (off + 2 + e) (take (unat len) mem)"
      by simp
    have "e \<le> length mem - (off + 2)" using True assms(1) by linarith
    then have lm: "length ?m = e" by (simp add: min.absorb2)
    have IH: "validate_from mem (unat len) (off + 2 + e) \<longleftrightarrow>
        (\<exists>msgs. (\<forall>m\<in>set msgs. framable m) \<and> drop (off + 2 + e) (take (unat len) mem) = chain msgs)"
      by (rule less.hyps) (use True in auto)
    have "validate_from mem (unat len) off \<longleftrightarrow> validate_from mem (unat len) (off + 2 + e)"
      using True by (subst validate_from.simps) (simp add: e_def Let_def)
    also have "\<dots> \<longleftrightarrow> (\<exists>msgs. (\<forall>m\<in>set msgs. framable m) \<and> drop off (take (unat len) mem) = chain msgs)"
      unfolding IH
    proof
      assume "\<exists>msgs. (\<forall>m\<in>set msgs. framable m) \<and> drop (off + 2 + e) (take (unat len) mem) = chain msgs"
      then obtain msgs where "\<forall>m\<in>set msgs. framable m" "drop (off + 2 + e) (take (unat len) mem) = chain msgs" by auto
      then show "\<exists>msgs. (\<forall>m\<in>set msgs. framable m) \<and> drop off (take (unat len) mem) = chain msgs"
        using fr ent by (intro exI [of _ "?m # msgs"]) simp
    next
      assume "\<exists>msgs. (\<forall>m\<in>set msgs. framable m) \<and> drop off (take (unat len) mem) = chain msgs"
      then obtain msgs where ms: "\<forall>m\<in>set msgs. framable m" "drop off (take (unat len) mem) = chain msgs" by auto
      have "length (drop off (take (unat len) mem)) \<noteq> 0" using True assms(1) by simp
      then obtain m ms' where c: "msgs = m # ms'" using ms(2) by (cases msgs) auto
      note d = drop_after_entry [OF assms(1), of off m "chain ms'"]
      have fm: "framable m" using ms c by simp
      then have "e = length m" using d(2) ms(2) c by (simp add: e_def unat_of_nat framable_def)
      then show "\<exists>msgs. (\<forall>m\<in>set msgs. framable m) \<and> drop (off + 2 + e) (take (unat len) mem) = chain msgs"
        using d(4) ms c fm by (intro exI [of _ ms']) simp
    qed
    finally show ?thesis .
  next
    case False
    have "validate_from mem (unat len) off \<longleftrightarrow> off = unat len"
      using False by (subst validate_from.simps) (auto simp: e_def Let_def)
    moreover have "off = unat len" if "\<forall>m\<in>set msgs. framable m" "drop off (take (unat len) mem) = chain msgs" for msgs
    proof (cases msgs)
      case Nil
      then show ?thesis using that(2) less.prems assms(1) by simp
    next
      case (Cons m ms')
      note d = drop_after_entry [OF assms(1), of off m "chain ms'"]
      have fm: "framable m" using that Cons by simp
      then have "e = length m" using d(2) that Cons by (simp add: e_def unat_of_nat framable_def)
      then show ?thesis using d(1) that Cons fm False by (auto simp: framable_def)
    qed
    ultimately show ?thesis using assms(1) by (auto intro: exI [of _ "[]"])
  qed
qed

lemma walk_batch_chain:
  assumes "unat len \<le> length mem" and "\<forall>m\<in>set msgs. framable m"
    and "drop (unat off) (take (unat len) mem) = chain msgs" and "off \<le> len"
  shows "walk_batch (Some mem) len off = msgs"
  using assms(2-4)
proof (induction msgs arbitrary: off)
  case Nil
  then have "length (drop (unat off) (take (unat len) mem)) = 0" by simp
  then have "unat len \<le> unat off" using assms(1) by simp
  then have "BatchNext (Some mem) len off = None" by (simp add: BatchNext_def word_le_nat_alt)
  then show ?case by (simp add: walk_batch.simps [of _ _ off])
next
  case (Cons m msgs)
  have fm: "framable m" using Cons.prems(1) by simp
  note d = drop_after_entry [OF assms(1), of "unat off" m "chain msgs"]
  have le: "unat off + 2 + length m \<le> unat len" and t: "TakeLen mem (unat off) = of_nat (length m)"
    and mm: "take (length m) (drop (unat off + 2) mem) = m"
    and r: "drop (unat off + 2 + length m) (take (unat len) mem) = chain msgs"
    using d Cons.prems fm by auto
  have len: "unat len < 65536" by (rule unat_u16_less)
  have lm: "unat (of_nat (length m) :: u16) = length m" using fm by (simp add: framable_def unat_of_nat)
  define off' where "off' = off + 2 + of_nat (length m)"
  have "unat (off + 2) = unat off + 2" by (subst unat_add_small) (use le len in simp_all)
  then have o': "unat off' = unat off + 2 + length m"
    unfolding off'_def by (subst unat_add_small) (use le len lm in simp_all)
  have n: "BatchNext (Some mem) len off = Some (m, off')"
    using le t mm lm by (simp add: BatchNext_def Let_def word_le_nat_alt off'_def not_le)
  have "walk_batch (Some mem) len off' = msgs"
    by (rule Cons.IH) (use Cons.prems o' r le in \<open>simp_all add: word_le_nat_alt\<close>)
  then show ?case using n o' by (simp add: walk_batch.simps [of _ _ off])
qed

section \<open>Appending\<close>

definition batch_rep :: "BatchCursor \<Rightarrow> bytes list \<Rightarrow> bool" where
  "batch_rep cur msgs \<longleftrightarrow> (\<exists>mem. content cur = Some mem \<and> unat (capacity cur) \<le> length mem
     \<and> take (unat (used cur)) mem = layout msgs)
     \<and> unat (used cur) = length (layout msgs) \<and> used cur \<le> capacity cur
     \<and> unat (count cur) = length msgs \<and> (\<forall>m\<in>set msgs. framable m)
     \<and> (msgs \<noteq> [] \<longrightarrow> unat (firstLen cur) = length (hd msgs))"

lemma BatchFits_layout:
  assumes rep: "batch_rep cur msgs" and "framable m" and "len = of_nat (length m)"
  shows "BatchFits cur len \<longleftrightarrow> length (layout (msgs @ [m])) \<le> unat (capacity cur)"
proof -
  have l: "unat len = length m" "len \<noteq> 0"
    using assms(2,3) by (auto simp: framable_def unat_of_nat unat_eq_zero [symmetric])
  have b: "unat (used cur) < 65536" "unat (capacity cur) < 65536" "unat len < 65536" by (rule unat_u16_less)+
  have u: "unat (used cur) = length (layout msgs)" and c: "unat (count cur) = length msgs"
    using rep by (auto simp: batch_rep_def)
  have w: "unat (ucast x :: u32) = unat x" for x :: u16 by (simp add: unat_ucast_up)
  have cost: "unat (BatchCostOf cur len) = (if msgs = [] then length m else if length msgs = 1 then 4 + length m else 2 + length m)"
  proof -
    have "unat (4 + ucast len :: u32) = 4 + unat len" "unat (2 + ucast len :: u32) = 2 + unat len"
      by (subst unat_add_small; use b w in simp)+
    moreover have "count cur = 0 \<longleftrightarrow> msgs = []" "count cur = 1 \<longleftrightarrow> length msgs = 1"
      using c by (auto simp: unat_eq_zero [symmetric] word_unat_eq_iff)
    ultimately show ?thesis using l w by (simp add: BatchCostOf_def)
  qed
  have nz: "BatchCostOf cur len \<noteq> 0" using cost l by (auto simp: unat_eq_zero [symmetric])
  have s: "unat (ucast (used cur) + BatchCostOf cur len) = unat (used cur) + unat (BatchCostOf cur len)"
    by (subst unat_add_small) (use b l cost w in \<open>auto split: if_splits\<close>)
  have len: "length (layout (msgs @ [m])) = length (layout msgs) + unat (BatchCostOf cur len)"
    using cost by (cases msgs rule: layout.cases) auto
  show ?thesis using nz s len u w by (simp add: BatchFits_def Let_def word_le_nat_alt)
qed

lemma take_mem_write:
  "at + length bs \<le> length mem \<Longrightarrow> take (at + length bs) (mem_write mem at bs) = take at mem @ bs"
  by (cases bs) (auto simp: mem_write_def min_def)

lemma append_entry:
  assumes "u + 2 + length m \<le> length mem" and "framable m"
  defines "mem' \<equiv> mem_write (PutLen mem u (of_nat (length m))) (u + 2) m"
  shows "take (u + 2 + length m) mem' = take u mem @ entry m" and "length mem' = length mem"
proof -
  let ?p = "PutLen mem u (of_nat (length m))"
  have p: "?p = mem_write mem u (le16 (of_nat (length m)))" using assms(1) by (simp add: PutLen_write)
  have lp: "length ?p = length mem" by (simp add: PutLen_def)
  have "take (u + 2 + length m) mem' = take (u + 2) ?p @ m"
    unfolding mem'_def by (rule take_mem_write) (use assms(1) lp in simp)
  also have "take (u + 2) ?p = take u mem @ le16 (of_nat (length m))"
    unfolding p using take_mem_write [of u "le16 (of_nat (length m))" mem] assms(1) by simp
  finally show "take (u + 2 + length m) mem' = take u mem @ entry m" by (simp add: entry_def)
  show "length mem' = length mem" unfolding mem'_def using assms(1) lp by simp
qed

lemma shift_first:
  assumes "take (length m) mem = m" and "length m + 2 \<le> length mem" and "framable m"
  defines "mem' \<equiv> PutLen (mem_write mem 2 (take (length m) mem)) 0 (of_nat (length m))"
  shows "take (length m + 2) mem' = entry m" and "length mem' = length mem"
proof -
  have w: "mem_write mem 2 m = take 2 mem @ m @ drop (2 + length m) mem" by (simp add: mem_write_def)
  have "mem' = le16 (of_nat (length m)) @ m @ drop (2 + length m) mem"
    unfolding mem'_def assms(1) w using assms(2) by (subst PutLen_write) (auto simp: mem_write_def min_def)
  then show "take (length m + 2) mem' = entry m" by (simp add: entry_def)
  show "length mem' = length mem" unfolding mem'_def assms(1) using assms(2) by (simp add: PutLen_def)
qed

lemma BatchAppend_refused:
  "\<not> BatchFits cur len \<Longrightarrow> BatchAppend cur message len = (False, cur)"
  by (simp add: BatchAppend_def split: option.splits)

lemma BatchAppend_rep:
  assumes rep: "batch_rep cur msgs" and fm: "framable m" and "length msgs < 65535"
    and fit: "length (layout (msgs @ [m])) \<le> unat (capacity cur)"
  shows "\<exists>cur'. BatchAppend cur (Some m) (of_nat (length m)) = (True, cur') \<and> capacity cur' = capacity cur
     \<and> batch_rep cur' (msgs @ [m])"
proof -
  define len :: u16 where "len = of_nat (length m)"
  have l: "unat len = length m" using fm by (simp add: framable_def len_def unat_of_nat)
  obtain mem where mem: "content cur = Some mem" "unat (capacity cur) \<le> length mem" "take (unat (used cur)) mem = layout msgs"
    using rep by (auto simp: batch_rep_def)
  have u: "unat (used cur) = length (layout msgs)" and c: "unat (count cur) = length msgs"
    and f: "\<forall>m\<in>set msgs. framable m" and first: "msgs \<noteq> [] \<Longrightarrow> unat (firstLen cur) = length (hd msgs)"
    using rep by (auto simp: batch_rep_def)
  have cap: "unat (capacity cur) < 65536" by (rule unat_u16_less)
  have ok: "BatchFits cur len" using BatchFits_layout [OF rep fm] fit by (simp add: len_def)
  show ?thesis
  proof (cases msgs)
    case Nil
    then have "count cur = 0" using c by (simp add: unat_eq_zero)
    then have app: "BatchAppend cur (Some m) len =
        (True, cur\<lparr>content := Some (mem_write mem 0 m), used := len, firstLen := len, count := 1\<rparr>)"
      using ok mem l by (simp add: BatchAppend_def)
    have "take (length m) (mem_write mem 0 m) = m" "length (mem_write mem 0 m) = length mem"
      using fit Nil mem(2) by (simp_all add: mem_write_def)
    then have "batch_rep (cur\<lparr>content := Some (mem_write mem 0 m), used := len, firstLen := len, count := 1\<rparr>) [m]"
      using mem l fit Nil fm by (simp add: batch_rep_def word_le_nat_alt)
    then show ?thesis using app Nil by (auto simp: len_def)
  next
    case (Cons m0 rest)
    then have cnz: "count cur \<noteq> 0" using c by auto
    define mem1 where "mem1 = (if count cur = 1 then PutLen (mem_write mem 2 (take (unat (firstLen cur)) mem)) 0 (firstLen cur) else mem)"
    define u1 where "u1 = (if count cur = 1 then used cur + 2 else used cur)"
    have c1: "count cur = 1 \<longleftrightarrow> rest = []" using c Cons by (auto simp: word_unat_eq_iff)
    have lay: "layout (msgs @ [m]) = chain msgs @ entry m" using Cons by (cases rest) simp_all
    have fitc: "length (chain msgs) + 2 + length m \<le> unat (capacity cur)" using fit lay by simp
    have m1: "unat u1 = length (chain msgs) \<and> take (unat u1) mem1 = chain msgs \<and> length mem1 = length mem"
    proof (cases "rest = []")
      case True
      have fl: "unat (firstLen cur) = length m0" using first Cons by simp
      then have flw: "firstLen cur = of_nat (length m0)" by (metis of_nat_unat ucast_id)
      have t0: "take (length m0) mem = m0" using mem(3) u Cons True by simp
      have "unat (used cur + 2) = length m0 + 2"
        by (subst unat_add_small) (use u Cons True fitc cap in simp_all)
      moreover have m1: "mem1 = PutLen (mem_write mem 2 (take (length m0) mem)) 0 (of_nat (length m0))"
        unfolding mem1_def fl using c1 True flw by simp
      moreover have "take (length m0 + 2) mem1 = entry m0" "length mem1 = length mem"
        using shift_first [OF t0] fitc mem(2) Cons True f unfolding m1 by simp_all
      ultimately show ?thesis using c1 True Cons by (simp add: u1_def)
    next
      case False
      then have "2 \<le> length msgs" using Cons by (cases rest) auto
      then show ?thesis using False c1 mem u by (simp add: mem1_def u1_def layout_chain)
    qed
    define mem2 where "mem2 = mem_write (PutLen mem1 (unat u1) len) (unat u1 + 2) m"
    have app: "BatchAppend cur (Some m) len =
        (True, cur\<lparr>content := Some mem2, used := u1 + 2 + len, count := count cur + 1\<rparr>)"
      using ok mem cnz l by (simp add: BatchAppend_def Let_def mem1_def u1_def mem2_def)
    have m2: "take (unat u1 + 2 + length m) mem2 = chain msgs @ entry m" "length mem2 = length mem"
      using append_entry [of "unat u1" m mem1] m1 fitc mem(2) fm by (auto simp: mem2_def len_def)
    have "unat (u1 + 2) = unat u1 + 2" by (subst unat_add_small) (use m1 fitc cap in simp_all)
    then have un: "unat (u1 + 2 + len) = unat u1 + 2 + length m"
      by (subst unat_add_small) (use l m1 fitc cap in simp_all)
    have "unat (count cur + 1) = length msgs + 1"
      by (subst unat_add_small) (use c assms(3) in simp_all)
    then have "batch_rep (cur\<lparr>content := Some mem2, used := u1 + 2 + len, count := count cur + 1\<rparr>) (msgs @ [m])"
      using m2 un m1 mem(2) fitc f fm first lay Cons by (simp add: batch_rep_def word_le_nat_alt)
    then show ?thesis using app by (auto simp: len_def)
  qed
qed

section \<open>Properties\<close>

text \<open>
  C18: Appending refines appending to a list of messages. A cursor that holds the layout of \<open>msgs\<close>
  accepts a further message exactly when the layout of the longer list, including the length that the
  first message grows retroactively, fits the capacity; then it holds that layout, and otherwise the
  cursor is unchanged to the last byte.
\<close>

theorem batch_append_refines:
  assumes "batch_rep cur msgs" and "framable m" and "length msgs < 65535"
  shows "if length (layout (msgs @ [m])) \<le> unat (capacity cur)
         then \<exists>cur'. BatchAppend cur (Some m) (of_nat (length m)) = (True, cur') \<and> batch_rep cur' (msgs @ [m])
         else BatchAppend cur (Some m) (of_nat (length m)) = (False, cur)"
  using BatchAppend_rep [OF assms] BatchFits_layout [OF assms(1,2) refl] BatchAppend_refused by auto

theorem batch_append_refines_witness:
  "\<exists>cur'. BatchAppend \<lparr>content = Some [7, 8, 0, 0, 0, 0, 0, 0], used = 2, count = 1, firstLen = 2, capacity = 8\<rparr> (Some [9, 9]) 2 = (True, cur')
     \<and> batch_rep cur' [[7, 8], [9, 9]]"
  using batch_append_refines [of "\<lparr>content = Some [7, 8, 0, 0, 0, 0, 0, 0], used = 2, count = 1, firstLen = 2, capacity = 8\<rparr>" "[[7, 8]]" "[9, 9]"]
  by (simp add: batch_rep_def framable_def)



end
