(* ===== verification/Fifo_Queue.thy ===== *)
theory Fifo_Queue
  imports Common_Math
begin

text \<open>
  The bounded queue of \<^verbatim>\<open>common/collections/fifo_queue.h\<close>, a ring of cells with sequence
  numbers. Each operation is modelled as one thread runs it with no other thread between its
  loads and its compare-and-swap, so the swap succeeds; the branch of the source that waits for
  another thread cannot make progress there and is \<open>None\<close>. The signed difference of sequence
  numbers is the two's complement one, so the 32-bit counters may wrap.

  The locale \<open>bounded_fifo\<close> is what the clients of the queue rely on; the ring is its
  interpretation.
\<close>

unbundle bit_operations_syntax

section \<open>Definitions\<close>

record 'a FifoQueue =
  q_buffer :: "(u32 \<times> 'a) list"
  q_capacity :: u32
  q_mask :: u32
  q_head :: u32
  q_tail :: u32

definition Fifo_Init :: "'a \<Rightarrow> u32 \<Rightarrow> 'a FifoQueue" where
  "Fifo_Init dflt cap =
     (let c = NextPowerOfTwo cap
      in \<lparr>q_buffer = map (\<lambda>i. (of_nat i, dflt)) [0..<unat c], q_capacity = c, q_mask = c - 1,
          q_head = 0, q_tail = 0\<rparr>)"

definition cell_at :: "'a FifoQueue \<Rightarrow> u32 \<Rightarrow> nat" where
  "cell_at q pos = unat (pos AND q_mask q)"

definition seq_at :: "'a FifoQueue \<Rightarrow> u32 \<Rightarrow> u32" where
  "seq_at q pos = fst (q_buffer q ! cell_at q pos)"

definition Fifo_Push :: "'a FifoQueue \<Rightarrow> 'a \<Rightarrow> (bool \<times> 'a FifoQueue) option" where
  "Fifo_Push q item =
     (let tail = q_tail q;
          diff = sint (seq_at q tail - tail)
      in if diff = 0
         then Some (True, q\<lparr>q_tail := tail + 1, q_buffer := (q_buffer q)[cell_at q tail := (tail + 1, item)]\<rparr>)
         else if diff < 0 then Some (False, q)
         else None)"

definition Fifo_Pop :: "'a FifoQueue \<Rightarrow> ('a option \<times> 'a FifoQueue) option" where
  "Fifo_Pop q =
     (let head = q_head q;
          diff = sint (seq_at q head - (head + 1))
      in if diff = 0
         then (let item = snd (q_buffer q ! cell_at q head)
               in Some (Some item, q\<lparr>q_head := head + 1,
                    q_buffer := (q_buffer q)[cell_at q head := (head + q_capacity q, item)]\<rparr>))
         else if diff < 0 then Some (None, q)
         else None)"

fun count_ready :: "'a FifoQueue \<Rightarrow> u32 \<Rightarrow> nat \<Rightarrow> nat" where
  "count_ready q pos 0 = 0"
| "count_ready q pos (Suc n) = (if seq_at q pos = pos then Suc (count_ready q (pos + 1) n) else 0)"

fun store_batch :: "'a FifoQueue \<Rightarrow> u32 \<Rightarrow> 'a list \<Rightarrow> 'a FifoQueue" where
  "store_batch q pos [] = q"
| "store_batch q pos (x # xs) =
     store_batch (q\<lparr>q_buffer := (q_buffer q)[cell_at q pos := (pos + 1, x)]\<rparr>) (pos + 1) xs"

definition Fifo_PushBatch :: "'a FifoQueue \<Rightarrow> 'a list \<Rightarrow> nat \<times> 'a FifoQueue" where
  "Fifo_PushBatch q items =
     (let tail = q_tail q;
          available = count_ready q tail (length items)
      in if available = 0 then (0, q)
         else (available, store_batch (q\<lparr>q_tail := tail + of_nat available\<rparr>) tail (take available items)))"

fun count_full :: "'a FifoQueue \<Rightarrow> u32 \<Rightarrow> nat \<Rightarrow> nat" where
  "count_full q pos 0 = 0"
| "count_full q pos (Suc n) = (if seq_at q pos = pos + 1 then Suc (count_full q (pos + 1) n) else 0)"

fun take_batch :: "'a FifoQueue \<Rightarrow> u32 \<Rightarrow> nat \<Rightarrow> 'a list \<times> 'a FifoQueue" where
  "take_batch q pos 0 = ([], q)"
| "take_batch q pos (Suc n) =
     (let x = snd (q_buffer q ! cell_at q pos);
          (xs, q') = take_batch (q\<lparr>q_buffer := (q_buffer q)[cell_at q pos := (pos + q_capacity q, x)]\<rparr>) (pos + 1) n
      in (x # xs, q'))"

definition Fifo_PopBatch :: "'a FifoQueue \<Rightarrow> nat \<Rightarrow> 'a list \<times> 'a FifoQueue" where
  "Fifo_PopBatch q count =
     (let head = q_head q;
          available = count_full q head count
      in if available = 0 then ([], q)
         else take_batch (q\<lparr>q_head := head + of_nat available\<rparr>) head available)"

definition Fifo_Empty :: "'a FifoQueue \<Rightarrow> bool" where
  "Fifo_Empty q \<longleftrightarrow> q_head q = q_tail q"

section \<open>Sequences of operations\<close>

datatype 'a fifo_op = OpPush 'a | OpPop | OpPushBatch "'a list" | OpPopBatch nat

datatype 'a fifo_result = Pushed bool | Popped "'a option" | PushedCount nat | PoppedItems "'a list"

fun fifo_step ::
  "('q \<Rightarrow> 'a \<Rightarrow> (bool \<times> 'q) option) \<Rightarrow> ('q \<Rightarrow> ('a option \<times> 'q) option) \<Rightarrow> ('q \<Rightarrow> 'a list \<Rightarrow> nat \<times> 'q)
   \<Rightarrow> ('q \<Rightarrow> nat \<Rightarrow> 'a list \<times> 'q) \<Rightarrow> 'q \<Rightarrow> 'a fifo_op \<Rightarrow> ('a fifo_result \<times> 'q) option" where
  "fifo_step push pop pushb popb q (OpPush x) = map_option (map_prod Pushed id) (push q x)"
| "fifo_step push pop pushb popb q OpPop = map_option (map_prod Popped id) (pop q)"
| "fifo_step push pop pushb popb q (OpPushBatch xs) = Some (map_prod PushedCount id (pushb q xs))"
| "fifo_step push pop pushb popb q (OpPopBatch n) = Some (map_prod PoppedItems id (popb q n))"

fun run_ops :: "('q \<Rightarrow> 'o \<Rightarrow> ('r \<times> 'q) option) \<Rightarrow> 'q \<Rightarrow> 'o list \<Rightarrow> ('r list \<times> 'q) option" where
  "run_ops step q [] = Some ([], q)"
| "run_ops step q (op # ops) =
     (case step q op of None \<Rightarrow> None
      | Some (r, q1) \<Rightarrow> (case run_ops step q1 ops of None \<Rightarrow> None | Some (rs, q2) \<Rightarrow> Some (r # rs, q2)))"

text \<open>What the queue promises: a list of at most \<open>c\<close> items, appended to and taken from in order.\<close>

fun bounded_list_step :: "nat \<Rightarrow> 'a list \<Rightarrow> 'a fifo_op \<Rightarrow> ('a fifo_result \<times> 'a list) option" where
  "bounded_list_step c xs (OpPush x) =
     Some (if length xs < c then (Pushed True, xs @ [x]) else (Pushed False, xs))"
| "bounded_list_step c xs OpPop =
     Some (case xs of [] \<Rightarrow> (Popped None, []) | y # ys \<Rightarrow> (Popped (Some y), ys))"
| "bounded_list_step c xs (OpPushBatch ys) =
     Some (let n = min (length ys) (c - length xs) in (PushedCount n, xs @ take n ys))"
| "bounded_list_step c xs (OpPopBatch n) = Some (PoppedItems (take n xs), drop n xs)"

section \<open>The ring and the list it holds\<close>

definition fifo_size :: "'a FifoQueue \<Rightarrow> nat" where
  "fifo_size q = unat (q_tail q - q_head q)"

definition fifo_shape :: "'a FifoQueue \<Rightarrow> bool" where
  "fifo_shape q \<longleftrightarrow> (\<exists>k\<le>31. unat (q_capacity q) = 2 ^ k \<and> q_mask q = mask k)
     \<and> length (q_buffer q) = unat (q_capacity q)"

definition fifo_inv :: "'a FifoQueue \<Rightarrow> bool" where
  "fifo_inv q \<longleftrightarrow> fifo_shape q \<and> fifo_size q \<le> unat (q_capacity q)
     \<and> (\<forall>i<unat (q_capacity q). seq_at q (q_head q + of_nat i) =
          q_head q + of_nat i + (if i < fifo_size q then 1 else 0))"

definition fifo_abs :: "'a FifoQueue \<Rightarrow> 'a list" where
  "fifo_abs q = map (\<lambda>i. snd (q_buffer q ! cell_at q (q_head q + of_nat i))) [0..<fifo_size q]"

lemma length_fifo_abs [simp]: "length (fifo_abs q) = fifo_size q"
  by (simp add: fifo_abs_def)

lemma cell_at_mod:
  assumes "q_mask q = mask k" and "k \<le> 31"
  shows "cell_at q (pos + of_nat i) = (unat pos + i) mod 2 ^ k"
proof -
  have dvd: "(2 :: nat) ^ k dvd 2 ^ 32" using assms(2) by (intro le_imp_power_dvd) simp
  have "unat (pos + of_nat i) = (unat pos + i) mod 2 ^ 32"
    by (simp add: unat_word_ariths unat_of_nat mod_simps)
  then show ?thesis
    using mod_mod_cancel [OF dvd] by (simp add: cell_at_def assms(1) unat_and_mask)
qed

lemma mod_shift_inj_le:
  fixes a i j c :: nat
  assumes "(a + i) mod c = (a + j) mod c" and "j < c" and "i \<le> j"
  shows "i = j"
proof -
  have "c dvd (a + j) - (a + i)"
    using assms(1,3) mod_eq_dvd_iff_nat [of "a + i" "a + j" c] by simp
  then have "c dvd j - i" by simp
  then show ?thesis using assms(2,3) by (auto dest: dvd_imp_le)
qed

lemma mod_shift_inj:
  fixes a i j c :: nat
  assumes "(a + i) mod c = (a + j) mod c" and "i < c" and "j < c"
  shows "i = j"
  using assms mod_shift_inj_le [of a i c j] mod_shift_inj_le [of a j c i] by (cases "i \<le> j") auto

lemma cell_at_inj:
  assumes "fifo_shape q" and "i < unat (q_capacity q)" and "j < unat (q_capacity q)"
  shows "cell_at q (pos + of_nat i) = cell_at q (pos + of_nat j) \<longleftrightarrow> i = j"
proof -
  obtain k where k: "k \<le> 31" "unat (q_capacity q) = 2 ^ k" "q_mask q = mask k"
    using assms(1) by (auto simp: fifo_shape_def)
  show ?thesis
    using assms(2,3) mod_shift_inj [of "unat pos" i "2 ^ k" j] by (auto simp: cell_at_mod [OF k(3,1)] k(2))
qed

lemma cell_at_bound:
  assumes "fifo_shape q"
  shows "cell_at q pos < length (q_buffer q)"
proof -
  obtain k where k: "k \<le> 31" "unat (q_capacity q) = 2 ^ k" "q_mask q = mask k"
    using assms by (auto simp: fifo_shape_def)
  then show ?thesis using cell_at_mod [OF k(3,1), of pos 0] assms by (simp add: fifo_shape_def)
qed

lemma cell_at_wrap:
  assumes "fifo_shape q"
  shows "cell_at q (pos + q_capacity q) = cell_at q pos"
proof -
  obtain k where k: "k \<le> 31" "unat (q_capacity q) = 2 ^ k" "q_mask q = mask k"
    using assms by (auto simp: fifo_shape_def)
  have "q_capacity q = of_nat (2 ^ k)" using k(2) by (metis of_nat_unat ucast_id)
  then show ?thesis
    using cell_at_mod [OF k(3,1), of pos "2 ^ k"] cell_at_mod [OF k(3,1), of pos 0] by simp
qed

lemma shape_update [simp]:
  "fifo_shape (q\<lparr>q_tail := t\<rparr>) = fifo_shape q"
  "fifo_shape (q\<lparr>q_head := h\<rparr>) = fifo_shape q"
  "fifo_shape (q\<lparr>q_buffer := (q_buffer q)[c := v]\<rparr>) = fifo_shape q"
  by (simp_all add: fifo_shape_def)

lemma cell_at_update [simp]:
  "cell_at (q\<lparr>q_tail := t\<rparr>) pos = cell_at q pos"
  "cell_at (q\<lparr>q_head := h\<rparr>) pos = cell_at q pos"
  "cell_at (q\<lparr>q_buffer := b\<rparr>) pos = cell_at q pos"
  by (simp_all add: cell_at_def)

lemma tail_offset: "q_tail q = q_head q + of_nat (fifo_size q)"
  by (simp add: fifo_size_def)

lemma capacity_bound:
  assumes "fifo_shape q"
  shows "0 < unat (q_capacity q)" and "unat (q_capacity q) \<le> 2147483648"
proof -
  obtain k :: nat where k: "k \<le> 31" "unat (q_capacity q) = 2 ^ k" using assms by (auto simp: fifo_shape_def)
  then have "(2 :: nat) ^ k \<le> 2 ^ 31" by (intro power_increasing) auto
  with k show "0 < unat (q_capacity q)" "unat (q_capacity q) \<le> 2147483648" by auto
qed

lemma sint_one_minus_capacity:
  fixes c :: u32
  assumes "2 \<le> unat c" and "unat c \<le> 2147483648"
  shows "sint (1 - c) < 0"
proof -
  have u: "uint c = int (unat c)" by simp
  have b: "2 \<le> uint c" "uint c \<le> 2147483648" using assms u by linarith+
  have "1 - c = word_of_int (1 - uint c)" by simp
  moreover have "sint (word_of_int (1 - uint c) :: u32) = 1 - uint c"
    unfolding sint_sbintrunc' by (subst signed_take_bit_int_eq_self) (use b in simp_all)
  ultimately have "sint (1 - c) = 1 - uint c" by (simp only:)
  then show ?thesis using b by simp
qed

lemma unat_of_nat_u32: "n < 4294967296 \<Longrightarrow> unat (of_nat n :: u32) = n"
  by (simp add: unat_of_nat)

lemma push_space:
  assumes inv: "fifo_inv q" and sp: "fifo_size q < unat (q_capacity q)"
  shows "\<exists>q'. Fifo_Push q x = Some (True, q') \<and> fifo_inv q' \<and> fifo_abs q' = fifo_abs q @ [x] \<and> q_capacity q' = q_capacity q"
proof -
  define n where "n = fifo_size q"
  let ?t = "q_tail q" and ?c = "cell_at q (q_tail q)"
  let ?q = "q\<lparr>q_tail := ?t + 1, q_buffer := (q_buffer q)[?c := (?t + 1, x)]\<rparr>"
  have sh: "fifo_shape q" using inv by (simp add: fifo_inv_def)
  note cb = capacity_bound [OF sh]
  have t: "?t = q_head q + of_nat n" by (simp add: n_def tail_offset)
  have seq: "seq_at q ?t = ?t" using inv sp by (simp add: fifo_inv_def t n_def)
  have push: "Fifo_Push q x = Some (True, ?q)" by (simp add: Fifo_Push_def Let_def seq)
  have n1: "fifo_size ?q = Suc n"
  proof -
    have "?t + 1 - q_head q = of_nat (Suc n)" by (simp add: t)
    moreover have "Suc n < 4294967296" using sp cb(2) by (simp add: n_def)
    ultimately have "unat (?t + 1 - q_head q) = Suc n" by (simp only: unat_of_nat_u32)
    then show ?thesis by (simp add: fifo_size_def)
  qed
  have cells: "cell_at q (q_head q + of_nat i) = ?c \<longleftrightarrow> i = n" if "i < unat (q_capacity q)" for i
    unfolding t using cell_at_inj [OF sh that, of n] sp by (simp add: n_def)
  have buf: "(q_buffer q)[?c := (?t + 1, x)] ! cell_at q (q_head q + of_nat i) =
      (if i = n then (?t + 1, x) else q_buffer q ! cell_at q (q_head q + of_nat i))" if "i < unat (q_capacity q)" for i
    using cells [OF that] cell_at_bound [OF sh] by (auto simp: nth_list_update)
  have "seq_at ?q (q_head q + of_nat i) = q_head q + of_nat i + (if i < Suc n then 1 else 0)"
    if "i < unat (q_capacity q)" for i
    using buf [OF that] inv that by (auto simp: seq_at_def fifo_inv_def n_def t less_Suc_eq)
  then have "fifo_inv ?q" using sh n1 sp by (simp add: fifo_inv_def n_def fifo_shape_def)
  moreover have "fifo_abs ?q = fifo_abs q @ [x]"
    unfolding fifo_abs_def n1 using buf sp by (auto simp: n_def intro!: nth_equalityI)
  ultimately show ?thesis using push by simp
qed

lemma push_full:
  assumes inv: "fifo_inv q" and full: "fifo_size q = unat (q_capacity q)" and "2 \<le> unat (q_capacity q)"
  shows "Fifo_Push q x = Some (False, q)"
proof -
  have sh: "fifo_shape q" using inv by (simp add: fifo_inv_def)
  note cb = capacity_bound [OF sh]
  have "of_nat (unat (q_capacity q)) = q_capacity q" by simp
  then have t: "q_tail q = q_head q + q_capacity q" by (simp add: tail_offset full)
  have "seq_at q (q_tail q) = seq_at q (q_head q)" unfolding t seq_at_def cell_at_wrap [OF sh] ..
  also have "\<dots> = q_head q + 1"
    using inv full cb(1) by (auto simp: fifo_inv_def dest!: spec [of _ 0])
  finally have "seq_at q (q_tail q) - q_tail q = 1 - q_capacity q" by (simp add: t)
  then show ?thesis using sint_one_minus_capacity [OF assms(3) cb(2)] by (simp add: Fifo_Push_def Let_def)
qed

lemma pop_nonempty:
  assumes inv: "fifo_inv q" and ne: "0 < fifo_size q"
  shows "\<exists>x q'. Fifo_Pop q = Some (Some x, q') \<and> fifo_inv q' \<and> fifo_abs q = x # fifo_abs q' \<and> q_capacity q' = q_capacity q"
proof -
  define n where "n = fifo_size q"
  let ?h = "q_head q" and ?c = "cell_at q (q_head q)"
  let ?x = "snd (q_buffer q ! ?c)"
  let ?q = "q\<lparr>q_head := ?h + 1, q_buffer := (q_buffer q)[?c := (?h + q_capacity q, ?x)]\<rparr>"
  have sh: "fifo_shape q" and le: "n \<le> unat (q_capacity q)" using inv by (simp_all add: fifo_inv_def n_def)
  note cb = capacity_bound [OF sh]
  have seq: "seq_at q ?h = ?h + 1"
    using inv ne cb(1) by (auto simp: fifo_inv_def dest!: spec [of _ 0])
  have pop: "Fifo_Pop q = Some (Some ?x, ?q)" by (simp add: Fifo_Pop_def Let_def seq)
  obtain m where m: "n = Suc m" using ne by (cases n) (auto simp: n_def)
  have t: "q_tail q = ?h + of_nat n" by (simp add: n_def tail_offset)
  have n1: "fifo_size ?q = m"
    using le cb(2) m by (simp add: fifo_size_def t unat_of_nat)
  have cells: "cell_at q (?h + 1 + of_nat i) = ?c \<longleftrightarrow> Suc i = unat (q_capacity q)" if "i < unat (q_capacity q)" for i
  proof (cases "Suc i = unat (q_capacity q)")
    case True
    then have "?h + 1 + of_nat i = ?h + of_nat (unat (q_capacity q))"
      by (metis add.assoc of_nat_Suc add.commute)
    then show ?thesis using True cell_at_wrap [OF sh, of ?h] by (simp only: of_nat_unat ucast_id simp_thms)
  next
    case False
    then have "Suc i < unat (q_capacity q)" using that by simp
    then have "cell_at q (?h + of_nat (Suc i)) = cell_at q (?h + of_nat 0) \<longleftrightarrow> Suc i = 0"
      using cell_at_inj [OF sh _ cb(1)] by blast
    then show ?thesis using False by (simp add: add.assoc)
  qed
  have buf: "(q_buffer q)[?c := (?h + q_capacity q, ?x)] ! cell_at q (?h + 1 + of_nat i) =
      (if Suc i = unat (q_capacity q) then (?h + q_capacity q, ?x) else q_buffer q ! cell_at q (?h + of_nat (Suc i)))"
    if "i < unat (q_capacity q)" for i
    using cells [OF that] cell_at_bound [OF sh, of ?h] by (auto simp: nth_list_update add.assoc)
  have "seq_at ?q (?h + 1 + of_nat i) = ?h + 1 + of_nat i + (if i < m then 1 else 0)" if i: "i < unat (q_capacity q)" for i
  proof (cases "Suc i = unat (q_capacity q)")
    case True
    then have qc: "q_capacity q = 1 + of_nat i" by (metis of_nat_unat ucast_id of_nat_Suc)
    have "seq_at ?q (?h + 1 + of_nat i) = ?h + q_capacity q" using buf [OF i] True by (simp add: seq_at_def cell_at_def)
    moreover have "\<not> i < m" using True le m by simp
    ultimately show ?thesis by (simp add: qc add.assoc)
  next
    case False
    then have "Suc i < unat (q_capacity q)" using i by simp
    then have "seq_at q (?h + of_nat (Suc i)) = ?h + of_nat (Suc i) + (if Suc i < n then 1 else 0)"
      using inv unfolding fifo_inv_def n_def by blast
    then show ?thesis using buf [OF i] False m by (simp add: seq_at_def add.assoc)
  qed
  then have inv': "fifo_inv ?q" using sh n1 le m by (simp add: fifo_inv_def fifo_shape_def)
  have "fifo_abs q ! i = (?x # fifo_abs ?q) ! i" if "i < n" for i
  proof (cases i)
    case 0
    then show ?thesis using ne by (simp add: fifo_abs_def n_def)
  next
    case (Suc j)
    then have j: "j < m" "Suc j < unat (q_capacity q)" "Suc j \<noteq> unat (q_capacity q)" using that le m by auto
    then show ?thesis using Suc that buf [of j] n1 by (simp add: fifo_abs_def n_def [symmetric])
  qed
  then have "fifo_abs q = ?x # fifo_abs ?q" using n1 m by (intro nth_equalityI) (auto simp: n_def)
  then show ?thesis using pop inv' by auto
qed

lemma pop_empty:
  assumes inv: "fifo_inv q" and "fifo_size q = 0"
  shows "Fifo_Pop q = Some (None, q)"
proof -
  have "seq_at q (q_head q) = q_head q"
    using inv assms(2) capacity_bound(1) [of q] by (auto simp: fifo_inv_def dest!: spec [of _ 0])
  then show ?thesis by (simp add: Fifo_Pop_def Let_def)
qed

section \<open>Batches\<close>

lemma seq_free:
  assumes "fifo_inv q" and "fifo_size q + j < unat (q_capacity q)"
  shows "seq_at q (q_tail q + of_nat j) = q_tail q + of_nat j"
proof -
  have t: "q_tail q + of_nat j = q_head q + of_nat (fifo_size q + j)" by (simp add: tail_offset)
  have "seq_at q (q_head q + of_nat i) = q_head q + of_nat i + (if i < fifo_size q then 1 else 0)"
    if "i < unat (q_capacity q)" for i using assms(1) that unfolding fifo_inv_def by blast
  from this [OF assms(2)] show ?thesis unfolding t by simp
qed

lemma seq_past_end:
  assumes inv: "fifo_inv q" and "2 \<le> unat (q_capacity q)"
  shows "seq_at q (q_head q + q_capacity q) \<noteq> q_head q + q_capacity q"
    and "seq_at q (q_head q + q_capacity q) \<noteq> q_head q + q_capacity q + 1"
proof -
  have sh: "fifo_shape q" using inv by (simp add: fifo_inv_def)
  have "seq_at q (q_head q + q_capacity q) = seq_at q (q_head q)" unfolding seq_at_def cell_at_wrap [OF sh] ..
  moreover have "seq_at q (q_head q) = q_head q + (if 0 < fifo_size q then 1 else 0)"
    using inv capacity_bound(1) [OF sh] by (auto simp: fifo_inv_def dest!: spec [of _ 0])
  moreover have "q_capacity q \<noteq> 0" "q_capacity q \<noteq> 1" "q_capacity q + 1 \<noteq> 0"
    using assms(2) capacity_bound(2) [OF sh] by (auto simp: word_unat_eq_iff unat_word_ariths)
  ultimately show "seq_at q (q_head q + q_capacity q) \<noteq> q_head q + q_capacity q"
    "seq_at q (q_head q + q_capacity q) \<noteq> q_head q + q_capacity q + 1"
    by (auto simp: add.assoc split: if_splits)
qed

lemma count_ready_space:
  assumes inv: "fifo_inv q" and c2: "2 \<le> unat (q_capacity q)" and "j \<le> unat (q_capacity q) - fifo_size q"
  shows "count_ready q (q_tail q + of_nat j) m = min m (unat (q_capacity q) - fifo_size q - j)"
  using assms(3)
proof (induction m arbitrary: j)
  case (Suc m)
  have le: "fifo_size q \<le> unat (q_capacity q)" using inv by (simp add: fifo_inv_def)
  show ?case
  proof (cases "j = unat (q_capacity q) - fifo_size q")
    case True
    have "q_tail q + of_nat j = q_head q + of_nat (unat (q_capacity q))"
      unfolding tail_offset add.assoc of_nat_add [symmetric] using True le by simp
    then have "q_tail q + of_nat j = q_head q + q_capacity q" by simp
    then show ?thesis using True seq_past_end(1) [OF inv c2] by simp
  next
    case False
    then have j: "j < unat (q_capacity q) - fifo_size q" using Suc.prems by simp
    then have "seq_at q (q_tail q + of_nat j) = q_tail q + of_nat j"
      by (intro seq_free [OF inv]) simp
    moreover have "q_tail q + of_nat j + 1 = q_tail q + of_nat (Suc j)" by simp
    ultimately show ?thesis using Suc.IH [of "Suc j"] j by (simp only: count_ready.simps) auto
  qed
qed simp

lemma store_batch_pushes:
  assumes "fifo_inv q" and "length xs \<le> unat (q_capacity q) - fifo_size q"
  shows "fifo_inv (store_batch (q\<lparr>q_tail := q_tail q + of_nat (length xs)\<rparr>) (q_tail q) xs)
    \<and> fifo_abs (store_batch (q\<lparr>q_tail := q_tail q + of_nat (length xs)\<rparr>) (q_tail q) xs) = fifo_abs q @ xs
    \<and> q_capacity (store_batch (q\<lparr>q_tail := q_tail q + of_nat (length xs)\<rparr>) (q_tail q) xs) = q_capacity q"
  using assms
proof (induction xs arbitrary: q)
  case (Cons x xs)
  then have sp: "fifo_size q < unat (q_capacity q)" by auto
  obtain q1 where q1: "Fifo_Push q x = Some (True, q1)" "fifo_inv q1" "fifo_abs q1 = fifo_abs q @ [x]" "q_capacity q1 = q_capacity q"
    using push_space [OF Cons.prems(1) sp] by blast
  have "fifo_size q1 = Suc (fifo_size q)" using arg_cong [OF q1(3), of length] by simp
  then have IH: "length xs \<le> unat (q_capacity q1) - fifo_size q1" using Cons.prems(2) q1(4) by simp
  have e: "q1 = q\<lparr>q_tail := q_tail q + 1, q_buffer := (q_buffer q)[cell_at q (q_tail q) := (q_tail q + 1, x)]\<rparr>"
    using q1(1) by (auto simp: Fifo_Push_def Let_def split: if_splits)
  have "store_batch (q\<lparr>q_tail := q_tail q + of_nat (length (x # xs))\<rparr>) (q_tail q) (x # xs)
      = store_batch (q1\<lparr>q_tail := q_tail q1 + of_nat (length xs)\<rparr>) (q_tail q1) xs"
    unfolding e by (cases q) (simp add: add.assoc cell_at_def)
  then show ?case using Cons.IH [OF q1(2) IH] q1(3,4) by simp
qed simp

lemma seq_used:
  assumes "fifo_inv q" and "j < fifo_size q"
  shows "seq_at q (q_head q + of_nat j) = q_head q + of_nat j + 1"
  using assms by (auto simp: fifo_inv_def dest!: spec [of _ j])

lemma count_full_size:
  assumes inv: "fifo_inv q" and c2: "2 \<le> unat (q_capacity q)" and "j \<le> fifo_size q"
  shows "count_full q (q_head q + of_nat j) m = min m (fifo_size q - j)"
  using assms(3)
proof (induction m arbitrary: j)
  case (Suc m)
  show ?case
  proof (cases "j = fifo_size q")
    case True
    have "seq_at q (q_head q + of_nat j) \<noteq> q_head q + of_nat j + 1"
    proof (cases "fifo_size q = unat (q_capacity q)")
      case True
      then have "q_head q + of_nat j = q_head q + q_capacity q" using \<open>j = fifo_size q\<close> by simp
      then show ?thesis using seq_past_end(2) [OF inv c2] by simp
    next
      case False
      then show ?thesis using inv \<open>j = fifo_size q\<close> by (auto simp: fifo_inv_def dest!: spec [of _ j])
    qed
    then show ?thesis using True by simp
  next
    case False
    then have j: "j < fifo_size q" using Suc.prems by simp
    have "q_head q + of_nat j + 1 = q_head q + of_nat (Suc j)" by simp
    then show ?thesis using Suc.IH [of "Suc j"] j seq_used [OF inv j] by (simp only: count_full.simps) auto
  qed
qed simp

lemma take_batch_pops:
  assumes "fifo_inv q" and "n \<le> fifo_size q"
  shows "\<exists>q'. take_batch (q\<lparr>q_head := q_head q + of_nat n\<rparr>) (q_head q) n = (take n (fifo_abs q), q')
    \<and> fifo_inv q' \<and> fifo_abs q' = drop n (fifo_abs q) \<and> q_capacity q' = q_capacity q"
  using assms
proof (induction n arbitrary: q)
  case (Suc n)
  then have "0 < fifo_size q" by simp
  then obtain x q1 where q1: "Fifo_Pop q = Some (Some x, q1)" "fifo_inv q1" "fifo_abs q = x # fifo_abs q1" "q_capacity q1 = q_capacity q"
    using pop_nonempty [OF Suc.prems(1)] by blast
  have "fifo_size q = Suc (fifo_size q1)" using arg_cong [OF q1(3), of length] by simp
  then have le: "n \<le> fifo_size q1" using Suc.prems(2) by simp
  have e: "x = snd (q_buffer q ! cell_at q (q_head q))"
    "q1 = q\<lparr>q_head := q_head q + 1, q_buffer := (q_buffer q)[cell_at q (q_head q) := (q_head q + q_capacity q, x)]\<rparr>"
    using q1(1) by (auto simp: Fifo_Pop_def Let_def split: if_splits)
  have "take_batch (q\<lparr>q_head := q_head q + of_nat (Suc n)\<rparr>) (q_head q) (Suc n) =
      (let (xs, q') = take_batch (q1\<lparr>q_head := q_head q1 + of_nat n\<rparr>) (q_head q1) n in (x # xs, q'))"
    unfolding e by (cases q) (simp add: Let_def add.assoc cell_at_def)
  then show ?case using Suc.IH [OF q1(2) le] q1(3,4) by auto
qed (auto simp: take_batch.simps)

lemma push_batch_refines:
  assumes inv: "fifo_inv q" and c2: "2 \<le> unat (q_capacity q)"
  shows "\<exists>q'. Fifo_PushBatch q xs = (min (length xs) (unat (q_capacity q) - fifo_size q), q') \<and> fifo_inv q'
    \<and> fifo_abs q' = fifo_abs q @ take (min (length xs) (unat (q_capacity q) - fifo_size q)) xs
    \<and> q_capacity q' = q_capacity q"
proof -
  define n where "n = min (length xs) (unat (q_capacity q) - fifo_size q)"
  have n: "count_ready q (q_tail q) (length xs) = n" "length (take n xs) = n" "length (take n xs) \<le> unat (q_capacity q) - fifo_size q"
    using count_ready_space [OF inv c2, of 0 "length xs"] by (simp_all add: n_def)
  show ?thesis
  proof (cases "n = 0")
    case True
    then show ?thesis using n(1) inv by (simp add: Fifo_PushBatch_def Let_def n_def [symmetric])
  next
    case False
    then show ?thesis using n(1,2) store_batch_pushes [OF inv n(3)]
      by (simp add: Fifo_PushBatch_def Let_def n_def [symmetric])
  qed
qed

lemma pop_batch_refines:
  assumes inv: "fifo_inv q" and c2: "2 \<le> unat (q_capacity q)"
  shows "\<exists>q'. Fifo_PopBatch q n = (take n (fifo_abs q), q') \<and> fifo_inv q' \<and> fifo_abs q' = drop n (fifo_abs q)
    \<and> q_capacity q' = q_capacity q"
proof -
  define m where "m = min n (fifo_size q)"
  have c: "count_full q (q_head q) n = m" using count_full_size [OF inv c2, of 0 n] by (simp add: m_def)
  have eqs: "take m (fifo_abs q) = take n (fifo_abs q)" "drop m (fifo_abs q) = drop n (fifo_abs q)"
    by (auto simp: m_def min_def)
  show ?thesis
  proof (cases "m = 0")
    case True
    then show ?thesis using eqs c inv by (simp add: Fifo_PopBatch_def Let_def)
  next
    case False
    have "m \<le> fifo_size q" by (simp add: m_def)
    then show ?thesis using False c take_batch_pops [OF inv, of m] eqs by (simp add: Fifo_PopBatch_def Let_def)
  qed
qed

lemma Fifo_Init_inv:
  assumes "0 < unat cap" and "unat cap \<le> 2147483648"
  shows "fifo_inv (Fifo_Init d cap)" "fifo_abs (Fifo_Init d cap) = []"
proof -
  obtain k where k: "k \<le> 31" "unat (NextPowerOfTwo cap) = 2 ^ k"
    using NextPowerOfTwo_power [of cap] assms by auto
  let ?q = "Fifo_Init d cap"
  have "NextPowerOfTwo cap = 2 ^ k" using k by (simp add: word_unat_eq_iff unat_exp)
  then have m: "q_mask ?q = mask k" by (simp add: Fifo_Init_def Let_def mask_eq_exp_minus_1)
  have sh: "fifo_shape ?q"
    unfolding fifo_shape_def using k m by (auto simp: Fifo_Init_def Let_def)
  have "seq_at ?q (of_nat i) = of_nat i" if "i < 2 ^ k" for i
    using that k cell_at_mod [OF m k(1), of 0 i] by (simp add: seq_at_def Fifo_Init_def Let_def)
  then show "fifo_inv ?q" using sh k by (auto simp: fifo_inv_def fifo_size_def Fifo_Init_def Let_def)
  show "fifo_abs ?q = []" by (simp add: fifo_abs_def fifo_size_def Fifo_Init_def Let_def)
qed

section \<open>The contract\<close>

locale bounded_fifo =
  fixes inv :: "'q \<Rightarrow> bool" and items :: "'q \<Rightarrow> 'a list" and cap :: "'q \<Rightarrow> nat"
    and push :: "'q \<Rightarrow> 'a \<Rightarrow> (bool \<times> 'q) option" and pop :: "'q \<Rightarrow> ('a option \<times> 'q) option"
    and pushb :: "'q \<Rightarrow> 'a list \<Rightarrow> nat \<times> 'q" and popb :: "'q \<Rightarrow> nat \<Rightarrow> 'a list \<times> 'q"
  assumes bound: "inv q \<Longrightarrow> length (items q) \<le> cap q"
    and push_room: "inv q \<Longrightarrow> length (items q) < cap q \<Longrightarrow>
      \<exists>q'. push q x = Some (True, q') \<and> inv q' \<and> items q' = items q @ [x] \<and> cap q' = cap q"
    and push_no_room: "inv q \<Longrightarrow> length (items q) = cap q \<Longrightarrow> push q x = Some (False, q)"
    and pop_first: "inv q \<Longrightarrow> items q = x # xs \<Longrightarrow>
      \<exists>q'. pop q = Some (Some x, q') \<and> inv q' \<and> items q' = xs \<and> cap q' = cap q"
    and pop_nothing: "inv q \<Longrightarrow> items q = [] \<Longrightarrow> pop q = Some (None, q)"
    and push_many: "inv q \<Longrightarrow> \<exists>q'. pushb q xs = (min (length xs) (cap q - length (items q)), q') \<and> inv q'
      \<and> items q' = items q @ take (min (length xs) (cap q - length (items q))) xs \<and> cap q' = cap q"
    and pop_many: "inv q \<Longrightarrow> \<exists>q'. popb q n = (take n (items q), q') \<and> inv q' \<and> items q' = drop n (items q) \<and> cap q' = cap q"
begin

lemma step_refines:
  assumes "inv q"
  shows "\<exists>r q'. fifo_step push pop pushb popb q op = Some (r, q') \<and> inv q' \<and> cap q' = cap q
    \<and> bounded_list_step (cap q) (items q) op = Some (r, items q')"
proof (cases op)
  case (OpPush x)
  then show ?thesis using push_room [OF assms, of x] push_no_room [OF assms, of x] bound [OF assms] assms
    by (cases "length (items q) < cap q") (auto simp: map_prod_def)
next
  case OpPop
  then show ?thesis using pop_first [OF assms] pop_nothing [OF assms] assms
    by (cases "items q") (fastforce simp: map_prod_def)+
next
  case (OpPushBatch xs)
  then show ?thesis using push_many [OF assms, of xs] by (auto simp: Let_def)
next
  case (OpPopBatch n)
  then show ?thesis using pop_many [OF assms, of n] by auto
qed

lemma run_refines:
  assumes "inv q"
  shows "\<exists>rs q'. run_ops (fifo_step push pop pushb popb) q ops = Some (rs, q') \<and> inv q' \<and> cap q' = cap q
    \<and> run_ops (bounded_list_step (cap q)) (items q) ops = Some (rs, items q')"
  using assms
proof (induction ops arbitrary: q)
  case (Cons op ops)
  obtain r q1 where s: "fifo_step push pop pushb popb q op = Some (r, q1)" "inv q1" "cap q1 = cap q"
    "bounded_list_step (cap q) (items q) op = Some (r, items q1)"
    using step_refines [OF Cons.prems] by blast
  then show ?case using Cons.IH [OF s(2)] by auto
qed simp

end

interpretation ring: bounded_fifo "\<lambda>q. fifo_inv q \<and> 2 \<le> unat (q_capacity q)" fifo_abs
  "\<lambda>q. unat (q_capacity q)" Fifo_Push Fifo_Pop Fifo_PushBatch Fifo_PopBatch
proof (unfold_locales, goal_cases)
  case (1 q)
  then show ?case by (simp add: fifo_inv_def)
next
  case (2 q x)
  then show ?case using push_space [of q x] by auto
next
  case (3 q x)
  then show ?case using push_full [of q x] by simp
next
  case (4 q x xs)
  then have "fifo_size q = Suc (length xs)" using length_fifo_abs [of q] by simp
  then show ?case using 4 pop_nonempty [of q] by auto
next
  case (5 q)
  then show ?case using pop_empty [of q] by (metis length_fifo_abs list.size(3))
next
  case (6 q xs)
  then show ?case using push_batch_refines [of q xs] by auto
next
  case (7 q n)
  then show ?case using pop_batch_refines [of q n] by auto
qed

lemma Fifo_Init_capacity: "q_capacity (Fifo_Init d cap) = NextPowerOfTwo cap"
  by (simp add: Fifo_Init_def Let_def)



text \<open>
  C28: A queue initialised with a capacity of 0 or 1 is not a queue: it takes a second item
  over the first although it is full, and the next pop neither returns an item nor reports
  the queue empty; it waits for a change that no other thread will make.\<close>

theorem fifo_capacity_one_loses:
  assumes "unat cap \<le> 1"
  shows "\<exists>q1 q2. Fifo_Push (Fifo_Init d cap) x = Some (True, q1) \<and> Fifo_Push q1 y = Some (True, q2)
    \<and> fifo_abs q1 = [x] \<and> Fifo_Pop q2 = None"
proof -
  have "cap = 0 \<or> cap = 1" using assms by (metis le_neq_implies_less less_one unat_1 unat_eq_zero word_unat_eq_iff)
  then have i: "Fifo_Init d cap = \<lparr>q_buffer = [(0, d)], q_capacity = 1, q_mask = 0, q_head = 0, q_tail = 0\<rparr>"
    by (auto simp: Fifo_Init_def Let_def)
  show ?thesis unfolding i
    by (simp add: Fifo_Push_def Fifo_Pop_def seq_at_def cell_at_def fifo_abs_def fifo_size_def Let_def)
qed

theorem fifo_capacity_one_loses_witness:
  "\<exists>q1 q2. Fifo_Push (Fifo_Init (0::nat) 1) 7 = Some (True, q1) \<and> Fifo_Push q1 8 = Some (True, q2)
    \<and> fifo_abs q1 = [7] \<and> Fifo_Pop q2 = None"
  by (rule fifo_capacity_one_loses) simp

end
