(* ===== verification/Slot_Pool.thy ===== *)
theory Slot_Pool
  imports Fifo_Queue "HOL-Library.Multiset"
begin

text \<open>
  The slot pool of \<^verbatim>\<open>common/collections/slot_pool.cpp\<close>: a free list sharded over up to sixteen
  rings, and a reader/writer lock per slot. The free list is modelled operation by operation, as one
  thread runs them; a wait that no other thread would end is \<open>None\<close>. The lock word is a
  step relation over any number of threads, since each of its operations is one atomic
  instruction. The stack address that \<open>ShardHint\<close> hashes is an argument of \<open>Acquire\<close>.

  The locale \<open>slot_leases\<close> is what the tables that keep their records in a pool rely on.
\<close>

unbundle bit_operations_syntax

section \<open>Definitions\<close>

record ShardCtl =
  s_head :: u32
  s_tail :: u32

record SlotPool =
  sp_memory :: nat
  sp_stride :: u32
  sp_capacity :: u32
  sp_ring :: "(u32 \<times> u32) list"
  sp_shards :: "ShardCtl list"
  sp_shardCount :: u32
  sp_shardMask :: u32
  sp_perCap :: u32
  sp_perMask :: u32
  sp_locks :: "u32 list"

abbreviation (input) SHARD_COUNT :: u32 where "SHARD_COUNT \<equiv> 16"
abbreviation (input) WRITE_LOCKED :: u32 where "WRITE_LOCKED \<equiv> 0xFFFFFFFF"
abbreviation (input) MAX_READERS :: u32 where "MAX_READERS \<equiv> 0xFFFFFFFE"
abbreviation (input) INVALID :: u32 where "INVALID \<equiv> 0xFFFFFFFF"

definition ShardHint :: "u64 \<Rightarrow> u32" where
  "ShardHint probe =
     (let h = ucast (drop_bit 6 probe);
          h = (h XOR drop_bit 16 h) * 0x7feb352d;
          h = (h XOR drop_bit 15 h) * 0x846ca68b
      in h XOR drop_bit 16 h)"

definition fill_ring :: "u32 \<Rightarrow> u32 \<Rightarrow> nat \<Rightarrow> (u32 \<times> u32) list" where
  "fill_ring shardCount perCap r =
     map (\<lambda>k. (of_nat k + 1, of_nat r + of_nat k * shardCount)) [0..<unat perCap]"

definition SlotPool_Init :: "u32 \<Rightarrow> u32 \<Rightarrow> SlotPool option" where
  "SlotPool_Init capacity slotSize =
     (let cap = NextPowerOfTwo capacity;
          shardCount = (if cap < SHARD_COUNT then cap else SHARD_COUNT)
      in if shardCount = 0 then None
         else let perCap = cap div shardCount
         in Some \<lparr>sp_memory = unat (cap * slotSize), sp_stride = slotSize, sp_capacity = cap,
              sp_ring = concat (map (fill_ring shardCount perCap) [0..<unat shardCount]),
              sp_shards = replicate (unat shardCount) \<lparr>s_head = perCap, s_tail = 0\<rparr>,
              sp_shardCount = shardCount, sp_shardMask = shardCount - 1,
              sp_perCap = perCap, sp_perMask = perCap - 1,
              sp_locks = replicate (unat cap) 0\<rparr>)"

definition SlotPool_Shutdown :: "SlotPool \<Rightarrow> SlotPool" where
  "SlotPool_Shutdown p = \<lparr>sp_memory = 0, sp_stride = 0, sp_capacity = 0, sp_ring = [], sp_shards = [],
     sp_shardCount = 0, sp_shardMask = 0, sp_perCap = 0, sp_perMask = 0, sp_locks = []\<rparr>"

definition TryAcquireFrom :: "u32 \<Rightarrow> SlotPool \<Rightarrow> (u32 \<times> SlotPool) option" where
  "TryAcquireFrom ring p =
     (let ctl = sp_shards p ! unat ring;
          tail = s_tail ctl;
          at = unat ring * unat (sp_perCap p) + unat (tail AND sp_perMask p);
          (seq, idx) = sp_ring p ! at;
          diff = sint (seq - (tail + 1))
      in if diff = 0
         then Some (idx, p\<lparr>sp_shards := (sp_shards p)[unat ring := ctl\<lparr>s_tail := tail + 1\<rparr>],
                           sp_ring := (sp_ring p)[at := (tail + sp_perMask p + 1, idx)]\<rparr>)
         else if diff < 0 then Some (INVALID, p)
         else None)"

fun acquire_hops :: "u32 \<Rightarrow> u32 \<Rightarrow> nat \<Rightarrow> SlotPool \<Rightarrow> (u32 \<times> SlotPool) option" where
  "acquire_hops start hop 0 p = Some (INVALID, p)"
| "acquire_hops start hop (Suc n) p =
     (case TryAcquireFrom ((start + hop) AND sp_shardMask p) p of
        None \<Rightarrow> None
      | Some (idx, p') \<Rightarrow> if idx \<noteq> INVALID then Some (idx, p') else acquire_hops start (hop + 1) n p')"

definition SlotPool_Acquire :: "u64 \<Rightarrow> SlotPool \<Rightarrow> (u32 \<times> SlotPool) option" where
  "SlotPool_Acquire probe p =
     acquire_hops (ShardHint probe AND sp_shardMask p) 0 (unat (sp_shardCount p)) p"

definition SlotPool_Release :: "u32 \<Rightarrow> SlotPool \<Rightarrow> SlotPool option" where
  "SlotPool_Release idx p =
     (let r = idx AND sp_shardMask p;
          ctl = sp_shards p ! unat r;
          head = s_head ctl;
          at = unat r * unat (sp_perCap p) + unat (head AND sp_perMask p);
          (seq, old) = sp_ring p ! at;
          diff = sint (seq - head)
      in if diff = 0
         then Some (p\<lparr>sp_shards := (sp_shards p)[unat r := ctl\<lparr>s_head := head + 1\<rparr>],
                      sp_ring := (sp_ring p)[at := (head + 1, idx)]\<rparr>)
         else None)"

definition GetSlotPtr :: "u32 \<Rightarrow> SlotPool \<Rightarrow> nat option" where
  "GetSlotPtr idx p = (if idx < sp_capacity p then Some (unat idx * unat (sp_stride p)) else None)"

text \<open>The lock word: what one atomic attempt makes of it, \<open>None\<close> when the caller spins.\<close>

definition ReadLock :: "u32 \<Rightarrow> u32 option" where
  "ReadLock cur = (if cur = WRITE_LOCKED \<or> MAX_READERS \<le> cur then None else Some (cur + 1))"

definition WriteLock :: "u32 \<Rightarrow> u32 option" where
  "WriteLock cur = (if cur = 0 then Some WRITE_LOCKED else None)"

definition UnlockRead :: "u32 \<Rightarrow> u32" where
  "UnlockRead cur = cur - 1"

definition UnlockWrite :: "u32 \<Rightarrow> u32" where
  "UnlockWrite cur = 0"

definition DowngradeLock :: "u32 \<Rightarrow> u32" where
  "DowngradeLock cur = (if cur = WRITE_LOCKED then 1 else cur)"

text \<open>The lock operations on the pool's own lock words; \<open>None\<close> when the caller would spin.\<close>

definition lock_word :: "u32 \<Rightarrow> SlotPool \<Rightarrow> u32" where
  "lock_word idx p = sp_locks p ! unat idx"

definition set_lock :: "u32 \<Rightarrow> u32 \<Rightarrow> SlotPool \<Rightarrow> SlotPool" where
  "set_lock idx w p = p\<lparr>sp_locks := (sp_locks p)[unat idx := w]\<rparr>"

definition SlotPool_ReadLock :: "u32 \<Rightarrow> SlotPool \<Rightarrow> SlotPool option" where
  "SlotPool_ReadLock idx p = map_option (\<lambda>w. set_lock idx w p) (ReadLock (lock_word idx p))"

definition SlotPool_WriteLock :: "u32 \<Rightarrow> SlotPool \<Rightarrow> SlotPool option" where
  "SlotPool_WriteLock idx p = map_option (\<lambda>w. set_lock idx w p) (WriteLock (lock_word idx p))"

definition SlotPool_UnlockRead :: "u32 \<Rightarrow> SlotPool \<Rightarrow> SlotPool" where
  "SlotPool_UnlockRead idx p = set_lock idx (UnlockRead (lock_word idx p)) p"

definition SlotPool_UnlockWrite :: "u32 \<Rightarrow> SlotPool \<Rightarrow> SlotPool" where
  "SlotPool_UnlockWrite idx p = set_lock idx (UnlockWrite (lock_word idx p)) p"

definition SlotPool_DowngradeLock :: "u32 \<Rightarrow> SlotPool \<Rightarrow> SlotPool" where
  "SlotPool_DowngradeLock idx p = set_lock idx (DowngradeLock (lock_word idx p)) p"

text \<open>
  A client of a pool: it acquires slots, keeps those it got, and gives one it holds back.\<close>

datatype 'h lease_op = Take 'h | Give nat

fun lease_step ::
  "('h \<Rightarrow> 'p \<Rightarrow> (u32 \<times> 'p) option) \<Rightarrow> (u32 \<Rightarrow> 'p \<Rightarrow> 'p option) \<Rightarrow> 'p \<times> u32 list \<Rightarrow> 'h lease_op
   \<Rightarrow> (u32 \<times> ('p \<times> u32 list)) option" where
  "lease_step acquire release (p, held) (Take probe) =
     (case acquire probe p of None \<Rightarrow> None
      | Some (i, p') \<Rightarrow> Some (i, (p', if i = INVALID then held else held @ [i])))"
| "lease_step acquire release (p, held) (Give n) =
     (if n < length held
      then case release (held ! n) p of None \<Rightarrow> None
           | Some p' \<Rightarrow> Some (held ! n, (p', take n held @ drop (Suc n) held))
      else Some (INVALID, (p, held)))"

text \<open>
  One lock word with the threads that hold it: readers as a multiset, since a thread may read
  one slot twice. A thread unlocks or downgrades only what it holds.\<close>

record 't LockState =
  l_word :: u32
  l_readers :: "'t multiset"
  l_writer :: "'t option"

inductive lock_step :: "'t LockState \<Rightarrow> 't LockState \<Rightarrow> bool" where
  read_lock: "ReadLock (l_word l) = Some w \<Longrightarrow> lock_step l (l\<lparr>l_word := w, l_readers := add_mset t (l_readers l)\<rparr>)"
| write_lock: "WriteLock (l_word l) = Some w \<Longrightarrow> lock_step l (l\<lparr>l_word := w, l_writer := Some t\<rparr>)"
| unlock_read: "t \<in># l_readers l \<Longrightarrow>
    lock_step l (l\<lparr>l_word := UnlockRead (l_word l), l_readers := l_readers l - {#t#}\<rparr>)"
| unlock_write: "l_writer l = Some t \<Longrightarrow> lock_step l (l\<lparr>l_word := UnlockWrite (l_word l), l_writer := None\<rparr>)"
| downgrade: "l_writer l = Some t \<Longrightarrow>
    lock_step l (l\<lparr>l_word := DowngradeLock (l_word l), l_writer := None, l_readers := add_mset t (l_readers l)\<rparr>)"

inductive lock_reachable :: "'t LockState \<Rightarrow> bool" where
  lock_start: "lock_reachable \<lparr>l_word = 0, l_readers = {#}, l_writer = None\<rparr>"
| lock_more: "lock_reachable l \<Longrightarrow> lock_step l l' \<Longrightarrow> lock_reachable l'"

definition lock_inv :: "'t LockState \<Rightarrow> bool" where
  "lock_inv l \<longleftrightarrow> (case l_writer l of
       Some t \<Rightarrow> l_word l = WRITE_LOCKED \<and> l_readers l = {#}
     | None \<Rightarrow> l_word l = of_nat (size (l_readers l)) \<and> size (l_readers l) \<le> unat MAX_READERS)"

section \<open>The rings of the free list\<close>

definition ring_view :: "SlotPool \<Rightarrow> nat \<Rightarrow> u32 FifoQueue" where
  "ring_view p r = \<lparr>q_buffer = take (unat (sp_perCap p)) (drop (r * unat (sp_perCap p)) (sp_ring p)),
     q_capacity = sp_perCap p, q_mask = sp_perMask p,
     q_head = s_tail (sp_shards p ! r), q_tail = s_head (sp_shards p ! r)\<rparr>"

definition set_ring :: "SlotPool \<Rightarrow> nat \<Rightarrow> u32 FifoQueue \<Rightarrow> SlotPool" where
  "set_ring p r q =
     (let c = unat (sp_perCap p)
      in p\<lparr>sp_shards := (sp_shards p)[r := \<lparr>s_head = q_tail q, s_tail = q_head q\<rparr>],
           sp_ring := take (r * c) (sp_ring p) @ q_buffer q @ drop (Suc r * c) (sp_ring p)\<rparr>)"

definition pool_shape :: "nat \<Rightarrow> nat \<Rightarrow> SlotPool \<Rightarrow> bool" where
  "pool_shape s k p \<longleftrightarrow> s \<le> 4 \<and> s + k \<le> 31
     \<and> sp_shardCount p = 2 ^ s \<and> sp_shardMask p = mask s \<and> sp_perCap p = 2 ^ k \<and> sp_perMask p = mask k
     \<and> sp_capacity p = 2 ^ (s + k) \<and> length (sp_ring p) = 2 ^ (s + k) \<and> length (sp_shards p) = 2 ^ s"

definition home_ring :: "nat \<Rightarrow> nat \<Rightarrow> nat \<Rightarrow> u32 set" where
  "home_ring s k r = {i. unat i < 2 ^ (s + k) \<and> unat i mod 2 ^ s = r}"

definition pool_inv :: "nat \<Rightarrow> nat \<Rightarrow> SlotPool \<Rightarrow> bool" where
  "pool_inv s k p \<longleftrightarrow> pool_shape s k p
     \<and> (\<forall>r<2 ^ s. fifo_inv (ring_view p r) \<and> distinct (fifo_abs (ring_view p r))
                 \<and> set (fifo_abs (ring_view p r)) \<subseteq> home_ring s k r)"

definition free_slots :: "SlotPool \<Rightarrow> u32 set" where
  "free_slots p = (\<Union>r<length (sp_shards p). set (fifo_abs (ring_view p r)))"

lemma slice_update:
  assumes "i < c" and "(r + 1) * c \<le> length xs"
  shows "xs[r * c + i := v] = take (r * c) xs @ (take c (drop (r * c) xs))[i := v] @ drop (Suc r * c) xs"
proof -
  have l: "r * c + i < length xs" using assms by simp
  have "(take c (drop (r * c) xs))[i := v] = take c (drop (r * c) (xs[r * c + i := v]))"
    using assms l by (simp add: drop_update_swap take_update_swap)
  moreover have "drop (Suc r * c) (xs[r * c + i := v]) = drop (Suc r * c) xs"
    using assms(1) by (simp add: drop_update_cancel)
  moreover have "take (r * c) (xs[r * c + i := v]) = take (r * c) xs" by simp
  moreover have "ys = take (r * c) ys @ take c (drop (r * c) ys) @ drop (Suc r * c) ys" for ys :: "'a list"
    by (metis append_take_drop_id drop_drop mult_Suc)
  ultimately show ?thesis by metis
qed

lemma shape_words:
  assumes "pool_shape s k p"
  shows "unat (sp_perCap p) = 2 ^ k" "unat (sp_shardCount p) = 2 ^ s" "unat (sp_capacity p) = 2 ^ s * 2 ^ k"
    "length (sp_ring p) = 2 ^ s * 2 ^ k" "length (sp_shards p) = 2 ^ s"
proof -
  have e: "unat (2 ^ n :: u32) = 2 ^ n" if "n \<le> 31" for n using that by (simp add: unat_exp)
  then have "unat (2 ^ s * 2 ^ k :: u32) = 2 ^ s * 2 ^ k" if "s + k \<le> 31" using that e [of "s + k"] by (simp add: power_add)
  with e show "unat (sp_perCap p) = 2 ^ k" "unat (sp_shardCount p) = 2 ^ s" "unat (sp_capacity p) = 2 ^ s * 2 ^ k"
    "length (sp_ring p) = 2 ^ s * 2 ^ k" "length (sp_shards p) = 2 ^ s"
    using assms by (auto simp: pool_shape_def power_add)
qed

lemma ring_end:
  assumes "r < (m :: nat)" shows "(r + 1) * c \<le> m * (c :: nat)"
  using assms by (intro mult_right_mono) simp_all

lemma ring_fields [simp]:
  "q_capacity (ring_view p r) = sp_perCap p" "q_mask (ring_view p r) = sp_perMask p"
  "q_head (ring_view p r) = s_tail (sp_shards p ! r)" "q_tail (ring_view p r) = s_head (sp_shards p ! r)"
  by (simp_all add: ring_view_def)

lemma length_ring_view:
  assumes "pool_shape s k p" and "r < 2 ^ s"
  shows "length (q_buffer (ring_view p r)) = 2 ^ k"
proof -
  have "r * 2 ^ k + 2 ^ k \<le> 2 ^ s * 2 ^ k" using ring_end [OF assms(2), of "2 ^ k"] by simp
  then show ?thesis by (simp add: ring_view_def shape_words [OF assms(1)])
qed

lemma view_set_same:
  assumes "pool_shape s k p" and "r < 2 ^ s" and "length (q_buffer q) = 2 ^ k"
    and "q_capacity q = sp_perCap p" and "q_mask q = sp_perMask p"
  shows "ring_view (set_ring p r q) r = q"
proof -
  note w = shape_words [OF assms(1)]
  have "r * 2 ^ k \<le> 2 ^ s * 2 ^ k" using assms(2) by simp
  then have "take (2 ^ k) (drop (r * 2 ^ k) (take (r * 2 ^ k) (sp_ring p) @ q_buffer q @ drop (Suc r * 2 ^ k) (sp_ring p))) = q_buffer q"
    using assms(3) w(4) by simp
  then show ?thesis using assms(2,4,5) by (simp add: ring_view_def set_ring_def Let_def w)
qed

lemma view_set_other:
  assumes "pool_shape s k p" and "r < 2 ^ s" and "r' < 2 ^ s" and "r' \<noteq> r" and "length (q_buffer q) = 2 ^ k"
  shows "ring_view (set_ring p r q) r' = ring_view p r'"
proof -
  note w = shape_words [OF assms(1)]
  let ?c = "2 ^ k :: nat" and ?xs = "sp_ring p"
  let ?ys = "take (r * ?c) ?xs @ q_buffer q @ drop (Suc r * ?c) ?xs"
  have len: "r * ?c \<le> length ?xs" "Suc r * ?c \<le> length ?xs" using assms(2) w(4) ring_end [OF assms(2), of ?c] by simp_all
  have "take ?c (drop (r' * ?c) ?ys) = take ?c (drop (r' * ?c) ?xs)"
  proof (cases "r' < r")
    case True
    then have "(r' + 1) * ?c \<le> r * ?c" by (rule ring_end)
    then have a: "r' * ?c + ?c \<le> r * ?c" by simp
    then show ?thesis using len(1) by (simp add: min.absorb1 take_drop)
  next
    case False
    then have "(r + 1) * ?c \<le> r' * ?c" using assms(4) by (intro ring_end) simp
    then obtain d where d: "r' * ?c = Suc r * ?c + d" by (auto simp: le_iff_add)
    have "drop (Suc r * ?c + d) ?ys = drop d (drop (Suc r * ?c) ?ys)" by (simp only: drop_drop add.commute)
    also have "drop (Suc r * ?c) ?ys = drop (Suc r * ?c) ?xs" using len assms(5) by simp
    finally show ?thesis unfolding d by (simp add: add.commute)
  qed
  then show ?thesis using assms(4) by (simp add: ring_view_def set_ring_def Let_def w)
qed

lemma shape_set_ring:
  assumes "pool_shape s k p" and "r < 2 ^ s" and "length (q_buffer q) = 2 ^ k"
  shows "pool_shape s k (set_ring p r q)"
proof -
  note w = shape_words [OF assms(1)]
  have "r * 2 ^ k + (2 ^ k + (2 ^ s * 2 ^ k - (2 ^ k + r * 2 ^ k))) = (2 ^ s * 2 ^ k :: nat)"
    using ring_end [OF assms(2), of "2 ^ k"] by simp
  then show ?thesis using assms w
    by (simp add: pool_shape_def set_ring_def Let_def power_add min.absorb2)
qed

lemma ring_cell:
  assumes "pool_shape s k p" and "r < 2 ^ s"
  shows "sp_ring p ! (r * unat (sp_perCap p) + unat (pos AND sp_perMask p)) =
    q_buffer (ring_view p r) ! cell_at (ring_view p r) pos"
    and "unat (pos AND sp_perMask p) < 2 ^ k"
proof -
  note w = shape_words [OF assms(1)]
  show b: "unat (pos AND sp_perMask p) < 2 ^ k"
    using assms(1) by (simp add: pool_shape_def unat_and_mask)
  then have "r * 2 ^ k + unat (pos AND sp_perMask p) < 2 ^ s * 2 ^ k"
    using ring_end [OF assms(2), of "2 ^ k"] by simp
  moreover have "r * 2 ^ k \<le> 2 ^ s * 2 ^ k" using assms(2) by simp
  ultimately show "sp_ring p ! (r * unat (sp_perCap p) + unat (pos AND sp_perMask p)) =
    q_buffer (ring_view p r) ! cell_at (ring_view p r) pos"
    using b w by (simp add: ring_view_def cell_at_def)
qed

lemma TryAcquireFrom_pop:
  assumes sh: "pool_shape s k p" and r: "unat ring < 2 ^ s"
  shows "TryAcquireFrom ring p =
    (case Fifo_Pop (ring_view p (unat ring)) of None \<Rightarrow> None
     | Some (None, _) \<Rightarrow> Some (INVALID, p)
     | Some (Some i, q) \<Rightarrow> Some (i, set_ring p (unat ring) q))"
proof -
  let ?r = "unat ring"
  let ?v = "ring_view p ?r" and ?t = "s_tail (sp_shards p ! unat ring)"
  note cell = ring_cell [OF sh r, of ?t] and w = shape_words [OF sh]
  have upd: "(sp_ring p)[?r * 2 ^ k + unat (?t AND sp_perMask p) := v] =
      take (?r * 2 ^ k) (sp_ring p) @ (q_buffer ?v)[cell_at ?v ?t := v] @ drop (Suc ?r * 2 ^ k) (sp_ring p)" for v
    using slice_update [OF cell(2), of ?r "sp_ring p" v] ring_end [OF r, of "2 ^ k"] w
    by (simp add: ring_view_def cell_at_def)
  have "sp_perMask p + 1 = sp_perCap p" using sh by (simp add: pool_shape_def mask_eq_exp_minus_1)
  then have m: "?t + sp_perMask p + 1 = ?t + sp_perCap p" by (simp add: add.assoc)
  show ?thesis
    unfolding TryAcquireFrom_def Fifo_Pop_def Let_def ring_fields cell(1) seq_at_def m
    using w upd by (cases "q_buffer ?v ! cell_at ?v ?t"; cases "sp_shards p ! unat ring") (simp add: set_ring_def Let_def)
qed

lemma Release_push:
  assumes sh: "pool_shape s k p" and r: "unat (idx AND sp_shardMask p) < 2 ^ s"
    and push: "Fifo_Push (ring_view p (unat (idx AND sp_shardMask p))) idx = Some (True, q)"
  shows "SlotPool_Release idx p = Some (set_ring p (unat (idx AND sp_shardMask p)) q)"
proof -
  let ?r = "unat (idx AND sp_shardMask p)"
  let ?v = "ring_view p ?r" and ?t = "s_head (sp_shards p ! ?r)"
  note cell = ring_cell [OF sh r, of ?t] and w = shape_words [OF sh]
  have upd: "(sp_ring p)[?r * 2 ^ k + unat (?t AND sp_perMask p) := v] =
      take (?r * 2 ^ k) (sp_ring p) @ (q_buffer ?v)[cell_at ?v ?t := v] @ drop (Suc ?r * 2 ^ k) (sp_ring p)" for v
    using slice_update [OF cell(2), of ?r "sp_ring p" v] ring_end [OF r, of "2 ^ k"] w
    by (simp add: ring_view_def cell_at_def)
  show ?thesis
    using push w upd unfolding SlotPool_Release_def Fifo_Push_def Let_def ring_fields cell(1) seq_at_def
    by (cases "q_buffer ?v ! cell_at ?v ?t"; cases "sp_shards p ! ?r") (auto simp: set_ring_def Let_def split: if_splits)
qed

section \<open>Leasing\<close>

lemma mask_of_capacity:
  assumes "fifo_shape q" shows "q_mask q = q_capacity q - 1"
proof -
  obtain k where k: "k \<le> 31" "unat (q_capacity q) = 2 ^ k" "q_mask q = mask k"
    using assms by (auto simp: fifo_shape_def)
  then have "q_capacity q = 2 ^ k" by (simp add: word_unat_eq_iff unat_exp)
  then show ?thesis using k(3) by (simp add: mask_eq_exp_minus_1)
qed

lemma pool_set_ring:
  assumes inv: "pool_inv s k p" and r: "r < 2 ^ s" and q: "fifo_inv q" "q_capacity q = sp_perCap p"
    and d: "distinct (fifo_abs q)" and h: "set (fifo_abs q) \<subseteq> home_ring s k r"
  shows "pool_inv s k (set_ring p r q)"
    and "r' < 2 ^ s \<Longrightarrow> ring_view (set_ring p r q) r' = (if r' = r then q else ring_view p r')"
proof -
  have sh: "pool_shape s k p" using inv by (simp add: pool_inv_def)
  have qs: "fifo_shape q" using q(1) by (simp add: fifo_inv_def)
  have len: "length (q_buffer q) = 2 ^ k"
    using qs q(2) shape_words(1) [OF sh] by (simp add: fifo_shape_def)
  have m: "q_mask q = sp_perMask p"
    using mask_of_capacity [OF qs] q(2) sh by (simp add: pool_shape_def mask_eq_exp_minus_1)
  have v: "ring_view (set_ring p r q) r' = (if r' = r then q else ring_view p r')" if "r' < 2 ^ s" for r'
    using view_set_same [OF sh r len q(2) m] view_set_other [OF sh r that _ len] by simp
  then show "r' < 2 ^ s \<Longrightarrow> ring_view (set_ring p r q) r' = (if r' = r then q else ring_view p r')" .
  show "pool_inv s k (set_ring p r q)"
    using v inv q(1) d h shape_set_ring [OF sh r len] by (simp add: pool_inv_def)
qed

lemma free_slots_shape:
  "pool_shape s k p \<Longrightarrow> free_slots p = (\<Union>r<2 ^ s. set (fifo_abs (ring_view p r)))"
  by (simp add: free_slots_def shape_words)

lemma home_ring_disjoint: "i \<in> home_ring s k r \<Longrightarrow> i \<in> home_ring s k r' \<Longrightarrow> r = r'"
  by (simp add: home_ring_def)

lemma home_ring_valid:
  assumes "i \<in> home_ring s k r" and "s + k \<le> 31" shows "i \<noteq> INVALID"
proof -
  have "(2 :: nat) ^ (s + k) \<le> 2 ^ 31" using assms(2) by (intro power_increasing) simp_all
  then show ?thesis using assms(1) by (auto simp: home_ring_def)
qed

lemma free_set_ring_remove:
  assumes inv: "pool_inv s k p" and r: "r < 2 ^ s" and v: "fifo_abs (ring_view p r) = i # xs"
    and q: "fifo_inv q" "q_capacity q = sp_perCap p" "fifo_abs q = xs"
  shows "pool_inv s k (set_ring p r q) \<and> free_slots (set_ring p r q) = free_slots p - {i}"
proof -
  have R: "distinct (fifo_abs (ring_view p r')) \<and> set (fifo_abs (ring_view p r')) \<subseteq> home_ring s k r'" if "r' < 2 ^ s" for r'
    using inv that by (simp add: pool_inv_def)
  then have xs: "distinct xs" "set xs \<subseteq> home_ring s k r" "i \<notin> set xs" "i \<in> home_ring s k r" using v r by force+
  note s = pool_set_ring [OF inv r q(1,2)]
  have inv': "pool_inv s k (set_ring p r q)" using xs q(3) by (intro s(1)) simp_all
  have "set (fifo_abs (ring_view (set_ring p r q) r')) = set (fifo_abs (ring_view p r')) - {i}" if r': "r' < 2 ^ s" for r'
  proof (cases "r' = r")
    case True
    then show ?thesis using s(2) [OF _ _ r'] xs v q(3) by auto
  next
    case False
    then have "i \<notin> set (fifo_abs (ring_view p r'))" using R [OF r'] xs(4) home_ring_disjoint by blast
    then show ?thesis using False s(2) [OF _ _ r'] xs q(3) by simp
  qed
  then show ?thesis using inv' inv
    by (auto simp: pool_inv_def free_slots_shape)
qed

lemma TryAcquireFrom_some:
  assumes inv: "pool_inv s k p" and r: "unat ring < 2 ^ s" and v: "fifo_abs (ring_view p (unat ring)) \<noteq> []"
  shows "\<exists>i p'. TryAcquireFrom ring p = Some (i, p') \<and> i \<noteq> INVALID \<and> i \<in> free_slots p
    \<and> pool_inv s k p' \<and> free_slots p' = free_slots p - {i} \<and> sp_capacity p' = sp_capacity p"
proof -
  let ?v = "ring_view p (unat ring)"
  have sh: "pool_shape s k p" and fi: "fifo_inv ?v" using inv r by (simp_all add: pool_inv_def)
  have "0 < fifo_size ?v" using v by (metis length_fifo_abs length_greater_0_conv)
  then obtain i q where q: "Fifo_Pop ?v = Some (Some i, q)" "fifo_inv q" "fifo_abs ?v = i # fifo_abs q" "q_capacity q = sp_perCap p"
    using pop_nonempty [OF fi] by auto
  have mem: "i \<in> free_slots p" using q(3) r by (auto simp: free_slots_shape [OF sh] intro!: bexI [of _ "unat ring"])
  have "i \<in> home_ring s k (unat ring)" using inv r q(3) by (auto simp: pool_inv_def)
  then have "i \<noteq> INVALID" using home_ring_valid sh by (auto simp: pool_shape_def)
  then show ?thesis
    using free_set_ring_remove [OF inv r q(3,2,4) refl] TryAcquireFrom_pop [OF sh r] q(1) mem
    by (simp add: set_ring_def Let_def)
qed

lemma TryAcquireFrom_none:
  assumes inv: "pool_inv s k p" and r: "unat ring < 2 ^ s" and v: "fifo_abs (ring_view p (unat ring)) = []"
  shows "TryAcquireFrom ring p = Some (INVALID, p)"
proof -
  have sh: "pool_shape s k p" and fi: "fifo_inv (ring_view p (unat ring))" using inv r by (simp_all add: pool_inv_def)
  have "fifo_size (ring_view p (unat ring)) = 0" using v length_fifo_abs [of "ring_view p (unat ring)"] by simp
  then show ?thesis using TryAcquireFrom_pop [OF sh r] pop_empty [OF fi] by simp
qed

lemma hop_ring:
  assumes "pool_shape s k p"
  shows "unat ((start + of_nat h) AND sp_shardMask p) = (unat start + h) mod 2 ^ s"
  using cell_at_mod [of "\<lparr>q_buffer = [], q_capacity = 0, q_mask = mask s, q_head = 0, q_tail = 0\<rparr>" s start h] assms
  by (simp add: pool_shape_def cell_at_def)

definition acquired :: "nat \<Rightarrow> nat \<Rightarrow> SlotPool \<Rightarrow> (u32 \<times> SlotPool) option \<Rightarrow> bool" where
  "acquired s k p res \<longleftrightarrow>
     (if free_slots p = {} then res = Some (INVALID, p)
      else \<exists>i p'. res = Some (i, p') \<and> i \<in> free_slots p
        \<and> pool_inv s k p' \<and> free_slots p' = free_slots p - {i} \<and> sp_capacity p' = sp_capacity p)"

lemma acquire_hops_spec:
  assumes inv: "pool_inv s k p" and "hop + n = 2 ^ s"
    and "\<forall>h<hop. fifo_abs (ring_view p ((unat start + h) mod 2 ^ s)) = []"
  shows "acquired s k p (acquire_hops start (of_nat hop) n p)"
  using assms(2,3)
proof (induction n arbitrary: hop)
  case 0
  have sh: "pool_shape s k p" using inv by (simp add: pool_inv_def)
  have "fifo_abs (ring_view p r) = []" if "r < 2 ^ s" for r
    using hops_reach_all [OF that, of "unat start"] 0 by auto
  then have "free_slots p = {}" by (simp add: free_slots_shape [OF sh])
  then show ?case by (simp add: acquired_def)
next
  case (Suc n)
  have sh: "pool_shape s k p" using inv by (simp add: pool_inv_def)
  let ?ring = "(start + of_nat hop) AND sp_shardMask p"
  have u: "unat ?ring = (unat start + hop) mod 2 ^ s" by (rule hop_ring [OF sh])
  then have r: "unat ?ring < 2 ^ s" by simp
  show ?case
  proof (cases "fifo_abs (ring_view p (unat ?ring)) = []")
    case True
    have "\<forall>h<Suc hop. fifo_abs (ring_view p ((unat start + h) mod 2 ^ s)) = []"
      using True Suc.prems(2) u by (auto simp: less_Suc_eq)
    note IH = Suc.IH [OF _ this]
    have "acquire_hops start (of_nat hop) (Suc n) p = acquire_hops start (of_nat (Suc hop)) n p"
      using TryAcquireFrom_none [OF inv r True] by (simp add: add.commute)
    then show ?thesis using IH Suc.prems(1) by simp
  next
    case False
    then show ?thesis using TryAcquireFrom_some [OF inv r False] by (auto simp: acquired_def)
  qed
qed

lemma Acquire_spec:
  assumes "pool_inv s k p"
  shows "acquired s k p (SlotPool_Acquire probe p)"
proof -
  have "unat (sp_shardCount p) = 2 ^ s" using assms shape_words(2) [of s k p] by (simp add: pool_inv_def)
  then show ?thesis
    using acquire_hops_spec [OF assms, of 0 "2 ^ s" "ShardHint probe AND sp_shardMask p"] by (simp add: SlotPool_Acquire_def)
qed

lemma finite_u32_set [simp]: "finite (A :: u32 set)"
proof (rule finite_imageD [of unat])
  have "unat ` A \<subseteq> {..<4294967296}" using unat_u32_less by auto
  then show "finite (unat ` A)" by (rule finite_subset) simp
  show "inj_on unat A" by (auto intro: inj_onI simp: word_unat_eq_iff)
qed

lemma card_home_ring: "card (home_ring s k r) \<le> 2 ^ k"
proof -
  have "inj_on (\<lambda>i. unat i div 2 ^ s) (home_ring s k r)"
  proof (rule inj_onI)
    fix i j assume ij: "i \<in> home_ring s k r" "j \<in> home_ring s k r" "unat i div 2 ^ s = unat j div 2 ^ s"
    then have "unat i = unat j" by (metis (mono_tags, lifting) home_ring_def div_mult_mod_eq mem_Collect_eq)
    then show "i = j" by (simp add: word_unat_eq_iff)
  qed
  moreover have "(\<lambda>i. unat i div 2 ^ s) ` home_ring s k r \<subseteq> {..<2 ^ k}"
    by (auto simp: home_ring_def power_add less_mult_imp_div_less mult.commute)
  ultimately show ?thesis by (metis card_inj_on_le card_lessThan finite_lessThan)
qed

lemma Release_spec:
  assumes inv: "pool_inv s k p" and b: "unat i < 2 ^ (s + k)" and nf: "i \<notin> free_slots p"
  shows "\<exists>p'. SlotPool_Release i p = Some p' \<and> pool_inv s k p' \<and> free_slots p' = insert i (free_slots p)
    \<and> sp_capacity p' = sp_capacity p"
proof -
  have sh: "pool_shape s k p" using inv by (simp add: pool_inv_def)
  define r where "r = unat (i AND sp_shardMask p)"
  have ru: "r = unat i mod 2 ^ s" using sh by (simp add: r_def pool_shape_def unat_and_mask)
  then have r: "r < 2 ^ s" and home: "i \<in> home_ring s k r" using b by (simp_all add: home_ring_def)
  let ?v = "ring_view p r"
  have R: "fifo_inv ?v" "distinct (fifo_abs ?v)" "set (fifo_abs ?v) \<subseteq> home_ring s k r" using inv r by (simp_all add: pool_inv_def)
  have ni: "i \<notin> set (fifo_abs ?v)" using nf r by (auto simp: free_slots_shape [OF sh])
  have "fifo_size ?v = card (set (fifo_abs ?v))" using R(2) by (simp add: distinct_card)
  also have "\<dots> \<le> card (home_ring s k r - {i})" using R(3) ni by (intro card_mono) auto
  also have "\<dots> < card (home_ring s k r)" using home by (intro psubset_card_mono) auto
  finally have sz: "fifo_size ?v < unat (q_capacity ?v)" using card_home_ring [of s k r] shape_words(1) [OF sh] by simp
  obtain q where q: "Fifo_Push ?v i = Some (True, q)" "fifo_inv q" "fifo_abs q = fifo_abs ?v @ [i]" "q_capacity q = sp_perCap p"
    using push_space [OF R(1) sz, of i] by auto
  have s1: "pool_inv s k (set_ring p r q)" "\<And>r'. r' < 2 ^ s \<Longrightarrow> ring_view (set_ring p r q) r' = (if r' = r then q else ring_view p r')"
    using pool_set_ring [OF inv r q(2,4)] R(2,3) ni home q(3) by simp_all
  have "(\<Union>r'<2 ^ s. set (fifo_abs (ring_view (set_ring p r q) r'))) =
      (\<Union>r'<2 ^ s. set (fifo_abs (ring_view p r')) \<union> (if r' = r then {i} else {}))"
    by (intro SUP_cong refl) (simp add: s1(2) q(3))
  also have "\<dots> = insert i (\<Union>r'<2 ^ s. set (fifo_abs (ring_view p r')))" using r by (auto split: if_splits)
  finally have "(\<Union>r'<2 ^ s. set (fifo_abs (ring_view (set_ring p r q) r'))) = insert i (\<Union>r'<2 ^ s. set (fifo_abs (ring_view p r')))" .
  moreover have "pool_shape s k (set_ring p r q)" using s1(1) by (simp add: pool_inv_def)
  ultimately have "free_slots (set_ring p r q) = insert i (free_slots p)"
    by (simp only: free_slots_shape [OF sh] free_slots_shape)
  moreover have "SlotPool_Release i p = Some (set_ring p r q)"
    using Release_push [OF sh, of i q] r q(1) by (simp add: r_def)
  ultimately show ?thesis using s1(1) by (simp add: set_ring_def Let_def)
qed

lemma concat_slice:
  assumes "\<forall>i<n. length (f i) = c" and "r < n"
  shows "take c (drop (r * c) (concat (map f [0..<n]))) = f r"
  using assms
proof (induction n)
  case (Suc n)
  have len: "length (concat (map f [0..<m])) = m * c" if "\<forall>i<m. length (f i) = c" for m
    using that by (induction m) auto
  show ?case
  proof (cases "r = n")
    case True
    then show ?thesis using Suc.prems len [of n] by simp
  next
    case False
    then have r: "r < n" using Suc.prems by simp
    then have "r * c + c \<le> n * c" using ring_end [OF r, of c] by simp
    then show ?thesis using Suc r len [of n] by simp
  qed
qed simp

lemma ring_start:
  assumes "r < 2 ^ s" and "s + k \<le> 31" and "i < 2 ^ k"
  shows "unat (of_nat r + of_nat i * 2 ^ s :: u32) = r + i * 2 ^ s" "r + i * 2 ^ s < 2 ^ (s + k)"
proof -
  have "(i + 1) * 2 ^ s \<le> 2 ^ k * 2 ^ s" by (rule ring_end [OF assms(3)])
  then show lt: "r + i * 2 ^ s < 2 ^ (s + k)" using assms(1) by (simp add: power_add mult.commute)
  have "(2 :: nat) ^ (s + k) \<le> 2 ^ 31" using assms(2) by (intro power_increasing) simp_all
  then have "unat (of_nat (r + i * 2 ^ s) :: u32) = r + i * 2 ^ s"
    using lt by (simp add: unat_of_nat del: of_nat_add of_nat_mult)
  then show "unat (of_nat r + of_nat i * 2 ^ s :: u32) = r + i * 2 ^ s" by simp
qed

lemma Init_view:
  assumes v: "v = \<lparr>q_buffer = fill_ring (2 ^ s) (2 ^ k) r, q_capacity = 2 ^ k, q_mask = mask k, q_head = 0, q_tail = 2 ^ k\<rparr>"
    and r: "r < 2 ^ s" and sk: "s + k \<le> 31"
  shows "fifo_inv v \<and> distinct (fifo_abs v) \<and> set (fifo_abs v) = home_ring s k r"
proof -
  have k: "k \<le> 31" "unat (2 ^ k :: u32) = 2 ^ k" using sk by (simp_all add: unat_exp)
  have sh: "fifo_shape v" using k by (auto simp: fifo_shape_def v fill_ring_def)
  have c: "cell_at v (of_nat i) = i" if "i < 2 ^ k" for i
    using that cell_at_mod [OF _ k(1), of v 0 i] by (simp add: v)
  have "seq_at v (of_nat i) = of_nat i + 1" if "i < 2 ^ k" for i
    using that k by (simp add: seq_at_def c) (simp add: v fill_ring_def)
  then have inv: "fifo_inv v" using sh k by (simp add: fifo_inv_def) (simp add: v fifo_size_def)
  have "fifo_size v = 2 ^ k" by (simp add: v fifo_size_def k)
  then have a: "fifo_abs v = map (\<lambda>i. of_nat r + of_nat i * 2 ^ s) [0..<2 ^ k]"
    using c k by (auto simp: fifo_abs_def v fill_ring_def intro!: map_cong)
  have "inj_on (\<lambda>i. of_nat r + of_nat i * 2 ^ s :: u32) {0..<2 ^ k}"
  proof (rule inj_onI)
    fix i j assume ij: "i \<in> {0..<2 ^ k}" "j \<in> {0..<2 ^ k}" "of_nat r + of_nat i * 2 ^ s = (of_nat r + of_nat j * 2 ^ s :: u32)"
    then have "r + i * 2 ^ s = r + j * 2 ^ s" using ring_start(1) [OF r sk, of i] ring_start(1) [OF r sk, of j] by (metis atLeastLessThan_iff)
    then show "i = j" by simp
  qed
  then have d: "distinct (fifo_abs v)" by (simp add: a distinct_map)
  have "set (fifo_abs v) = home_ring s k r"
  proof
    show "set (fifo_abs v) \<subseteq> home_ring s k r" using ring_start [OF r sk] r by (auto simp: a home_ring_def)
    show "home_ring s k r \<subseteq> set (fifo_abs v)"
    proof
      fix x assume x: "x \<in> home_ring s k r"
      let ?i = "unat x div 2 ^ s"
      have i: "?i < 2 ^ k" using x by (simp add: home_ring_def power_add less_mult_imp_div_less mult.commute)
      have "unat x mod 2 ^ s = r" using x by (simp add: home_ring_def)
      then have "unat x = r + ?i * 2 ^ s" by (metis mod_div_mult_eq)
      then have "x = of_nat r + of_nat ?i * 2 ^ s" using ring_start(1) [OF r sk i] by (simp only: word_unat_eq_iff)
      then show "x \<in> set (fifo_abs v)" using i by (auto simp: a)
    qed
  qed
  with inv d show ?thesis by simp
qed

lemma Init_spec:
  assumes "unat capacity \<le> 2147483648"
  shows "\<exists>p s k. SlotPool_Init capacity stride = Some p \<and> pool_inv s k p
    \<and> free_slots p = {i. unat i < unat (NextPowerOfTwo capacity)} \<and> unat (NextPowerOfTwo capacity) = 2 ^ (s + k)"
proof -
  obtain m where m: "m \<le> 31" "unat (NextPowerOfTwo capacity) = 2 ^ m"
    using NextPowerOfTwo_power [of capacity] assms by auto
  then have cap: "NextPowerOfTwo capacity = 2 ^ m" by (simp add: word_unat_eq_iff unat_exp)
  define s where "s = min m 4"
  define k where "k = m - s"
  have sk: "s + k = m" "s + k \<le> 31" "s \<le> 4" using m(1) by (simp_all add: s_def k_def)
  have us: "unat (2 ^ s :: u32) = 2 ^ s" "unat (2 ^ k :: u32) = 2 ^ k" using sk by (simp_all add: unat_exp)
  have "m < 4 \<longleftrightarrow> (2 :: nat) ^ m < 2 ^ 4" using power_strict_increasing_iff [of "2 :: nat" m 4] by simp
  then have sc: "(if NextPowerOfTwo capacity < SHARD_COUNT then NextPowerOfTwo capacity else SHARD_COUNT) = 2 ^ s"
    using m(2) cap by (auto simp: word_less_nat_alt s_def min_def)
  have nz: "(2 ^ s :: u32) \<noteq> 0" by (metis us(1) unsigned_0 power_not_zero zero_neq_numeral)
  have um: "unat (2 ^ m :: u32) = 2 ^ m" using m(2) cap by simp
  have pm: "(2 :: nat) ^ m = 2 ^ k * 2 ^ s" by (simp only: sk(1) [symmetric] power_add mult.commute)
  have "unat ((2 ^ m :: u32) div 2 ^ s) = unat (2 ^ k :: u32)" unfolding unat_div um us pm by simp
  then have pc: "(2 ^ m :: u32) div 2 ^ s = 2 ^ k" by (simp only: word_unat_eq_iff)
  let ?p = "\<lparr>sp_memory = unat (2 ^ m * stride), sp_stride = stride, sp_capacity = 2 ^ m,
      sp_ring = concat (map (fill_ring (2 ^ s) (2 ^ k)) [0..<2 ^ s]),
      sp_shards = replicate (2 ^ s) \<lparr>s_head = 2 ^ k, s_tail = 0\<rparr>,
      sp_shardCount = 2 ^ s, sp_shardMask = 2 ^ s - 1, sp_perCap = 2 ^ k, sp_perMask = 2 ^ k - 1,
      sp_locks = replicate (2 ^ m) 0\<rparr>"
  have init: "SlotPool_Init capacity stride = Some ?p"
    using sc nz pc us m(2) unfolding SlotPool_Init_def Let_def by (simp add: cap)
  have len: "length (fill_ring (2 ^ s) (2 ^ k) r) = 2 ^ k" for r by (simp add: fill_ring_def us)
  have "length (sp_ring ?p) = 2 ^ (s + k)"
    by (simp add: length_concat len comp_def sum_list_triv power_add)
  then have sh: "pool_shape s k ?p" using sk by (simp add: pool_shape_def mask_eq_exp_minus_1)
  have v: "ring_view ?p r = \<lparr>q_buffer = fill_ring (2 ^ s) (2 ^ k) r, q_capacity = 2 ^ k, q_mask = mask k, q_head = 0, q_tail = 2 ^ k\<rparr>"
    if "r < 2 ^ s" for r
    using that concat_slice [of "2 ^ s" "fill_ring (2 ^ s) (2 ^ k)" "2 ^ k" r] len us
    by (simp add: ring_view_def mask_eq_exp_minus_1)
  have R: "fifo_inv (ring_view ?p r) \<and> distinct (fifo_abs (ring_view ?p r)) \<and> set (fifo_abs (ring_view ?p r)) = home_ring s k r"
    if "r < 2 ^ s" for r by (rule Init_view [OF v [OF that] that sk(2)])
  then have inv: "pool_inv s k ?p" using sh by (auto simp: pool_inv_def)
  have "free_slots ?p = (\<Union>r<2 ^ s. home_ring s k r)"
    unfolding free_slots_shape [OF sh] using R by (intro SUP_cong refl) simp
  also have "\<dots> = {i. unat i < 2 ^ (s + k)}" by (auto simp: home_ring_def)
  finally have "free_slots ?p = {i. unat i < unat (NextPowerOfTwo capacity)}" using m(2) sk(1) by simp
  then show ?thesis using init inv m(2) sk(1) by blast
qed

section \<open>The contract of a pool\<close>

locale slot_leases =
  fixes inv :: "'p \<Rightarrow> bool" and slots :: "'p \<Rightarrow> u32 set" and free :: "'p \<Rightarrow> u32 set"
    and eligible :: "'h \<Rightarrow> 'p \<Rightarrow> u32 set" and acquire :: "'h \<Rightarrow> 'p \<Rightarrow> (u32 \<times> 'p) option" and release :: "u32 \<Rightarrow> 'p \<Rightarrow> 'p option"
  assumes free_sub: "inv p \<Longrightarrow> free p \<subseteq> slots p"
    and no_invalid: "inv p \<Longrightarrow> INVALID \<notin> slots p"
    and acquire_none: "inv p \<Longrightarrow> free p \<inter> eligible h p = {} \<Longrightarrow> acquire h p = Some (INVALID, p)"
    and acquire_some: "inv p \<Longrightarrow> free p \<inter> eligible h p \<noteq> {} \<Longrightarrow>
      \<exists>i p'. acquire h p = Some (i, p') \<and> i \<in> free p \<and> i \<in> eligible h p \<and> inv p' \<and> slots p' = slots p \<and> free p' = free p - {i}"
    and release_some: "inv p \<Longrightarrow> i \<in> slots p \<Longrightarrow> i \<notin> free p \<Longrightarrow>
      \<exists>p'. release i p = Some p' \<and> inv p' \<and> slots p' = slots p \<and> free p' = insert i (free p)"
begin

definition partition_inv :: "u32 set \<Rightarrow> 'p \<times> u32 list \<Rightarrow> bool" where
  "partition_inv S st \<longleftrightarrow> inv (fst st) \<and> slots (fst st) = S \<and> distinct (snd st)
     \<and> set (snd st) \<union> free (fst st) = S \<and> set (snd st) \<inter> free (fst st) = {}"

lemma take_step:
  assumes "partition_inv S (p, held)"
  shows "\<exists>i p'. acquire h p = Some (i, p') \<and> i \<notin> set held \<and> (i = INVALID \<longleftrightarrow> S \<inter> eligible h p \<subseteq> set held)
    \<and> (i \<noteq> INVALID \<longrightarrow> i \<in> eligible h p)
    \<and> partition_inv S (p', if i = INVALID then held else held @ [i])"
proof -
  have P: "inv p" "slots p = S" "set held \<union> free p = S" "set held \<inter> free p = {}" "distinct held"
    using assms by (auto simp: partition_inv_def)
  have ni: "INVALID \<notin> S" using no_invalid [OF P(1)] P(2) by simp
  show ?thesis
  proof (cases "free p \<inter> eligible h p = {}")
    case True
    then show ?thesis using assms acquire_none [OF P(1)] ni P(3) by auto
  next
    case False
    then obtain i p' where i: "acquire h p = Some (i, p')" "i \<in> free p" "i \<in> eligible h p" "inv p'" "slots p' = slots p" "free p' = free p - {i}"
      using acquire_some [OF P(1) False] by blast
    moreover have "i \<noteq> INVALID" "\<not> S \<inter> eligible h p \<subseteq> set held" "i \<notin> set held" using ni P(3,4) i(2,3) by auto
    ultimately show ?thesis using P by (auto simp: partition_inv_def)
  qed
qed

lemma give_step:
  assumes P: "partition_inv S (p, held)" and n: "n < length held"
  shows "\<exists>p'. release (held ! n) p = Some p' \<and> partition_inv S (p', take n held @ drop (Suc n) held)"
proof -
  let ?i = "held ! n" and ?rest = "take n held @ drop (Suc n) held"
  have h: "held = take n held @ ?i # drop (Suc n) held" using n by (rule id_take_nth_drop)
  have "?i \<in> set held" using n by simp
  then have i: "?i \<in> slots p" "?i \<notin> free p" "inv p" using P by (auto simp: partition_inv_def)
  obtain p' where p': "release ?i p = Some p'" "inv p'" "slots p' = slots p" "free p' = insert ?i (free p)"
    using release_some [OF i(3,1,2)] by blast
  have "distinct (take n held @ ?i # drop (Suc n) held)" using P h by (simp add: partition_inv_def)
  then have d: "distinct ?rest" "?i \<notin> set ?rest" by auto
  have "set held = insert ?i (set ?rest)" by (subst h) auto
  then show ?thesis using p' d P by (auto simp: partition_inv_def)
qed

lemma run_partition:
  assumes "partition_inv S st"
  shows "\<exists>rs st'. run_ops (lease_step acquire release) st ops = Some (rs, st') \<and> partition_inv S st'"
  using assms
proof (induction ops arbitrary: st)
  case (Cons op ops)
  obtain p held where st: "st = (p, held)" by (cases st)
  have "\<exists>r st1. lease_step acquire release st op = Some (r, st1) \<and> partition_inv S st1"
  proof (cases op)
    case (Take h)
    then show ?thesis using take_step [of S p held h] Cons.prems by (auto simp: st)
  next
    case (Give n)
    then show ?thesis using give_step [of S p held n] Cons.prems by (auto simp: st)
  qed
  then obtain r st1 where "lease_step acquire release st op = Some (r, st1)" "partition_inv S st1" by blast
  then show ?case using Cons.IH [of st1] by auto
qed simp

end

interpretation slot_pool: slot_leases "\<lambda>p. \<exists>s k. pool_inv s k p" "\<lambda>p. {i. i < sp_capacity p}" free_slots
  "\<lambda>_ _. UNIV" SlotPool_Acquire SlotPool_Release
proof (unfold_locales, goal_cases)
  case (1 p)
  then obtain s k where p: "pool_inv s k p" by blast
  then have sh: "pool_shape s k p" by (simp add: pool_inv_def)
  have "set (fifo_abs (ring_view p r)) \<subseteq> {i. i < sp_capacity p}" if "r < 2 ^ s" for r
  proof -
    have "set (fifo_abs (ring_view p r)) \<subseteq> home_ring s k r" using p that by (simp add: pool_inv_def)
    also have "\<dots> \<subseteq> {i. i < sp_capacity p}"
      using shape_words(3) [OF sh] by (auto simp: home_ring_def word_less_nat_alt power_add)
    finally show ?thesis .
  qed
  then show ?case unfolding free_slots_shape [OF sh] by blast
next
  case (2 p)
  then obtain s k where p: "pool_shape s k p" by (auto simp: pool_inv_def)
  then have "s + k \<le> 31" by (simp add: pool_shape_def)
  then have "(2 :: nat) ^ (s + k) \<le> 2 ^ 31" by (intro power_increasing) simp_all
  then have "unat (sp_capacity p) \<le> 2147483648" using shape_words(3) [OF p] by (simp add: power_add)
  then show ?case by (auto simp: word_less_nat_alt)
next
  case (3 p probe)
  then show ?case using Acquire_spec [of _ _ p probe] by (auto simp: acquired_def)
next
  case (4 p probe)
  then obtain s k where "pool_inv s k p" by blast
  then show ?case using Acquire_spec [of s k p probe] 4(2) by (auto simp: acquired_def)
next
  case (5 p i)
  then obtain s k where p: "pool_inv s k p" by blast
  then have "unat i < 2 ^ (s + k)"
    using 5(2) shape_words(3) [of s k p] by (simp add: pool_inv_def word_less_nat_alt power_add)
  then obtain p' where "SlotPool_Release i p = Some p'" "pool_inv s k p'" "free_slots p' = insert i (free_slots p)"
    "sp_capacity p' = sp_capacity p" using Release_spec [OF p _ 5(3)] by blast
  then show ?case by (intro exI [of _ p']) auto
qed

lemma card_below:
  fixes c :: u32 shows "card {i. i < c} = unat c"
proof -
  have "unat ` {i. i < c} = {..<unat c}"
  proof
    show "{..<unat c} \<subseteq> unat ` {i. i < c}"
    proof
      fix j assume "j \<in> {..<unat c}"
      then have "unat (of_nat j :: u32) = j" using unat_u32_less [of c] by (simp add: unat_of_nat)
      then show "j \<in> unat ` {i. i < c}" using \<open>j \<in> {..<unat c}\<close>
        by (intro image_eqI [of _ _ "of_nat j"]) (simp_all add: word_less_nat_alt)
    qed
  qed (auto simp: word_less_nat_alt)
  moreover have "inj_on unat {i. i < c}" by (auto intro: inj_onI simp: word_unat_eq_iff)
  ultimately show ?thesis using card_image by fastforce
qed

text \<open>
  C13: A pool initialised for at most \<open>2\<^sup>3\<^sup>1\<close> slots never leases a slot twice, never loses one and
  never blocks. After any sequence of acquires, by threads on any stacks, and of releases of
  slots that are held, the slots held are distinct and below the rounded capacity, and the next
  acquire gives a slot that nobody holds, failing exactly when all of them are held.\<close>

theorem pool_leases_are_exclusive:
  assumes "unat capacity \<le> 2147483648"
  shows "\<exists>p rs p' held. SlotPool_Init capacity stride = Some p
    \<and> run_ops (lease_step SlotPool_Acquire SlotPool_Release) (p, []) ops = Some (rs, (p', held))
    \<and> distinct held \<and> set held \<subseteq> {i. i < NextPowerOfTwo capacity}
    \<and> (\<forall>probe. \<exists>i p''. SlotPool_Acquire probe p' = Some (i, p'') \<and> i \<notin> set held
          \<and> (i = INVALID \<longleftrightarrow> length held = unat (NextPowerOfTwo capacity)))"
proof -
  define S where "S = {i. i < NextPowerOfTwo capacity}"
  obtain p s k where p: "SlotPool_Init capacity stride = Some p" "pool_inv s k p"
    "free_slots p = {i. unat i < unat (NextPowerOfTwo capacity)}" "unat (NextPowerOfTwo capacity) = 2 ^ (s + k)"
    using Init_spec [OF assms, of stride] by blast
  have cap: "sp_capacity p = NextPowerOfTwo capacity"
    using p(1) by (auto simp: SlotPool_Init_def Let_def split: if_splits)
  moreover have "free_slots p = S" using p(3) by (simp add: S_def word_less_nat_alt)
  ultimately have "slot_pool.partition_inv S (p, [])"
    unfolding slot_pool.partition_inv_def using p(2) S_def by simp blast
  then obtain rs p' held where r: "run_ops (lease_step SlotPool_Acquire SlotPool_Release) (p, []) ops = Some (rs, (p', held))"
    "slot_pool.partition_inv S (p', held)"
    using slot_pool.run_partition [of S "(p, [])" ops] by (auto simp del: run_ops.simps)
  have H: "distinct held" "set held \<subseteq> S" using r(2) by (auto simp: slot_pool.partition_inv_def)
  have full: "set held = S \<longleftrightarrow> length held = unat (NextPowerOfTwo capacity)"
    using H card_below [of "NextPowerOfTwo capacity"] distinct_card [OF H(1)]
    by (metis S_def card_subset_eq finite_u32_set)
  have acq: "\<forall>probe. \<exists>i p''. SlotPool_Acquire probe p' = Some (i, p'') \<and> i \<notin> set held
      \<and> (i = INVALID \<longleftrightarrow> length held = unat (NextPowerOfTwo capacity))"
  proof
    fix probe
    obtain i p'' where i: "SlotPool_Acquire probe p' = Some (i, p'')" "i \<notin> set held" "i = INVALID \<longleftrightarrow> S \<inter> UNIV \<subseteq> set held"
      using slot_pool.take_step [OF r(2), of probe] by blast
    moreover have "S \<inter> UNIV \<subseteq> set held \<longleftrightarrow> length held = unat (NextPowerOfTwo capacity)"
      unfolding full [symmetric] using H(2) by blast
    ultimately show "\<exists>i p''. SlotPool_Acquire probe p' = Some (i, p'') \<and> i \<notin> set held
      \<and> (i = INVALID \<longleftrightarrow> length held = unat (NextPowerOfTwo capacity))" by (intro exI [of _ i] exI [of _ p'']) simp
  qed
  show ?thesis by (intro exI conjI) (fact p(1), fact r(1), fact H(1), fact H(2) [unfolded S_def], fact acq)
qed

theorem pool_leases_are_exclusive_witness:
  "\<exists>p rs p' held. SlotPool_Init 3 64 = Some p
    \<and> run_ops (lease_step SlotPool_Acquire SlotPool_Release) (p, [])
        [Take 4096, Take 64, Give 0, Take 128, Take 4096, Take 0] = Some (rs, (p', held))
    \<and> distinct held \<and> set held \<subseteq> {i. i < 4}"
proof -
  have "NextPowerOfTwo 3 = 4" by (simp add: NextPowerOfTwo_def smear_step_def Let_def)
  then show ?thesis
    using pool_leases_are_exclusive [of 3 64 "[Take 4096, Take 64, Give 0, Take 128, Take 4096, Take 0]"] by (simp only:) auto
qed

section \<open>The lock word\<close>

inductive_cases lock_stepE: "lock_step l l'"

lemma lock_step_inv:
  assumes "lock_step l l'" and "lock_inv l"
  shows "lock_inv l'"
  using assms
proof cases
  case (read_lock w t)
  then have "l_writer l = None" "l_word l = of_nat (size (l_readers l))" "size (l_readers l) \<le> unat MAX_READERS"
    using assms(2) by (auto simp: lock_inv_def ReadLock_def split: option.splits if_splits)
  moreover from this have "unat (l_word l) = size (l_readers l)" by (simp add: unat_of_nat)
  ultimately show ?thesis using read_lock
    by (auto simp: lock_inv_def ReadLock_def word_le_nat_alt split: if_splits)
next
  case (write_lock w t)
  then have "l_writer l = None" "l_word l = of_nat (size (l_readers l))" "size (l_readers l) \<le> unat MAX_READERS"
    using assms(2) by (auto simp: lock_inv_def WriteLock_def split: option.splits if_splits)
  moreover from this have "unat (l_word l) = size (l_readers l)" by (simp add: unat_of_nat)
  ultimately show ?thesis using write_lock by (auto simp: lock_inv_def WriteLock_def split: if_splits)
next
  case (unlock_read t)
  then have "l_writer l = None" using assms(2) by (auto simp: lock_inv_def split: option.splits)
  then show ?thesis using unlock_read assms(2)
    by (auto simp: lock_inv_def UnlockRead_def size_Diff_singleton dest!: multi_member_split)
qed (use assms(2) in \<open>auto simp: lock_inv_def UnlockWrite_def DowngradeLock_def\<close>)

lemma lock_reachable_inv: "lock_reachable l \<Longrightarrow> lock_inv l"
  by (induction rule: lock_reachable.induct) (auto simp: lock_inv_def [of "\<lparr>l_word = 0, l_readers = {#}, l_writer = None\<rparr>"] intro: lock_step_inv)

text \<open>
  C14: Over every interleaving of threads that lock, unlock and downgrade a slot, a writer is alone;
  a write lock can be taken exactly when nobody holds the slot, so no unlock is lost; and a read
  lock exactly when there is no writer and the reader count is below its limit, so the count
  never runs into the value that means write-locked.\<close>

theorem slot_lock_excludes:
  assumes "lock_reachable l"
  shows "(l_writer l \<noteq> None \<longrightarrow> l_readers l = {#})
    \<and> (WriteLock (l_word l) \<noteq> None \<longleftrightarrow> l_writer l = None \<and> l_readers l = {#})
    \<and> (ReadLock (l_word l) \<noteq> None \<longleftrightarrow> l_writer l = None \<and> size (l_readers l) < unat MAX_READERS)"
proof (cases "l_writer l")
  case None
  then have w: "l_word l = of_nat (size (l_readers l))" "size (l_readers l) \<le> unat MAX_READERS"
    using lock_reachable_inv [OF assms] by (auto simp: lock_inv_def)
  then have u: "unat (l_word l) = size (l_readers l)" by (simp add: unat_of_nat)
  then have "l_word l = 0 \<longleftrightarrow> l_readers l = {#}" by (metis size_eq_0_iff_empty unat_eq_zero)
  moreover have "(MAX_READERS \<le> l_word l) = (\<not> size (l_readers l) < unat MAX_READERS)"
    unfolding word_le_nat_alt u by (simp add: not_less)
  moreover have "l_word l = WRITE_LOCKED \<Longrightarrow> MAX_READERS \<le> l_word l" by simp
  ultimately show ?thesis using None by (auto simp: ReadLock_def WriteLock_def)
next
  case (Some t)
  then show ?thesis using lock_reachable_inv [OF assms] by (auto simp: lock_inv_def ReadLock_def WriteLock_def)
qed

theorem slot_lock_excludes_witness:
  "\<exists>l. lock_reachable l \<and> l_writer l = Some (2 :: nat) \<and> l_readers l = {#} \<and> ReadLock (l_word l) = None"
proof -
  let ?l = "\<lparr>l_word = WRITE_LOCKED, l_readers = {#}, l_writer = Some (2 :: nat)\<rparr>"
  have "lock_step \<lparr>l_word = 0, l_readers = {#}, l_writer = None\<rparr> ?l"
    using lock_step.write_lock [of "\<lparr>l_word = 0, l_readers = {#}, l_writer = None\<rparr>" WRITE_LOCKED "2 :: nat"]
    by (simp add: WriteLock_def)
  then have "lock_reachable ?l" by (rule lock_more [OF lock_start])
  then show ?thesis using slot_lock_excludes [of ?l] by (intro exI [of _ ?l]) auto
qed

end
