(* ===== verification/Split_Assoc_Pool.thy ===== *)
theory Split_Assoc_Pool
  imports Slot_Pool
begin

text \<open>
  The two association pools behind one index space, class \<open>SplitAssocPool\<close> of
  \<^verbatim>\<open>flow_table.h\<close>. An index below the standard count belongs to the first pool, the others are
  offset into the second. The class offsets by the counts it was given while each pool rounds its
  own count up to a power of two, so the index space is sound for powers of two, where it is
  an instance of \<open>slot_leases\<close>, and not for other counts.
\<close>

unbundle bit_operations_syntax

section \<open>Definitions\<close>

record SplitAssocPool =
  sa_standard :: SlotPool
  sa_bulk :: SlotPool
  sa_standardCount :: u32
  sa_bulkCount :: u32

definition no_pool :: SlotPool where
  "no_pool = \<lparr>sp_memory = 0, sp_stride = 0, sp_capacity = 0, sp_ring = [], sp_shards = [],
     sp_shardCount = 0, sp_shardMask = 0, sp_perCap = 0, sp_perMask = 0, sp_locks = []\<rparr>"

definition Split_Init :: "u32 \<Rightarrow> u32 \<Rightarrow> u32 \<Rightarrow> u32 \<Rightarrow> SplitAssocPool option" where
  "Split_Init standardCount standardStride bulkCount bulkStride =
     (case (if 0 < standardCount then SlotPool_Init standardCount standardStride else Some no_pool) of
        None \<Rightarrow> None
      | Some standard \<Rightarrow>
          (case (if 0 < bulkCount then SlotPool_Init bulkCount bulkStride else Some no_pool) of
             None \<Rightarrow> None
           | Some bulk \<Rightarrow> Some \<lparr>sa_standard = standard, sa_bulk = bulk,
                               sa_standardCount = standardCount, sa_bulkCount = bulkCount\<rparr>))"

definition Split_IsBulk :: "u32 \<Rightarrow> SplitAssocPool \<Rightarrow> bool" where
  "Split_IsBulk slot sa \<longleftrightarrow> sa_standardCount sa \<le> slot"

definition Split_Holds :: "u32 \<Rightarrow> SplitAssocPool \<Rightarrow> bool" where
  "Split_Holds slot sa \<longleftrightarrow> slot < sa_standardCount sa + sa_bulkCount sa"

definition Split_GetCapacity :: "SplitAssocPool \<Rightarrow> u32" where
  "Split_GetCapacity sa = sa_standardCount sa + sa_bulkCount sa"

definition Split_Acquire :: "bool \<times> u64 \<Rightarrow> SplitAssocPool \<Rightarrow> (u32 \<times> SplitAssocPool) option" where
  "Split_Acquire = (\<lambda>(wantsBulk, probe) sa.
     if wantsBulk then
       if sa_bulkCount sa = 0 then Some (INVALID, sa)
       else (case SlotPool_Acquire probe (sa_bulk sa) of None \<Rightarrow> None
             | Some (raw, p) \<Rightarrow> Some (if raw = INVALID then raw else raw + sa_standardCount sa, sa\<lparr>sa_bulk := p\<rparr>))
     else if sa_standardCount sa = 0 then Some (INVALID, sa)
     else (case SlotPool_Acquire probe (sa_standard sa) of None \<Rightarrow> None
           | Some (raw, p) \<Rightarrow> Some (raw, sa\<lparr>sa_standard := p\<rparr>)))"

text \<open>Every other call forwards to the pool the index falls in, and does nothing past both.\<close>

definition forward :: "(u32 \<Rightarrow> SlotPool \<Rightarrow> SlotPool option) \<Rightarrow> u32 \<Rightarrow> SplitAssocPool \<Rightarrow> SplitAssocPool option" where
  "forward op slot sa =
     (if \<not> Split_Holds slot sa then Some sa
      else if Split_IsBulk slot sa
      then map_option (\<lambda>p. sa\<lparr>sa_bulk := p\<rparr>) (op (slot - sa_standardCount sa) (sa_bulk sa))
      else map_option (\<lambda>p. sa\<lparr>sa_standard := p\<rparr>) (op slot (sa_standard sa)))"

definition Split_Release :: "u32 \<Rightarrow> SplitAssocPool \<Rightarrow> SplitAssocPool option" where
  "Split_Release = forward SlotPool_Release"

definition Split_ReadLock :: "u32 \<Rightarrow> SplitAssocPool \<Rightarrow> SplitAssocPool option" where
  "Split_ReadLock = forward SlotPool_ReadLock"

definition Split_WriteLock :: "u32 \<Rightarrow> SplitAssocPool \<Rightarrow> SplitAssocPool option" where
  "Split_WriteLock = forward SlotPool_WriteLock"

definition Split_UnlockRead :: "u32 \<Rightarrow> SplitAssocPool \<Rightarrow> SplitAssocPool option" where
  "Split_UnlockRead = forward (\<lambda>idx p. Some (SlotPool_UnlockRead idx p))"

definition Split_UnlockWrite :: "u32 \<Rightarrow> SplitAssocPool \<Rightarrow> SplitAssocPool option" where
  "Split_UnlockWrite = forward (\<lambda>idx p. Some (SlotPool_UnlockWrite idx p))"

definition Split_Shutdown :: "SplitAssocPool \<Rightarrow> SplitAssocPool" where
  "Split_Shutdown sa = \<lparr>sa_standard = SlotPool_Shutdown (sa_standard sa), sa_bulk = SlotPool_Shutdown (sa_bulk sa),
     sa_standardCount = 0, sa_bulkCount = 0\<rparr>"

section \<open>Power-of-two counts\<close>

definition split_inv :: "SplitAssocPool \<Rightarrow> bool" where
  "split_inv sa \<longleftrightarrow> (\<exists>s k. pool_inv s k (sa_standard sa)) \<and> (\<exists>s k. pool_inv s k (sa_bulk sa))
     \<and> sa_standardCount sa = sp_capacity (sa_standard sa) \<and> sa_bulkCount sa = sp_capacity (sa_bulk sa)
     \<and> unat (sa_standardCount sa) + unat (sa_bulkCount sa) < 4294967296"

definition split_free :: "SplitAssocPool \<Rightarrow> u32 set" where
  "split_free sa = free_slots (sa_standard sa) \<union> (\<lambda>i. i + sa_standardCount sa) ` free_slots (sa_bulk sa)"

definition split_eligible :: "bool \<times> u64 \<Rightarrow> SplitAssocPool \<Rightarrow> u32 set" where
  "split_eligible h sa = {i. Split_IsBulk i sa = fst h}"

lemma split_sum: "split_inv sa \<Longrightarrow> unat (sa_standardCount sa) + unat (sa_bulkCount sa) < 4294967296"
  unfolding split_inv_def by blast

lemma split_parts:
  assumes "split_inv sa"
  shows "free_slots (sa_standard sa) \<subseteq> {i. i < sa_standardCount sa}"
    and "free_slots (sa_bulk sa) \<subseteq> {i. i < sa_bulkCount sa}"
    and "0 < unat (sa_standardCount sa)" "0 < unat (sa_bulkCount sa)"
    and "unat (sa_standardCount sa + sa_bulkCount sa) = unat (sa_standardCount sa) + unat (sa_bulkCount sa)"
proof -
  show "free_slots (sa_standard sa) \<subseteq> {i. i < sa_standardCount sa}" "free_slots (sa_bulk sa) \<subseteq> {i. i < sa_bulkCount sa}"
    using slot_pool.free_sub assms by (auto simp: split_inv_def)
  have pos: "0 < unat (sp_capacity p)" if "pool_inv s k p" for s k p
    using that shape_words(3) [of s k p] by (simp add: pool_inv_def)
  then show "0 < unat (sa_standardCount sa)" "0 < unat (sa_bulkCount sa)" using assms by (auto simp: split_inv_def)
  show "unat (sa_standardCount sa + sa_bulkCount sa) = unat (sa_standardCount sa) + unat (sa_bulkCount sa)"
    using split_sum [OF assms] by (intro unat_add_small) simp
qed

lemma bulk_index:
  assumes "split_inv sa" and "i < sa_bulkCount sa"
  shows "unat (i + sa_standardCount sa) = unat i + unat (sa_standardCount sa)"
    and "Split_IsBulk (i + sa_standardCount sa) sa" and "i + sa_standardCount sa < sa_standardCount sa + sa_bulkCount sa"
proof -
  have lt: "unat i < unat (sa_bulkCount sa)" using assms(2) by (simp add: word_less_nat_alt)
  with split_sum [OF assms(1)] show u: "unat (i + sa_standardCount sa) = unat i + unat (sa_standardCount sa)"
    by (intro unat_add_small) simp
  show "Split_IsBulk (i + sa_standardCount sa) sa" "i + sa_standardCount sa < sa_standardCount sa + sa_bulkCount sa"
    using u lt split_parts(5) [OF assms(1)] by (simp_all add: Split_IsBulk_def word_le_nat_alt word_less_nat_alt)
qed

lemma standard_index:
  assumes "split_inv sa" and "i < sa_standardCount sa"
  shows "\<not> Split_IsBulk i sa" and "i < sa_standardCount sa + sa_bulkCount sa"
  using assms split_parts(5) [OF assms(1)] by (simp_all add: Split_IsBulk_def word_le_nat_alt word_less_nat_alt)

lemma bulk_offset:
  assumes "split_inv sa" and "Split_IsBulk i sa" and "i < sa_standardCount sa + sa_bulkCount sa"
  shows "i - sa_standardCount sa < sa_bulkCount sa" "i = (i - sa_standardCount sa) + sa_standardCount sa"
proof -
  have "unat (i - sa_standardCount sa) = unat i - unat (sa_standardCount sa)"
    using assms(2) by (simp add: Split_IsBulk_def unat_sub_le)
  then show "i - sa_standardCount sa < sa_bulkCount sa"
    using assms(2,3) split_parts(4,5) [OF assms(1)] by (auto simp: Split_IsBulk_def word_le_nat_alt word_less_nat_alt)
qed simp

lemma split_free_bulk:
  assumes "split_inv sa" and "i < sa_bulkCount sa"
  shows "i + sa_standardCount sa \<in> split_free sa \<longleftrightarrow> i \<in> free_slots (sa_bulk sa)"
proof
  assume "i + sa_standardCount sa \<in> split_free sa"
  moreover have "i + sa_standardCount sa \<notin> free_slots (sa_standard sa)"
    using split_parts(1) [OF assms(1)] standard_index(1) [OF assms(1)] bulk_index(2) [OF assms] by blast
  ultimately show "i \<in> free_slots (sa_bulk sa)" by (auto simp: split_free_def)
qed (simp add: split_free_def)

lemma split_free_standard:
  assumes "split_inv sa" and "i < sa_standardCount sa"
  shows "i \<in> split_free sa \<longleftrightarrow> i \<in> free_slots (sa_standard sa)"
proof
  assume "i \<in> split_free sa"
  moreover have "i \<notin> (\<lambda>j. j + sa_standardCount sa) ` free_slots (sa_bulk sa)"
    using split_parts(2) [OF assms(1)] bulk_index(2) [OF assms(1)] standard_index(1) [OF assms] by blast
  ultimately show "i \<in> free_slots (sa_standard sa)" by (auto simp: split_free_def)
qed (simp add: split_free_def)

lemma split_free_eligible:
  assumes "split_inv sa"
  shows "split_free sa \<inter> split_eligible (True, probe) sa = (\<lambda>i. i + sa_standardCount sa) ` free_slots (sa_bulk sa)"
    and "split_free sa \<inter> split_eligible (False, probe) sa = free_slots (sa_standard sa)"
  using split_parts(1,2) [OF assms] bulk_index(2) [OF assms] standard_index(1) [OF assms]
  by (fastforce simp: split_free_def split_eligible_def)+

lemma below_valid: "i < c \<Longrightarrow> i \<noteq> INVALID"
  using unat_u32_less [of c] by (auto simp: word_less_nat_alt)

lemma split_acquire_bulk:
  assumes inv: "split_inv sa" and ne: "free_slots (sa_bulk sa) \<noteq> {}"
  shows "\<exists>i sa'. Split_Acquire (True, probe) sa = Some (i, sa') \<and> i \<in> split_free sa \<and> i \<in> split_eligible (True, probe) sa
    \<and> split_inv sa' \<and> Split_GetCapacity sa' = Split_GetCapacity sa \<and> split_free sa' = split_free sa - {i}"
proof -
  obtain s k where p: "pool_inv s k (sa_bulk sa)" using inv by (auto simp: split_inv_def)
  obtain j p' where j: "SlotPool_Acquire probe (sa_bulk sa) = Some (j, p')" "j \<in> free_slots (sa_bulk sa)" "pool_inv s k p'"
    "free_slots p' = free_slots (sa_bulk sa) - {j}" "sp_capacity p' = sp_capacity (sa_bulk sa)"
    using Acquire_spec [OF p, of probe] ne by (auto simp: acquired_def)
  let ?i = "j + sa_standardCount sa" and ?sa = "sa\<lparr>sa_bulk := p'\<rparr>"
  have jb: "j < sa_bulkCount sa" using j(2) split_parts(2) [OF inv] by blast
  have "j \<noteq> INVALID" by (rule below_valid [OF jb])
  moreover have "sa_bulkCount sa \<noteq> 0" using split_parts(4) [OF inv] by auto
  ultimately have a: "Split_Acquire (True, probe) sa = Some (?i, ?sa)" using j(1) by (simp add: Split_Acquire_def)
  have inv': "split_inv ?sa" using inv j(3,5) by (auto simp: split_inv_def)
  have "?i \<notin> free_slots (sa_standard sa)"
    using split_parts(1) [OF inv] standard_index(1) [OF inv] bulk_index(2) [OF inv jb] by blast
  then have F: "free_slots (sa_standard sa) - {?i} = free_slots (sa_standard sa)" by blast
  have "(\<lambda>i. i + sa_standardCount sa) ` (free_slots (sa_bulk sa) - {j}) = (\<lambda>i. i + sa_standardCount sa) ` free_slots (sa_bulk sa) - {?i}"
    by (simp add: image_set_diff inj_on_def)
  then have "split_free ?sa = split_free sa - {?i}" by (simp add: split_free_def j(4) Un_Diff F)
  moreover have "?i \<in> split_free sa" using j(2) by (simp add: split_free_def)
  ultimately show ?thesis using a inv' bulk_index(2) [OF inv jb]
    by (simp add: split_eligible_def Split_GetCapacity_def)
qed

lemma split_acquire_standard:
  assumes inv: "split_inv sa" and ne: "free_slots (sa_standard sa) \<noteq> {}"
  shows "\<exists>i sa'. Split_Acquire (False, probe) sa = Some (i, sa') \<and> i \<in> split_free sa \<and> i \<in> split_eligible (False, probe) sa
    \<and> split_inv sa' \<and> Split_GetCapacity sa' = Split_GetCapacity sa \<and> split_free sa' = split_free sa - {i}"
proof -
  obtain s k where p: "pool_inv s k (sa_standard sa)" using inv by (auto simp: split_inv_def)
  obtain j p' where j: "SlotPool_Acquire probe (sa_standard sa) = Some (j, p')" "j \<in> free_slots (sa_standard sa)" "pool_inv s k p'"
    "free_slots p' = free_slots (sa_standard sa) - {j}" "sp_capacity p' = sp_capacity (sa_standard sa)"
    using Acquire_spec [OF p, of probe] ne by (auto simp: acquired_def)
  let ?sa = "sa\<lparr>sa_standard := p'\<rparr>"
  have jb: "j < sa_standardCount sa" using j(2) split_parts(1) [OF inv] by blast
  have "sa_standardCount sa \<noteq> 0" using split_parts(3) [OF inv] by auto
  then have a: "Split_Acquire (False, probe) sa = Some (j, ?sa)" using j(1) by (simp add: Split_Acquire_def)
  have inv': "split_inv ?sa" using inv j(3,5) by (auto simp: split_inv_def)
  have "j \<notin> (\<lambda>i. i + sa_standardCount sa) ` free_slots (sa_bulk sa)"
    using split_parts(2) [OF inv] bulk_index(2) [OF inv] standard_index(1) [OF inv jb] by blast
  then have "(\<lambda>i. i + sa_standardCount sa) ` free_slots (sa_bulk sa) - {j} = (\<lambda>i. i + sa_standardCount sa) ` free_slots (sa_bulk sa)" by blast
  then have "split_free ?sa = split_free sa - {j}" by (simp add: split_free_def j(4) Un_Diff)
  moreover have "j \<in> split_free sa" using j(2) by (simp add: split_free_def)
  ultimately show ?thesis using a inv' standard_index(1) [OF inv jb]
    by (simp add: split_eligible_def Split_GetCapacity_def)
qed

lemma split_acquire_none:
  assumes inv: "split_inv sa" and e: "free_slots (if b then sa_bulk sa else sa_standard sa) = {}"
  shows "Split_Acquire (b, probe) sa = Some (INVALID, sa)"
proof -
  obtain s k where "pool_inv s k (if b then sa_bulk sa else sa_standard sa)" using inv by (cases b) (auto simp: split_inv_def)
  from Acquire_spec [OF this, of probe] show ?thesis using e split_parts(3,4) [OF inv]
    by (auto simp: acquired_def Split_Acquire_def split: if_splits)
qed

lemma split_release:
  assumes inv: "split_inv sa" and i: "i < Split_GetCapacity sa" and nf: "i \<notin> split_free sa"
  shows "\<exists>sa'. Split_Release i sa = Some sa' \<and> split_inv sa' \<and> Split_GetCapacity sa' = Split_GetCapacity sa
    \<and> split_free sa' = insert i (split_free sa)"
proof (cases "Split_IsBulk i sa")
  case True
  let ?j = "i - sa_standardCount sa"
  have j: "?j < sa_bulkCount sa" "i = ?j + sa_standardCount sa" using bulk_offset [OF inv True] i by (simp_all add: Split_GetCapacity_def)
  have "?j \<notin> free_slots (sa_bulk sa)" using split_free_bulk [OF inv j(1)] nf j(2) by simp
  moreover obtain s k where p: "pool_inv s k (sa_bulk sa)" using inv by (auto simp: split_inv_def)
  moreover have "?j \<in> {i. i < sp_capacity (sa_bulk sa)}" using j(1) inv by (simp add: split_inv_def)
  ultimately obtain p' where p': "SlotPool_Release ?j (sa_bulk sa) = Some p'" "\<exists>s k. pool_inv s k p'"
    "{i. i < sp_capacity p'} = {i. i < sp_capacity (sa_bulk sa)}" "free_slots p' = insert ?j (free_slots (sa_bulk sa))"
    using slot_pool.release_some [of "sa_bulk sa" ?j] by blast
  have "sp_capacity p' = sp_capacity (sa_bulk sa)"
    using p'(3) card_below [of "sp_capacity p'"] card_below [of "sp_capacity (sa_bulk sa)"] by (simp add: word_unat_eq_iff)
  then have "split_inv (sa\<lparr>sa_bulk := p'\<rparr>)" using inv p'(2) by (auto simp: split_inv_def)
  moreover have "Split_Release i sa = Some (sa\<lparr>sa_bulk := p'\<rparr>)"
    using True p'(1) i by (simp add: Split_Release_def forward_def Split_Holds_def Split_GetCapacity_def)
  moreover have "split_free (sa\<lparr>sa_bulk := p'\<rparr>) = insert i (split_free sa)"
    by (subst j(2)) (simp add: split_free_def p'(4))
  ultimately show ?thesis by (auto simp: Split_GetCapacity_def)
next
  case False
  then have j: "i < sa_standardCount sa" by (simp add: Split_IsBulk_def not_le)
  have "i \<notin> free_slots (sa_standard sa)" using split_free_standard [OF inv j] nf by simp
  moreover obtain s k where p: "pool_inv s k (sa_standard sa)" using inv by (auto simp: split_inv_def)
  moreover have "i \<in> {i. i < sp_capacity (sa_standard sa)}" using j inv by (simp add: split_inv_def)
  ultimately obtain p' where p': "SlotPool_Release i (sa_standard sa) = Some p'" "\<exists>s k. pool_inv s k p'"
    "{i. i < sp_capacity p'} = {i. i < sp_capacity (sa_standard sa)}" "free_slots p' = insert i (free_slots (sa_standard sa))"
    using slot_pool.release_some [of "sa_standard sa" i] by blast
  have "sp_capacity p' = sp_capacity (sa_standard sa)"
    using p'(3) card_below [of "sp_capacity p'"] card_below [of "sp_capacity (sa_standard sa)"] by (simp add: word_unat_eq_iff)
  then have "split_inv (sa\<lparr>sa_standard := p'\<rparr>)" using inv p'(2) by (auto simp: split_inv_def)
  moreover have "Split_Release i sa = Some (sa\<lparr>sa_standard := p'\<rparr>)"
    using False p'(1) i by (simp add: Split_Release_def forward_def Split_Holds_def Split_GetCapacity_def)
  moreover have "split_free (sa\<lparr>sa_standard := p'\<rparr>) = insert i (split_free sa)"
    by (simp add: split_free_def p'(4))
  ultimately show ?thesis by (auto simp: Split_GetCapacity_def)
qed

interpretation split_pool: slot_leases split_inv "\<lambda>sa. {i. i < Split_GetCapacity sa}" split_free
  split_eligible Split_Acquire Split_Release
proof (unfold_locales, goal_cases)
  case (1 sa)
  then show ?case using split_parts(1,2) [OF 1] standard_index(2) [OF 1] bulk_index(3) [OF 1]
    by (auto simp: split_free_def Split_GetCapacity_def)
next
  case (2 sa)
  show ?case using below_valid by blast
next
  case (3 sa h)
  then show ?case using split_acquire_none [of sa "fst h" "snd h"] split_free_eligible [of sa "snd h"]
    by (cases h; cases "fst h") auto
next
  case (4 sa h)
  then show ?case using split_acquire_bulk [of sa "snd h"] split_acquire_standard [of sa "snd h"] split_free_eligible [of sa "snd h"]
    by (cases h; cases "fst h") auto
next
  case (5 sa i)
  then show ?case using split_release [of sa i] by auto
qed

lemma Split_Init_inv:
  assumes st: "NextPowerOfTwo standardCount = standardCount" and bl: "NextPowerOfTwo bulkCount = bulkCount"
    and le: "unat standardCount \<le> 2147483648" "unat bulkCount \<le> 2147483648"
    and sum: "unat standardCount + unat bulkCount < 4294967296"
  shows "\<exists>sa. Split_Init standardCount ss bulkCount bs = Some sa \<and> split_inv sa
    \<and> Split_GetCapacity sa = standardCount + bulkCount \<and> split_free sa = {i. i < Split_GetCapacity sa}"
proof -
  obtain p s k where p: "SlotPool_Init standardCount ss = Some p" "pool_inv s k p" "free_slots p = {i. i < standardCount}"
    using Init_spec [OF le(1), of ss] st by (auto simp: word_less_nat_alt)
  obtain q s' k' where q: "SlotPool_Init bulkCount bs = Some q" "pool_inv s' k' q" "free_slots q = {i. i < bulkCount}"
    using Init_spec [OF le(2), of bs] bl by (auto simp: word_less_nat_alt)
  have caps: "sp_capacity p = standardCount" "sp_capacity q = bulkCount"
    using p(1) q(1) st bl by (auto simp: SlotPool_Init_def Let_def split: if_splits)
  have nz: "0 < standardCount" "0 < bulkCount" using st bl by (auto simp: word_neq_0_conv [symmetric])
  let ?sa = "\<lparr>sa_standard = p, sa_bulk = q, sa_standardCount = standardCount, sa_bulkCount = bulkCount\<rparr>"
  have init: "Split_Init standardCount ss bulkCount bs = Some ?sa" using p(1) q(1) nz by (simp add: Split_Init_def)
  have inv: "split_inv ?sa" using p(2) q(2) caps sum by (auto simp: split_inv_def)
  have "i \<in> split_free ?sa" if i: "i < Split_GetCapacity ?sa" for i
  proof (cases "Split_IsBulk i ?sa")
    case True
    then show ?thesis using bulk_offset [OF inv True] split_free_bulk [OF inv, of "i - standardCount"] i q(3)
      by (simp add: Split_GetCapacity_def)
  next
    case False
    then show ?thesis using p(3) by (simp add: split_free_def Split_IsBulk_def not_le)
  qed
  then have "split_free ?sa = {i. i < Split_GetCapacity ?sa}" using split_pool.free_sub [OF inv] by blast
  then show ?thesis using init inv by (auto simp: Split_GetCapacity_def)
qed




end
