(* ===== verification/Flow_Data.thy ===== *)
theory Flow_Data
  imports Flux_Prelude
begin

text \<open>
  The flow vocabulary of \<^verbatim>\<open>flow.h\<close>: modes, lifecycles, message parts, the flow data byte that
  carries mode, generation and framing on every flow packet, and the circular order of
  generations. The byte comes off the wire, so decoding is total and its refusals are
  values.
\<close>

unbundle bit_operations_syntax

section \<open>Definitions\<close>

datatype FlowMode = RELIABLE_ORDERED | RELIABLE_UNORDERED | UNRELIABLE | RELIABLE_ORDERED_BULK

datatype FlowLifecycle = OPEN | CLOSING | CLOSED | FAILED

datatype FlowPart = Whole | First | Middle | Last

datatype FlowEpochOrder = Current | Newer | Stale

datatype SendAdmission = Sent | Queued | Dropped | Rejected | Dead

datatype FlowAdmit = AdmitRegistered | AdmitExisting | AdmitReopened | AdmitRejected | AdmitStale

abbreviation (input) FLOW_MODE_COUNT :: u8 where "FLOW_MODE_COUNT \<equiv> 4"
abbreviation (input) FLOW_EPOCH_COUNT :: u8 where "FLOW_EPOCH_COUNT \<equiv> 8"
abbreviation (input) FLOW_EPOCH_MASK :: u8 where "FLOW_EPOCH_MASK \<equiv> 7"
abbreviation (input) FLOW_PART_MORE :: u8 where "FLOW_PART_MORE \<equiv> 0x40"
abbreviation (input) FLOW_PART_CONT :: u8 where "FLOW_PART_CONT \<equiv> 0x80"
abbreviation (input) FLOW_WINDOW :: u16 where "FLOW_WINDOW \<equiv> 256"
abbreviation (input) FLOW_WINDOW_BULK :: u16 where "FLOW_WINDOW_BULK \<equiv> 1024"

fun mode_bits :: "FlowMode \<Rightarrow> u8" where
  "mode_bits RELIABLE_ORDERED = 0"
| "mode_bits RELIABLE_UNORDERED = 1"
| "mode_bits UNRELIABLE = 2"
| "mode_bits RELIABLE_ORDERED_BULK = 3"

definition mode_of_bits :: "u8 \<Rightarrow> FlowMode" where
  "mode_of_bits b = (if b = 0 then RELIABLE_ORDERED else if b = 1 then RELIABLE_UNORDERED
     else if b = 2 then UNRELIABLE else RELIABLE_ORDERED_BULK)"

fun IsOrdered :: "FlowMode \<Rightarrow> bool" where
  "IsOrdered mode = (mode = RELIABLE_ORDERED \<or> mode = RELIABLE_ORDERED_BULK)"

fun IsReliable :: "FlowMode \<Rightarrow> bool" where
  "IsReliable mode = (mode \<noteq> UNRELIABLE)"

definition WindowFor :: "FlowMode \<Rightarrow> u16" where
  "WindowFor mode = (if mode = RELIABLE_ORDERED_BULK then FLOW_WINDOW_BULK else FLOW_WINDOW)"

definition ReorderCapFor :: "FlowMode \<Rightarrow> u16" where
  "ReorderCapFor mode = (if IsOrdered mode then WindowFor mode else 0)"

definition FlowPartAllowed :: "FlowMode \<Rightarrow> FlowPart \<Rightarrow> bool" where
  "FlowPartAllowed mode part \<longleftrightarrow> part = Whole \<or> IsOrdered mode"

definition part_bits :: "FlowPart \<Rightarrow> u8" where
  "part_bits part = (if part = First \<or> part = Middle then FLOW_PART_MORE else 0)
     OR (if part = Middle \<or> part = Last then FLOW_PART_CONT else 0)"

definition EncodeFlowData :: "FlowMode \<Rightarrow> u8 \<Rightarrow> FlowPart \<Rightarrow> u8 option" where
  "EncodeFlowData mode epoch part =
     (if FLOW_MODE_COUNT \<le> mode_bits mode then None
      else if FLOW_EPOCH_MASK < epoch then None
      else if \<not> FlowPartAllowed mode part then None
      else Some (mode_bits mode OR push_bit 3 epoch OR part_bits part))"

definition FlowDataPart :: "u8 \<Rightarrow> FlowPart" where
  "FlowDataPart data =
     (let more = (data AND FLOW_PART_MORE \<noteq> 0); cont = (data AND FLOW_PART_CONT \<noteq> 0)
      in if \<not> cont then (if more then First else Whole) else if more then Middle else Last)"

definition FlowDataEpoch :: "u8 \<Rightarrow> u8" where
  "FlowDataEpoch data = drop_bit 3 data AND FLOW_EPOCH_MASK"

definition DecodeFlowData :: "u8 \<Rightarrow> (FlowMode \<times> u8 \<times> FlowPart) option" where
  "DecodeFlowData data =
     (let modeBits = data AND 0x07
      in if FLOW_MODE_COUNT \<le> modeBits then None
         else let mode = mode_of_bits modeBits; part = FlowDataPart data
              in if \<not> FlowPartAllowed mode part then None
                 else Some (mode, FlowDataEpoch data, part))"

definition CompareFlowEpoch :: "u8 \<Rightarrow> u8 \<Rightarrow> FlowEpochOrder" where
  "CompareFlowEpoch have_ep seen_ep =
     (let forward = (seen_ep - have_ep) AND FLOW_EPOCH_MASK
      in if forward = 0 then Current
         else if forward < FLOW_EPOCH_COUNT div 2 then Newer else Stale)"

text \<open>The byte a restamped packet carries: the generation of the association, the rest untouched.\<close>

definition set_epoch :: "u8 \<Rightarrow> u8 \<Rightarrow> u8" where
  "set_epoch data epoch = (data AND NOT (push_bit 3 FLOW_EPOCH_MASK)) OR push_bit 3 epoch"

section \<open>Lemmas\<close>

lemma roundtrip_table:
  "\<forall>mode\<in>set [RELIABLE_ORDERED, RELIABLE_UNORDERED, UNRELIABLE, RELIABLE_ORDERED_BULK].
   \<forall>part\<in>set [Whole, First, Middle, Last]. \<forall>epoch\<in>set [0, 1, 2, 3, 4, 5, 6, 7 :: u8].
     (case EncodeFlowData mode epoch part of None \<Rightarrow> \<not> FlowPartAllowed mode part
      | Some data \<Rightarrow> FlowPartAllowed mode part \<and> DecodeFlowData data = Some (mode, epoch, part))"
  by code_simp

lemma canonical_table:
  "\<forall>n\<in>set [0..<256]. case DecodeFlowData (of_nat n) of None \<Rightarrow> True
     | Some (mode, epoch, part) \<Rightarrow> EncodeFlowData mode epoch part = Some (of_nat n)"
  by code_simp

lemma decode_encode:
  assumes "DecodeFlowData data = Some (mode, epoch, part)"
  shows "EncodeFlowData mode epoch part = Some data"
proof -
  have "unat data < 256" using unsigned_less [of data] by simp
  then have "unat data \<in> set [0..<256]" by simp
  moreover have "of_nat (unat data) = data" by simp
  ultimately show ?thesis using canonical_table assms by fastforce
qed

lemma encode_decode:
  assumes "EncodeFlowData mode epoch part = Some data"
  shows "DecodeFlowData data = Some (mode, epoch, part)"
proof -
  have "epoch \<le> 7" using assms by (auto simp: EncodeFlowData_def not_less split: if_splits)
  then have "unat epoch \<in> {0, 1, 2, 3, 4, 5, 6, 7}" by (auto simp: word_le_nat_alt)
  then have "epoch \<in> set [0, 1, 2, 3, 4, 5, 6, 7]" by (auto simp: word_unat_eq_iff)
  moreover have "mode \<in> set [RELIABLE_ORDERED, RELIABLE_UNORDERED, UNRELIABLE, RELIABLE_ORDERED_BULK]"
    by (cases mode) simp_all
  moreover have "part \<in> set [Whole, First, Middle, Last]" by (cases part) simp_all
  ultimately have "case EncodeFlowData mode epoch part of None \<Rightarrow> \<not> FlowPartAllowed mode part
      | Some data \<Rightarrow> FlowPartAllowed mode part \<and> DecodeFlowData data = Some (mode, epoch, part)"
    using roundtrip_table by blast
  then show ?thesis using assms by simp
qed

lemma mod_walk: "((a + k) mod 256 mod 8 - a) mod 256 mod 8 = k mod (8 :: int)"
proof -
  have w: "(a + k) mod 256 mod 8 = (a + k) mod 8" by (rule mod_mod_cancel) simp
  have "((a + k) mod 256 mod 8 - a) mod 256 mod 8 = ((a + k) mod 8 - a) mod 8"
    unfolding w by (rule mod_mod_cancel) simp
  then show ?thesis by (simp add: mod_diff_left_eq)
qed

lemma epoch_distance: "unat ((((h + of_nat k) AND 7) - h) AND (7 :: u8)) = k mod 8"
proof -
  have "mask 3 = (7 :: u8)" by (simp add: mask_eq_exp_minus_1)
  then have "unat (x AND 7) = unat x mod 8" for x :: u8 using unat_and_mask [of x 3] by simp
  then have a: "uint (x AND 7) = uint x mod 8" for x :: u8 by (simp only: uint_nat zmod_int of_nat_numeral)
  have b: "uint (h + of_nat k :: u8) = (uint h + int k) mod 256"
    by (simp add: uint_word_ariths unsigned_of_nat take_bit_eq_mod mod_simps zmod_int)
  have c: "uint (x - y :: u8) = (uint x - uint y) mod 256" for x y by (simp add: uint_word_ariths)
  have "uint ((((h + of_nat k) AND 7) - h) AND 7) = int k mod 8"
    unfolding a c b by (rule mod_walk)
  then have "int (unat ((((h + of_nat k) AND 7) - h) AND 7)) = int (k mod 8)" by (simp only: uint_nat zmod_int of_nat_numeral)
  then show ?thesis by (simp only: of_nat_eq_iff)
qed

section \<open>Properties\<close>

text \<open>
  C34: The flow data byte has one meaning and one spelling: decoding accepts a byte as a given mode,
  generation and message part exactly when encoding those gives that byte. So nothing a remote
  writes is read as something a sender would have written differently, and framing on a mode that
  cannot frame never decodes.\<close>

theorem flow_data_canonical:
  "DecodeFlowData data = Some (mode, epoch, part) \<longleftrightarrow> EncodeFlowData mode epoch part = Some data"
  using decode_encode encode_decode by blast

text \<open>
  C35: A generation \<open>k\<close> restarts ahead of the one held reads as current when the 3-bit field has come
  back to the same value, as newer for one to three restarts, and as stale for the rest of the
  cycle, from every starting generation; so a receiver recovers from two missed generations and
  never follows a straggler of the four before it.\<close>

theorem epoch_order_exact:
  "CompareFlowEpoch h ((h + of_nat k) AND FLOW_EPOCH_MASK) =
     (if k mod 8 = 0 then Current else if k mod 8 < 4 then Newer else Stale)"
proof -
  let ?f = "(((h + of_nat k) AND 7) - h) AND (7 :: u8)"
  note d = epoch_distance [of h k]
  have "?f = 0 \<longleftrightarrow> k mod 8 = 0" by (metis d unat_eq_zero)
  moreover have "?f < 4 \<longleftrightarrow> k mod 8 < 4" unfolding word_less_nat_alt d by simp
  ultimately show ?thesis by (simp add: CompareFlowEpoch_def Let_def)
qed

end
