(* ===== verification/Address.thy ===== *)
theory Address
  imports Flux_Prelude
begin

text \<open>
  Peer addresses, \<^verbatim>\<open>address.h\<close>: the comparison, the hash the peer table keys on, and the parser
  of \<open>[host]:port\<close>. The fields of the socket structure are kept as the bytes they occupy, since
  the hash feeds memory. Resolving a host name is the platform's work and a parameter of the
  parser; the numbers of the two address families are the platform's too, and parameters of
  the hash.
\<close>

unbundle bit_operations_syntax

section \<open>Definitions\<close>

datatype Address =
    AddrOther u16
  | AddrInet "u8 list" "u8 list"
  | AddrInet6 "u8 list" "u8 list" "u8 list"

type_synonym BcpId = "u8 list"

definition no_address :: Address where
  "no_address = AddrOther 0"

fun Address_eq :: "Address \<Rightarrow> Address \<Rightarrow> bool" where
  "Address_eq (AddrInet a p) (AddrInet b q) = (p = q \<and> a = b)"
| "Address_eq (AddrInet6 a s p) (AddrInet6 b t q) = (p = q \<and> s = t \<and> a = b)"
| "Address_eq _ _ = False"

definition IsSet :: "Address \<Rightarrow> bool" where
  "IsSet a = (case a of AddrOther f \<Rightarrow> f \<noteq> 0 | _ \<Rightarrow> True)"

definition feed :: "u64 \<Rightarrow> u8 list \<Rightarrow> u64" where
  "feed = foldl (\<lambda>h b. (h XOR ucast b) * 0x100000001b3)"

definition u16_memory :: "u16 \<Rightarrow> u8 list" where
  "u16_memory w = [ucast w, ucast (drop_bit 8 w)]"

fun Address_hash :: "u16 \<Rightarrow> u16 \<Rightarrow> Address \<Rightarrow> u64" where
  "Address_hash inet inet6 (AddrOther f) = feed 0xcbf29ce484222325 (u16_memory f)"
| "Address_hash inet inet6 (AddrInet a p) = feed (feed (feed 0xcbf29ce484222325 (u16_memory inet)) a) p"
| "Address_hash inet inet6 (AddrInet6 a s p) =
     feed (feed (feed (feed 0xcbf29ce484222325 (u16_memory inet6)) a) s) p"

fun port_digits :: "u32 \<Rightarrow> string \<Rightarrow> u32 option" where
  "port_digits v [] = Some v"
| "port_digits v (c # cs) =
     (if of_char c < (48 :: nat) \<or> 57 < (of_char c :: nat) then None
      else let v = v * 10 + of_nat (of_char c - 48)
           in if 65535 < v then None else port_digits v cs)"

definition Address_From :: "(string \<Rightarrow> u16 \<Rightarrow> Error + Address) \<Rightarrow> string \<Rightarrow> Error + Address" where
  "Address_From resolve dest =
     (if dest = [] \<or> hd dest \<noteq> CHR ''['' then Inl InvalidParam
      else if CHR '']'' \<notin> set dest then Inl InvalidParam
      else let host = takeWhile (\<lambda>c. c \<noteq> CHR '']'') (tl dest);
               rest = tl (dropWhile (\<lambda>c. c \<noteq> CHR '']'') (tl dest))
           in if rest = [] \<or> hd rest \<noteq> CHR '':'' then Inl InvalidParam
              else let portSv = tl rest
                   in if host = [] \<or> portSv = [] then Inl InvalidParam
                      else case port_digits 0 portSv of
                             None \<Rightarrow> Inl InvalidParam
                           | Some v \<Rightarrow> if 256 \<le> length host then Inl InvalidParam
                                       else resolve host (ucast v))"

section \<open>Lemmas\<close>

text \<open>The value of a decimal numeral, as the parser should read it.\<close>

definition digit :: "char \<Rightarrow> bool" where
  "digit c \<longleftrightarrow> 48 \<le> (of_char c :: nat) \<and> of_char c \<le> (57 :: nat)"

definition decimal :: "nat \<Rightarrow> string \<Rightarrow> nat" where
  "decimal = foldl (\<lambda>v c. v * 10 + (of_char c - 48))"

lemma decimal_grows: "v \<le> decimal v cs"
proof (induction cs arbitrary: v)
  case (Cons c cs)
  have "v \<le> v * 10 + (of_char c - 48)" by simp
  also have "\<dots> \<le> decimal (v * 10 + (of_char c - 48)) cs" by (rule Cons.IH)
  finally show ?case by (simp add: decimal_def)
qed (simp add: decimal_def)

lemma port_digits_exact:
  assumes "unat v \<le> 65535"
  shows "port_digits v cs = (if list_all digit cs \<and> decimal (unat v) cs \<le> 65535 then Some (of_nat (decimal (unat v) cs)) else None)"
  using assms
proof (induction cs arbitrary: v)
  case Nil
  then show ?case by (simp add: decimal_def)
next
  case (Cons c cs)
  show ?case
  proof (cases "digit c")
    case True
    let ?d = "of_char c - 48 :: nat" and ?w = "v * 10 + of_nat (of_char c - 48) :: u32"
    have d: "?d \<le> 9" using True unfolding digit_def by linarith
    have u: "unat ?w = unat v * 10 + ?d"
      using Cons.prems d by (simp add: unat_word_ariths unat_of_nat)
    have step: "port_digits v (c # cs) = (if 65535 < ?w then None else port_digits ?w cs)"
      using True by (simp add: digit_def Let_def)
    have dec: "decimal (unat v) (c # cs) = decimal (unat ?w) cs" by (simp add: decimal_def u)
    show ?thesis
    proof (cases "65535 < ?w")
      case True
      then have "65535 < decimal (unat ?w) cs" using decimal_grows [of "unat ?w" cs] by (simp add: word_less_nat_alt)
      then show ?thesis using True by (simp only: step dec) simp
    next
      case False
      then have "unat ?w \<le> 65535" by (simp add: word_less_nat_alt not_less)
      then show ?thesis using Cons.IH [of ?w] False \<open>digit c\<close> by (simp only: step dec) simp
    qed
  next
    case False
    then show ?thesis by (auto simp: digit_def)
  qed
qed

lemma takeWhile_host:
  assumes "CHR '']'' \<notin> set host"
  shows "takeWhile (\<lambda>c. c \<noteq> CHR '']'') (host @ CHR '']'' # rest) = host"
    "dropWhile (\<lambda>c. c \<noteq> CHR '']'') (host @ CHR '']'' # rest) = CHR '']'' # rest"
  using assms by (induction host) auto

section \<open>Properties\<close>



text \<open>
  C37: The parser reads exactly the form \<open>[host]:port\<close>: a text with a non-empty host of fewer than 256
  characters and no closing bracket, and a non-empty run of digits as port, is resolved with that host
  and the value of the digits if that value fits 16 bits, and refused otherwise; no number of digits
  makes the accumulator wrap.\<close>

theorem address_parse_exact:
  assumes "CHR '']'' \<notin> set host" and "host \<noteq> []" and "length host < 256" and "port \<noteq> []"
  shows "Address_From resolve (CHR ''['' # host @ CHR '']'' # CHR '':'' # port) =
    (if list_all digit port \<and> decimal 0 port \<le> 65535 then resolve host (of_nat (decimal 0 port)) else Inl InvalidParam)"
proof -
  have "unat (0 :: u32) \<le> 65535" by simp
  note p = port_digits_exact [OF this, of port]
  have u: "(ucast (of_nat n :: u32) :: u16) = of_nat n" if "n \<le> 65535" for n
    using that by (simp add: word_unat_eq_iff unat_ucast unat_of_nat)
  show ?thesis
    using assms p u [of "decimal 0 port"] by (simp add: Address_From_def takeWhile_host Let_def)
qed

theorem address_parse_exact_witness:
  "Address_From (\<lambda>host port. Inr (AddrInet [10, 0, 0, 1] (u16_memory port))) ''[a]:80'' = Inr (AddrInet [10, 0, 0, 1] [80, 0])"
  using address_parse_exact [of "''a''" "''80''" "\<lambda>host port. Inr (AddrInet [10, 0, 0, 1] (u16_memory port))"]
  by (simp add: digit_def decimal_def u16_memory_def)

end
