(* ===== verification/Flow_Window.thy ===== *)
theory Flow_Window
  imports Flow_Data Address Slot_Pool
begin

text \<open>
  The receiving association and its memory of what arrived, from \<^verbatim>\<open>flow.h\<close> and the helpers at the
  head of \<^verbatim>\<open>flow_table.cpp\<close>: the sliding seen bitmap, the ranges an acknowledgement reports and
  the arming of acknowledgements. The clock is an argument. The bitmap is related to
  the set of committed sequence numbers, on which the properties are stated.
\<close>

unbundle bit_operations_syntax

section \<open>Definitions\<close>

record HoldbackEntry =
  hb_seq :: u32
  hb_packetSlot :: u32

record AckRange =
  ar_first :: u32
  ar_last :: u32

record InAssociation =
  in_peerSlot :: u32
  in_peerAddr :: Address
  in_peerId :: BcpId
  in_flowId :: u16
  in_mode :: FlowMode
  in_flowEpoch :: u8
  in_life :: FlowLifecycle
  in_emitting :: bool
  in_ackImmediate :: bool
  in_epoch :: u32
  in_recvNext :: u32
  in_recvHighest :: u32
  in_newSinceFlush :: u32
  in_lastProgressMicros :: u64
  in_ackArmedMicros :: u64
  in_newestArrivalMicros :: u64
  in_windowBits :: u16
  in_reorderCap :: u16
  in_heldCount :: u16
  in_seen :: "u64 list"
  in_holdback :: "HoldbackEntry list"

definition no_held :: HoldbackEntry where
  "no_held = \<lparr>hb_seq = 0, hb_packetSlot = INVALID\<rparr>"

definition ResetInAssoc ::
  "u32 \<Rightarrow> Address \<Rightarrow> BcpId \<Rightarrow> u16 \<Rightarrow> FlowMode \<Rightarrow> u8 \<Rightarrow> u16 \<Rightarrow> u16 \<Rightarrow> u64 \<Rightarrow> InAssociation \<Rightarrow> InAssociation" where
  "ResetInAssoc peerSlot peerAddr peerId flowId mode flowEpoch windowBits reorderCap nowMicros assoc =
     \<lparr>in_peerSlot = peerSlot, in_peerAddr = peerAddr, in_peerId = peerId, in_flowId = flowId, in_mode = mode,
      in_flowEpoch = flowEpoch, in_life = OPEN, in_emitting = False, in_ackImmediate = False,
      in_epoch = in_epoch assoc + 1, in_recvNext = 1, in_recvHighest = 0, in_newSinceFlush = 0,
      in_lastProgressMicros = nowMicros, in_ackArmedMicros = 0, in_newestArrivalMicros = 0,
      in_windowBits = windowBits, in_reorderCap = reorderCap, in_heldCount = 0,
      in_seen = replicate (unat windowBits div 64) 0, in_holdback = replicate (unat reorderCap) no_held\<rparr>"

text \<open>A slot the pool has just cleared to zero bytes.\<close>

definition blank_in :: InAssociation where
  "blank_in = \<lparr>in_peerSlot = 0, in_peerAddr = no_address, in_peerId = replicate 32 0, in_flowId = 0,
     in_mode = RELIABLE_ORDERED, in_flowEpoch = 0, in_life = OPEN, in_emitting = False, in_ackImmediate = False,
     in_epoch = 0, in_recvNext = 0, in_recvHighest = 0, in_newSinceFlush = 0, in_lastProgressMicros = 0,
     in_ackArmedMicros = 0, in_newestArrivalMicros = 0, in_windowBits = 0, in_reorderCap = 0, in_heldCount = 0,
     in_seen = [], in_holdback = []\<rparr>"

definition seen_idx :: "u32 \<Rightarrow> u16 \<Rightarrow> nat" where
  "seen_idx seq windowBits = unat (seq AND (ucast windowBits - 1))"

definition SeenTest :: "u64 list \<Rightarrow> u32 \<Rightarrow> u16 \<Rightarrow> bool" where
  "SeenTest bitmap seq windowBits =
     (let idx = seen_idx seq windowBits in drop_bit (idx mod 64) (bitmap ! (idx div 64)) AND 1 \<noteq> 0)"

definition SeenSet :: "u64 list \<Rightarrow> u32 \<Rightarrow> u16 \<Rightarrow> u64 list" where
  "SeenSet bitmap seq windowBits =
     (let idx = seen_idx seq windowBits
      in bitmap[idx div 64 := bitmap ! (idx div 64) OR push_bit (idx mod 64) 1])"

definition SeenClear :: "u64 list \<Rightarrow> u32 \<Rightarrow> u16 \<Rightarrow> u64 list" where
  "SeenClear bitmap seq windowBits =
     (let idx = seen_idx seq windowBits
      in bitmap[idx div 64 := bitmap ! (idx div 64) AND NOT (push_bit (idx mod 64) 1)])"

definition window_floor :: "u32 \<Rightarrow> u16 \<Rightarrow> u32" where
  "window_floor high windowBits = (if ucast windowBits \<le> high then high - ucast windowBits + 1 else 1)"

function clear_run :: "u32 \<Rightarrow> u32 \<Rightarrow> u16 \<Rightarrow> u64 list \<Rightarrow> u64 list" where
  "clear_run s newFloor windowBits bitmap =
     (if s < newFloor then clear_run (s + 1) newFloor windowBits (SeenClear bitmap s windowBits) else bitmap)"
  by pat_completeness auto
termination
  by (relation "measure (\<lambda>(s, newFloor, _, _). unat newFloor - unat s)")
    (auto simp: word_less_nat_alt unat_Suc_small)

declare clear_run.simps [simp del]

definition CommitSeen :: "u32 \<Rightarrow> InAssociation \<Rightarrow> InAssociation" where
  "CommitSeen seq flow =
     (let bits = in_windowBits flow;
          flow = (if in_recvHighest flow < seq
                  then flow\<lparr>in_seen := (if ucast bits \<le> seq - in_recvHighest flow then map (\<lambda>_. 0) (in_seen flow)
                                       else clear_run (window_floor (in_recvHighest flow) bits) (window_floor seq bits) bits (in_seen flow)),
                            in_recvHighest := seq\<rparr>
                  else flow)
      in flow\<lparr>in_seen := SeenSet (in_seen flow) seq bits\<rparr>)"

definition AlreadySeen :: "u32 \<Rightarrow> InAssociation \<Rightarrow> bool" where
  "AlreadySeen seq flow =
     (if in_recvHighest flow < seq then False
      else if seq < window_floor (in_recvHighest flow) (in_windowBits flow) then True
      else SeenTest (in_seen flow) seq (in_windowBits flow))"

definition ArmAck :: "u64 \<Rightarrow> InAssociation \<Rightarrow> InAssociation" where
  "ArmAck now flow =
     (let flow = (if in_newSinceFlush flow = 0 then flow\<lparr>in_ackArmedMicros := now\<rparr> else flow)
      in if in_newSinceFlush flow < 0xFFFFFFFF then flow\<lparr>in_newSinceFlush := in_newSinceFlush flow + 1\<rparr> else flow)"

definition ArmAckForArrival :: "bool \<Rightarrow> u64 \<Rightarrow> InAssociation \<Rightarrow> InAssociation" where
  "ArmAckForArrival committed now flow =
     (let flow = ArmAck now flow in if committed then flow\<lparr>in_newestArrivalMicros := now\<rparr> else flow)"

text \<open>
  The two inner loops of \<open>BuildAckRanges\<close> walk down from a sequence while it is at or above the floor
  and the bit has the given value. The floor is at least one, so the walk stops at zero.\<close>

fun walk_down :: "(nat \<Rightarrow> bool) \<Rightarrow> nat \<Rightarrow> nat \<Rightarrow> nat" where
  "walk_down P floor 0 = 0"
| "walk_down P floor (Suc s) = (if floor \<le> Suc s \<and> P (Suc s) then walk_down P floor s else Suc s)"

fun ack_ranges :: "(nat \<Rightarrow> bool) \<Rightarrow> nat \<Rightarrow> nat \<Rightarrow> nat \<Rightarrow> AckRange list" where
  "ack_ranges seen floor 0 s = []"
| "ack_ranges seen floor (Suc m) s =
     (let last = walk_down (\<lambda>s. \<not> seen s) floor s
      in if last < floor then []
         else let below = walk_down seen floor last
              in \<lparr>ar_first = of_nat (below + 1), ar_last = of_nat last\<rparr>
                 # (if below < floor then [] else ack_ranges seen floor m below))"

definition BuildAckRanges :: "nat \<Rightarrow> InAssociation \<Rightarrow> AckRange list" where
  "BuildAckRanges maxRanges flow =
     (if in_recvHighest flow = 0 \<or> maxRanges = 0 then []
      else ack_ranges (\<lambda>s. SeenTest (in_seen flow) (of_nat s) (in_windowBits flow))
             (unat (window_floor (in_recvHighest flow) (in_windowBits flow))) maxRanges (unat (in_recvHighest flow)))"

fun SeqInRanges :: "u32 \<Rightarrow> AckRange list \<Rightarrow> bool" where
  "SeqInRanges seq [] = False"
| "SeqInRanges seq (r # rs) = (if ar_first r \<le> seq \<and> seq \<le> ar_last r then True else SeqInRanges seq rs)"

definition Elapsed :: "u64 \<Rightarrow> u64 \<Rightarrow> u64" where
  "Elapsed now earlier = (if earlier < now then now - earlier else 0)"

section \<open>The bitmap, bit by bit\<close>

definition seen_bit :: "u64 list \<Rightarrow> nat \<Rightarrow> bool" where
  "seen_bit b i \<longleftrightarrow> bit (b ! (i div 64)) (i mod 64)"

definition window_shape :: "InAssociation \<Rightarrow> bool" where
  "window_shape flow \<longleftrightarrow> (\<exists>k. 6 \<le> k \<and> k \<le> 15 \<and> unat (in_windowBits flow) = 2 ^ k)
     \<and> length (in_seen flow) = unat (in_windowBits flow) div 64"

lemma seen_idx_mod:
  assumes "unat w = 2 ^ k" and "k \<le> 15"
  shows "seen_idx s w = unat s mod unat w"
proof -
  have "unat (ucast w :: u32) = 2 ^ k" using assms by (simp add: unat_ucast_up)
  then have "(ucast w :: u32) = 2 ^ k" using assms(2) by (simp add: word_unat_eq_iff unat_exp)
  then have "ucast w - 1 = (mask k :: u32)" by (simp add: mask_eq_exp_minus_1)
  then show ?thesis using assms by (simp add: seen_idx_def unat_and_mask)
qed

lemma SeenTest_bit: "SeenTest b s w \<longleftrightarrow> seen_bit b (seen_idx s w)"
  by (simp add: SeenTest_def seen_bit_def Let_def bit_iff_and_drop_bit_eq_1 and_one_eq)

lemma shape_bits:
  assumes "window_shape flow"
  shows "64 dvd unat (in_windowBits flow)" "0 < unat (in_windowBits flow)" "length (in_seen flow) * 64 = unat (in_windowBits flow)"
    "seen_idx s (in_windowBits flow) = unat s mod unat (in_windowBits flow)"
proof -
  obtain k where k: "6 \<le> k" "k \<le> 15" "unat (in_windowBits flow) = 2 ^ k" using assms by (auto simp: window_shape_def)
  have "(2 :: nat) ^ 6 dvd 2 ^ k" using k(1) by (rule le_imp_power_dvd)
  then show d: "64 dvd unat (in_windowBits flow)" using k(3) by simp
  show "0 < unat (in_windowBits flow)" using k(3) by simp
  show "length (in_seen flow) * 64 = unat (in_windowBits flow)" using assms d by (simp add: window_shape_def)
  show "seen_idx s (in_windowBits flow) = unat s mod unat (in_windowBits flow)" by (rule seen_idx_mod [OF k(3,2)])
qed

lemma seen_bit_set:
  assumes "seen_idx s w < length b * 64" and "i < length b * 64"
  shows "seen_bit (SeenSet b s w) i \<longleftrightarrow> seen_bit b i \<or> i = seen_idx s w"
proof -
  let ?j = "seen_idx s w"
  have l: "?j div 64 < length b" using assms(1) by (simp add: less_mult_imp_div_less)
  show ?thesis
  proof (cases "i div 64 = ?j div 64")
    case True
    then have "i = ?j \<longleftrightarrow> i mod 64 = ?j mod 64" by (metis div_mult_mod_eq)
    then show ?thesis using True l by (auto simp: seen_bit_def SeenSet_def Let_def bit_or_iff bit_exp_iff)
  next
    case False
    then show ?thesis using l by (auto simp: seen_bit_def SeenSet_def Let_def nth_list_update)
  qed
qed

lemma seen_bit_clear:
  assumes "seen_idx s w < length b * 64" and "i < length b * 64"
  shows "seen_bit (SeenClear b s w) i \<longleftrightarrow> seen_bit b i \<and> i \<noteq> seen_idx s w"
proof -
  let ?j = "seen_idx s w"
  have l: "?j div 64 < length b" using assms(1) by (simp add: less_mult_imp_div_less)
  show ?thesis
  proof (cases "i div 64 = ?j div 64")
    case True
    then have "i = ?j \<longleftrightarrow> i mod 64 = ?j mod 64" by (metis div_mult_mod_eq)
    then show ?thesis using True l
      by (auto simp: seen_bit_def SeenClear_def Let_def bit_and_iff bit_not_iff bit_exp_iff)
  next
    case False
    then show ?thesis using l by (auto simp: seen_bit_def SeenClear_def Let_def nth_list_update)
  qed
qed

lemma length_seen [simp]: "length (SeenSet b s w) = length b" "length (SeenClear b s w) = length b"
  by (simp_all add: SeenSet_def SeenClear_def Let_def)

lemma clear_run_bits:
  assumes "\<And>s. seen_idx s w = unat s mod (length b * 64)" and "0 < length b"
  shows "length (clear_run s e w b) = length b"
    and "i < length b * 64 \<Longrightarrow> seen_bit (clear_run s e w b) i \<longleftrightarrow>
      seen_bit b i \<and> \<not> (\<exists>j. unat s \<le> j \<and> j < unat e \<and> j mod (length b * 64) = i)"
  using assms
proof (induction s e w b rule: clear_run.induct)
  case (1 s e w b)
  let ?W = "length b * 64"
  {
    case 1
    then show ?case using "1.IH"(1) by (subst clear_run.simps) simp
  next
    case 2
    show ?case
    proof (cases "s < e")
      case True
      then have u: "unat (s + 1) = Suc (unat s)" by (rule unat_Suc_small)
      have idx: "seen_idx s w = unat s mod ?W" using 2 by blast
      have "seen_bit (clear_run (s + 1) e w (SeenClear b s w)) i \<longleftrightarrow>
        seen_bit (SeenClear b s w) i \<and> \<not> (\<exists>j. Suc (unat s) \<le> j \<and> j < unat e \<and> j mod ?W = i)"
        using "1.IH"(2) [OF True] 2 u by simp
      also have "\<dots> \<longleftrightarrow> seen_bit b i \<and> i \<noteq> unat s mod ?W \<and> \<not> (\<exists>j. Suc (unat s) \<le> j \<and> j < unat e \<and> j mod ?W = i)"
        using seen_bit_clear [of s w b i] 2 idx by simp
      also have "\<dots> \<longleftrightarrow> seen_bit b i \<and> \<not> (\<exists>j. unat s \<le> j \<and> j < unat e \<and> j mod ?W = i)"
        using True by (auto simp: word_less_nat_alt Suc_le_eq)
      finally show ?thesis using True by (subst clear_run.simps) simp
    next
      case False
      then show ?thesis by (subst clear_run.simps) (auto simp: word_less_nat_alt)
    qed
  }
qed

section \<open>The bitmap as a set\<close>

definition nfloor :: "nat \<Rightarrow> nat \<Rightarrow> nat" where
  "nfloor W h = (if W \<le> h then h - W + 1 else 1)"

definition seen_set :: "nat set \<Rightarrow> InAssociation \<Rightarrow> bool" where
  "seen_set C flow \<longleftrightarrow> window_shape flow \<and> C \<subseteq> {1..unat (in_recvHighest flow)}
     \<and> (\<forall>i<unat (in_windowBits flow). seen_bit (in_seen flow) i \<longleftrightarrow>
          (\<exists>s\<in>C. nfloor (unat (in_windowBits flow)) (unat (in_recvHighest flow)) \<le> s \<and> s mod unat (in_windowBits flow) = i))"

definition seen_rel :: "nat set \<Rightarrow> InAssociation \<Rightarrow> bool" where
  "seen_rel C flow \<longleftrightarrow> seen_set C flow \<and> (0 < in_recvHighest flow \<longrightarrow> unat (in_recvHighest flow) \<in> C)"

lemma window_floor_nfloor:
  assumes "0 < unat w" shows "unat (window_floor h w) = nfloor (unat w) (unat h)"
proof (cases "ucast w \<le> h")
  case True
  then have le: "unat w \<le> unat h" by (simp add: word_le_nat_alt unat_ucast_up)
  have "unat (h - ucast w) = unat h - unat w" using True by (simp add: unat_sub_le unat_ucast_up)
  moreover have "unat (h - ucast w + 1) = unat (h - ucast w) + 1"
    using calculation assms unat_u32_less [of h] le by (subst unat_add_small) simp_all
  ultimately show ?thesis using True le by (simp add: window_floor_def nfloor_def)
next
  case False
  then have "unat h < unat w" by (simp add: word_le_nat_alt unat_ucast_up)
  then show ?thesis using False by (simp add: window_floor_def nfloor_def)
qed

lemma same_residue:
  fixes a b W :: nat
  assumes "a mod W = b mod W" and "a \<le> b" and "b < a + W"
  shows "a = b"
proof -
  have "W dvd b - a" using assms(1,2) by (metis mod_eq_dvd_iff_nat)
  then show ?thesis using assms(2,3) by (cases "b - a = 0") (auto dest: dvd_imp_le)
qed

lemma window_residue_unique:
  assumes "nfloor W h \<le> a" "a \<le> h" "nfloor W h \<le> b" "b \<le> h" "a mod W = b mod W" "0 < W"
  shows "a = b"
proof -
  have "b < a + W" "a < b + W" using assms(1-4,6) by (auto simp: nfloor_def split: if_splits)
  then show ?thesis using assms(5) same_residue [of a W b] same_residue [of b W a] by (cases "a \<le> b") auto
qed

lemma commit_below:
  assumes rel: "seen_set C flow" and s: "nfloor (unat (in_windowBits flow)) (unat (in_recvHighest flow)) \<le> unat seq"
    and le: "unat seq \<le> unat (in_recvHighest flow)"
  shows "seen_set (insert (unat seq) C) (CommitSeen seq flow)"
proof -
  let ?W = "unat (in_windowBits flow)" and ?h = "unat (in_recvHighest flow)"
  have sh: "window_shape flow" using rel by (simp add: seen_set_def)
  note B = shape_bits [OF sh]
  have c: "CommitSeen seq flow = flow\<lparr>in_seen := SeenSet (in_seen flow) seq (in_windowBits flow)\<rparr>"
    using le by (simp add: CommitSeen_def word_less_nat_alt not_less Let_def)
  have "1 \<le> nfloor ?W ?h" by (simp add: nfloor_def)
  then have s1: "unat seq \<in> {1..?h}" using s le by simp
  have "seen_bit (SeenSet (in_seen flow) seq (in_windowBits flow)) i \<longleftrightarrow>
      (\<exists>x\<in>insert (unat seq) C. nfloor ?W ?h \<le> x \<and> x mod ?W = i)" if i: "i < ?W" for i
    using rel i s seen_bit_set [of seq "in_windowBits flow" "in_seen flow" i] B by (auto simp: seen_set_def)
  then show ?thesis using rel s1 by (auto simp: c seen_set_def window_shape_def)
qed

lemma commit_above:
  assumes rel: "seen_set C flow" and gt: "unat (in_recvHighest flow) < unat seq"
  shows "seen_set (insert (unat seq) C) (CommitSeen seq flow)"
proof -
  let ?w = "in_windowBits flow" and ?W = "unat (in_windowBits flow)" and ?h = "unat (in_recvHighest flow)" and ?n = "unat seq"
  have sh: "window_shape flow" using rel by (simp add: seen_set_def)
  note B = shape_bits [OF sh]
  have C: "C \<subseteq> {1..?h}" using rel by (simp add: seen_set_def)
  define b where "b = (if ucast ?w \<le> seq - in_recvHighest flow then map (\<lambda>_. 0) (in_seen flow)
      else clear_run (window_floor (in_recvHighest flow) ?w) (window_floor seq ?w) ?w (in_seen flow))"
  have c: "CommitSeen seq flow = flow\<lparr>in_recvHighest := seq, in_seen := SeenSet b seq ?w\<rparr>"
    using gt by (simp add: CommitSeen_def word_less_nat_alt Let_def b_def)
  have len0: "0 < length (in_seen flow)" using B(2,3) by (metis mult_is_0 neq0_conv)
  have idx: "seen_idx s ?w = unat s mod (length (in_seen flow) * 64)" for s using B(3,4) by simp
  have d: "unat (seq - in_recvHighest flow) = ?n - ?h" using gt by (simp add: unat_sub_le word_le_nat_alt)
  have len: "length b = length (in_seen flow)" using clear_run_bits(1) [OF idx len0] by (simp add: b_def)
  have old: "seen_bit b i \<longleftrightarrow> (\<exists>s\<in>C. nfloor ?W ?n \<le> s \<and> s mod ?W = i)" if i: "i < ?W" for i
  proof (cases "?W \<le> ?n - ?h")
    case True
    then have "nfloor ?W ?n > ?h" using B(2) gt by (auto simp: nfloor_def)
    then have "\<not> (\<exists>s\<in>C. nfloor ?W ?n \<le> s \<and> s mod ?W = i)" using C by fastforce
    moreover have "b = map (\<lambda>_. 0) (in_seen flow)" using True d by (simp add: b_def word_le_nat_alt unat_ucast_up)
    moreover have "i div 64 < length (in_seen flow)" using i B(3) by (simp add: less_mult_imp_div_less)
    ultimately show ?thesis by (simp add: seen_bit_def)
  next
    case False
    then have b: "b = clear_run (window_floor (in_recvHighest flow) ?w) (window_floor seq ?w) ?w (in_seen flow)"
      using d by (simp add: b_def word_le_nat_alt unat_ucast_up)
    have "seen_bit b i \<longleftrightarrow> seen_bit (in_seen flow) i \<and> \<not> (\<exists>j. nfloor ?W ?h \<le> j \<and> j < nfloor ?W ?n \<and> j mod ?W = i)"
      unfolding b using clear_run_bits(2) [OF idx len0] i B(3) window_floor_nfloor [OF B(2)] by simp
    also have "\<dots> \<longleftrightarrow> (\<exists>s\<in>C. nfloor ?W ?n \<le> s \<and> s mod ?W = i)"
    proof
      assume "seen_bit (in_seen flow) i \<and> \<not> (\<exists>j. nfloor ?W ?h \<le> j \<and> j < nfloor ?W ?n \<and> j mod ?W = i)"
      then obtain s where s: "s \<in> C" "nfloor ?W ?h \<le> s" "s mod ?W = i" "\<not> (\<exists>j. nfloor ?W ?h \<le> j \<and> j < nfloor ?W ?n \<and> j mod ?W = i)"
        using rel i unfolding seen_set_def by blast
      then have "nfloor ?W ?n \<le> s" by (metis not_le)
      then show "\<exists>s\<in>C. nfloor ?W ?n \<le> s \<and> s mod ?W = i" using s by blast
    next
      assume "\<exists>s\<in>C. nfloor ?W ?n \<le> s \<and> s mod ?W = i"
      then obtain s where s: "s \<in> C" "nfloor ?W ?n \<le> s" "s mod ?W = i" by blast
      have mono: "nfloor ?W ?h \<le> nfloor ?W ?n" using gt by (auto simp: nfloor_def)
      have sh: "s \<le> ?h" using C s(1) by auto
      have "j = s" if "nfloor ?W ?h \<le> j" "j < nfloor ?W ?n" "j mod ?W = i" for j
        using window_residue_unique [of ?W ?h j s] that s mono sh B(2) by simp
      then have "\<not> (\<exists>j. nfloor ?W ?h \<le> j \<and> j < nfloor ?W ?n \<and> j mod ?W = i)" using s(2) by (metis not_le)
      moreover have "nfloor ?W ?h \<le> s" using mono s(2) by simp
      then have "seen_bit (in_seen flow) i" using rel i s(1,3) unfolding seen_set_def by blast
      ultimately show "seen_bit (in_seen flow) i \<and> \<not> (\<exists>j. nfloor ?W ?h \<le> j \<and> j < nfloor ?W ?n \<and> j mod ?W = i)" by blast
    qed
    finally show ?thesis .
  qed
  have fl: "nfloor ?W ?n \<le> ?n" using gt B(2) by (auto simp: nfloor_def)
  have "seen_bit (SeenSet b seq ?w) i \<longleftrightarrow> (\<exists>x\<in>insert ?n C. nfloor ?W ?n \<le> x \<and> x mod ?W = i)" if i: "i < ?W" for i
    using seen_bit_set [of seq ?w b i] old [OF i] i B len fl by auto
  then show ?thesis using rel C gt len by (auto simp: c seen_set_def window_shape_def)
qed

lemma CommitSeen_fields [simp]:
  "in_windowBits (CommitSeen seq flow) = in_windowBits flow" "in_holdback (CommitSeen seq flow) = in_holdback flow"
  "in_recvNext (CommitSeen seq flow) = in_recvNext flow" "in_reorderCap (CommitSeen seq flow) = in_reorderCap flow"
  "in_mode (CommitSeen seq flow) = in_mode flow" "in_peerSlot (CommitSeen seq flow) = in_peerSlot flow"
  "in_heldCount (CommitSeen seq flow) = in_heldCount flow"
  "in_recvHighest (CommitSeen seq flow) = (if in_recvHighest flow < seq then seq else in_recvHighest flow)"
  by (simp_all add: CommitSeen_def Let_def)

lemma commit_set:
  assumes "seen_set C flow" and "nfloor (unat (in_windowBits flow)) (unat (in_recvHighest flow)) \<le> unat seq"
  shows "seen_set (insert (unat seq) C) (CommitSeen seq flow)"
  using commit_below [OF assms] commit_above [OF assms(1), of seq] by (cases "unat seq \<le> unat (in_recvHighest flow)") auto

lemma commit_rel:
  assumes "seen_rel C flow" and "nfloor (unat (in_windowBits flow)) (unat (in_recvHighest flow)) \<le> unat seq"
  shows "seen_rel (insert (unat seq) C) (CommitSeen seq flow)"
  using assms commit_set [of C flow seq] by (auto simp: seen_rel_def)

lemma AlreadySeen_exact:
  assumes rel: "seen_set C flow" and pos: "0 < unat seq"
  shows "AlreadySeen seq flow \<longleftrightarrow> unat seq \<in> C \<or> unat seq < nfloor (unat (in_windowBits flow)) (unat (in_recvHighest flow))"
proof -
  let ?W = "unat (in_windowBits flow)" and ?h = "unat (in_recvHighest flow)"
  have sh: "window_shape flow" and C: "C \<subseteq> {1..?h}" using rel by (simp_all add: seen_set_def)
  note B = shape_bits [OF sh]
  have t: "SeenTest (in_seen flow) seq (in_windowBits flow) \<longleftrightarrow> unat seq \<in> C" if "nfloor ?W ?h \<le> unat seq" "unat seq \<le> ?h"
  proof -
    have "unat seq mod ?W < ?W" using B(2) by simp
    then have "SeenTest (in_seen flow) seq (in_windowBits flow) \<longleftrightarrow> (\<exists>s\<in>C. nfloor ?W ?h \<le> s \<and> s mod ?W = unat seq mod ?W)"
      using rel by (simp add: SeenTest_bit B(4) seen_set_def)
    also have "\<dots> \<longleftrightarrow> unat seq \<in> C"
      using window_residue_unique [of ?W ?h _ "unat seq"] that C B(2) by fastforce
    finally show ?thesis .
  qed
  have "1 \<le> nfloor ?W ?h" by (simp add: nfloor_def)
  have above: "?h < unat seq \<Longrightarrow> unat seq \<notin> C \<and> \<not> unat seq < nfloor ?W ?h" using C B(2) pos by (auto simp: nfloor_def)
  show ?thesis
    using t above window_floor_nfloor [OF B(2), of "in_recvHighest flow"]
    by (auto simp: AlreadySeen_def word_less_nat_alt not_less)
qed

section \<open>Acknowledgement ranges\<close>

lemma walk_down_le: "walk_down P floor s \<le> s"
  by (induction s) auto

lemma walk_down_run:
  assumes "walk_down P floor s < x" and "x \<le> s" shows "floor \<le> x \<and> P x"
  using assms by (induction s) (auto split: if_splits simp: le_Suc_eq)

lemma walk_down_stop:
  assumes "0 < floor" and "floor \<le> walk_down P floor s" shows "\<not> P (walk_down P floor s)"
  using assms by (induction s) (auto split: if_splits)

definition in_range :: "AckRange \<Rightarrow> nat \<Rightarrow> bool" where
  "in_range r x \<longleftrightarrow> unat (ar_first r) \<le> x \<and> x \<le> unat (ar_last r)"

text \<open>Ranges newest first, each a run of seen sequences with an unseen one or the floor below it.\<close>

fun descending :: "nat \<Rightarrow> AckRange list \<Rightarrow> bool" where
  "descending s [] = True"
| "descending s (r # rs) \<longleftrightarrow> unat (ar_first r) \<le> unat (ar_last r) \<and> unat (ar_last r) \<le> s
     \<and> descending (unat (ar_first r) - 2) rs"

lemma descending_lower:
  "descending s rs \<Longrightarrow> (rs \<noteq> [] \<Longrightarrow> unat (ar_last (hd rs)) \<le> s') \<Longrightarrow> descending s' rs"
  by (cases rs) auto

lemma ack_ranges_exact:
  assumes "0 < floor" and "s < 4294967296"
  shows "descending s (ack_ranges seen floor m s)
    \<and> (\<forall>r\<in>set (ack_ranges seen floor m s). \<forall>x. in_range r x \<longrightarrow> floor \<le> x \<and> x \<le> s \<and> seen x)
    \<and> (\<forall>x. floor \<le> x \<and> x \<le> s \<and> seen x \<longrightarrow>
         (\<exists>r\<in>set (ack_ranges seen floor m s). in_range r x)
         \<or> (length (ack_ranges seen floor m s) = m \<and> (\<forall>r\<in>set (ack_ranges seen floor m s). x < unat (ar_first r))))"
  using assms(2)
proof (induction m arbitrary: s)
  case 0
  then show ?case by simp
next
  case (Suc m)
  define last where "last = walk_down (\<lambda>s. \<not> seen s) floor s"
  define below where "below = walk_down seen floor last"
  have ls: "last \<le> s" and bl: "below \<le> last" by (simp_all add: last_def below_def walk_down_le)
  have gap1: "floor \<le> x \<and> \<not> seen x" if "last < x" "x \<le> s" for x
    using walk_down_run [of "\<lambda>s. \<not> seen s" floor s x] that by (simp add: last_def)
  show ?case
  proof (cases "last < floor")
    case True
    then have "\<not> seen x" if "floor \<le> x" "x \<le> s" for x using gap1 [of x] that by auto
    then show ?thesis using True by (auto simp: last_def [symmetric] Let_def)
  next
    case False
    have sl: "seen last" using walk_down_stop [OF assms(1), of "\<lambda>s. \<not> seen s" s] False by (simp add: last_def)
    have run: "floor \<le> x \<and> seen x" if "below < x" "x \<le> last" for x
      using walk_down_run [of seen floor last x] that by (simp add: below_def)
    have lt: "below < last"
    proof (rule ccontr)
      assume "\<not> below < last"
      then have "below = last" using bl by simp
      then show False using walk_down_stop [OF assms(1), of seen last] False sl by (simp add: below_def [symmetric])
    qed
    have b1: "unat (of_nat (below + 1) :: u32) = below + 1" "unat (of_nat last :: u32) = last"
      using lt ls Suc.prems by (simp_all add: unat_of_nat del: of_nat_add of_nat_Suc)
    let ?r = "\<lparr>ar_first = of_nat (below + 1), ar_last = of_nat last\<rparr>"
    define rest where "rest = (if below < floor then [] else ack_ranges seen floor m below)"
    have a: "ack_ranges seen floor (Suc m) s = ?r # rest"
      using False by (simp add: last_def [symmetric] below_def [symmetric] rest_def Let_def)
    have in_r: "in_range ?r x \<longleftrightarrow> below < x \<and> x \<le> last" for x
      unfolding in_range_def AckRange.simps b1 by (simp add: Suc_le_eq)
    have IH: "descending below rest"
      "\<forall>r\<in>set rest. \<forall>x. in_range r x \<longrightarrow> floor \<le> x \<and> x \<le> below \<and> seen x"
      "\<And>x. floor \<le> x \<Longrightarrow> x \<le> below \<Longrightarrow> seen x \<Longrightarrow> (\<exists>r\<in>set rest. in_range r x)
         \<or> (length rest = m \<and> (\<forall>r\<in>set rest. x < unat (ar_first r)))"
      using Suc.IH [of below] lt ls Suc.prems by (auto simp: rest_def)
    have nb: "\<not> seen below" if "rest \<noteq> []"
      using walk_down_stop [OF assms(1), of seen last] that by (auto simp: rest_def below_def [symmetric] split: if_splits)
    have "descending (below - 1) rest"
    proof (rule descending_lower [OF IH(1)])
      assume ne: "rest \<noteq> []"
      then obtain r rs where r: "rest = r # rs" by (cases rest) auto
      then have "in_range r (unat (ar_last r))" using IH(1) by (simp add: in_range_def)
      then have "unat (ar_last r) \<le> below" "seen (unat (ar_last r))" using IH(2) r by auto
      then show "unat (ar_last (hd rest)) \<le> below - 1" using nb [OF ne] r by (cases "unat (ar_last r) = below") auto
    qed
    then have D: "descending s (?r # rest)" using lt ls by (simp only: descending.simps AckRange.simps b1) simp
    have S: "\<forall>r\<in>set (?r # rest). \<forall>x. in_range r x \<longrightarrow> floor \<le> x \<and> x \<le> s \<and> seen x"
      using IH(2) run in_r by (auto intro: order_trans [OF _ ls] order_trans [OF _ order_trans [OF bl ls]])
    have K: "(\<exists>r\<in>set (?r # rest). in_range r x) \<or> (length (?r # rest) = Suc m \<and> (\<forall>r\<in>set (?r # rest). x < unat (ar_first r)))"
      if x: "floor \<le> x" "x \<le> s" "seen x" for x
    proof -
      have "x \<le> last" using gap1 [of x] x by (meson not_le)
      show ?thesis
      proof (cases "below < x")
        case True
        then show ?thesis using \<open>x \<le> last\<close> in_r by auto
      next
        case False
        then show ?thesis using IH(3) [of x] x b1(1) by (auto simp del: of_nat_add)
      qed
    qed
    show ?thesis unfolding a using D S K by blast
  qed
qed

section \<open>Properties\<close>

text \<open>A receiver that marks what it had not seen, and the same decisions over the set of what it marked.\<close>

fun arrivals :: "u32 list \<Rightarrow> InAssociation \<Rightarrow> bool list \<times> InAssociation" where
  "arrivals [] flow = ([], flow)"
| "arrivals (seq # seqs) flow =
     (if AlreadySeen seq flow then (let (oks, flow') = arrivals seqs flow in (False # oks, flow'))
      else let (oks, flow') = arrivals seqs (CommitSeen seq flow) in (True # oks, flow'))"

fun arrivals_spec :: "nat \<Rightarrow> nat list \<Rightarrow> nat set \<Rightarrow> bool list \<times> nat set" where
  "arrivals_spec W [] C = ([], C)"
| "arrivals_spec W (s # ss) C =
     (if s \<in> C \<or> s + W \<le> Max (insert 0 C) then (let (oks, C') = arrivals_spec W ss C in (False # oks, C'))
      else let (oks, C') = arrivals_spec W ss (insert s C) in (True # oks, C'))"

lemma rel_high:
  assumes "seen_rel C flow" shows "Max (insert 0 C) = unat (in_recvHighest flow)"
proof (rule Max_eqI)
  have C: "C \<subseteq> {1..unat (in_recvHighest flow)}" using assms by (simp add: seen_rel_def seen_set_def)
  then show "finite (insert 0 C)" using finite_subset by fastforce
  show "y \<le> unat (in_recvHighest flow)" if "y \<in> insert 0 C" for y using that C by auto
  show "unat (in_recvHighest flow) \<in> insert 0 C"
    using assms by (cases "in_recvHighest flow = 0") (auto simp: seen_rel_def word_neq_0_conv)
qed

lemma arrivals_refine:
  assumes "seen_rel C flow" and "0 \<notin> set seqs"
  shows "fst (arrivals seqs flow) = fst (arrivals_spec (unat (in_windowBits flow)) (map unat seqs) C)
    \<and> seen_rel (snd (arrivals_spec (unat (in_windowBits flow)) (map unat seqs) C)) (snd (arrivals seqs flow))"
  using assms
proof (induction seqs arbitrary: C flow)
  case (Cons seq seqs)
  let ?W = "unat (in_windowBits flow)" and ?h = "unat (in_recvHighest flow)"
  have pos: "0 < unat seq" using Cons.prems(2) by (auto simp: unat_gt_0)
  have set: "seen_set C flow" using Cons.prems(1) by (simp add: seen_rel_def)
  then have "0 < ?W" using shape_bits(2) by (simp add: seen_set_def)
  then have "unat seq < nfloor ?W ?h \<longleftrightarrow> unat seq + ?W \<le> ?h" using pos by (auto simp: nfloor_def)
  then have d: "AlreadySeen seq flow \<longleftrightarrow> unat seq \<in> C \<or> unat seq + ?W \<le> Max (insert 0 C)"
    using AlreadySeen_exact [OF set pos] rel_high [OF Cons.prems(1)] by simp
  have ns: "0 \<notin> set seqs" using Cons.prems(2) by simp
  show ?case
  proof (cases "AlreadySeen seq flow")
    case True
    then show ?thesis using Cons.IH [OF Cons.prems(1) ns] d by (auto simp: case_prod_beta)
  next
    case False
    then have f: "nfloor ?W ?h \<le> unat seq" using AlreadySeen_exact [OF set pos] by simp
    have rel: "seen_rel (insert (unat seq) C) (CommitSeen seq flow)"
      by (rule commit_rel [OF Cons.prems(1) f])
    show ?thesis using Cons.IH [OF rel ns] False d by (auto simp: case_prod_beta)
  qed
qed simp

lemma fresh_rel:
  assumes "mode_window = WindowFor mode"
  shows "seen_rel {} (ResetInAssoc ps pa pid fid mode ep mode_window cap now old)"
proof -
  have "\<exists>k. 6 \<le> k \<and> k \<le> 15 \<and> unat mode_window = 2 ^ k"
  proof (cases "mode = RELIABLE_ORDERED_BULK")
    case True
    then show ?thesis using assms by (intro exI [of _ 10]) (simp add: WindowFor_def)
  next
    case False
    then show ?thesis using assms by (intro exI [of _ 8]) (simp add: WindowFor_def)
  qed
  moreover have "seen_bit (replicate (unat mode_window div 64) 0) i = False" if "i < unat mode_window" for i
  proof -
    have "64 dvd unat mode_window" using assms by (auto simp: WindowFor_def)
    then have "i div 64 < unat mode_window div 64" using that by (auto simp: less_mult_imp_div_less elim!: dvdE)
    then show ?thesis by (simp add: seen_bit_def)
  qed
  ultimately show ?thesis by (simp add: seen_rel_def seen_set_def window_shape_def ResetInAssoc_def)
qed

text \<open>
  C6: The seen bitmap never forgets and never invents. For a fresh association of any mode and any
  sequence numbers arriving in any order, the verdicts are those of a set that remembers everything:
  a sequence is refused exactly when it was accepted before or lies a whole window or more below
  the highest accepted, and jumps of any size leave no stale bit behind.\<close>

theorem seen_window_exact:
  assumes "0 \<notin> set seqs"
  shows "fst (arrivals seqs (ResetInAssoc ps pa pid fid mode ep (WindowFor mode) cap now old)) =
    fst (arrivals_spec (unat (WindowFor mode)) (map unat seqs) {})"
  using arrivals_refine [OF fresh_rel [OF refl] assms] by (simp add: ResetInAssoc_def)

theorem seen_window_exact_witness:
  "fst (arrivals [1, 3, 2, 3, 300, 2, 4000000000, 300]
     (ResetInAssoc 0 no_address [] 7 RELIABLE_UNORDERED 0 (WindowFor RELIABLE_UNORDERED) 0 5 blank_in)) =
   [True, True, True, False, True, False, True, False]"
  using seen_window_exact [of "[1, 3, 2, 3, 300, 2, 4000000000, 300]" 0 no_address "[]" 7 RELIABLE_UNORDERED 0 0 5 blank_in]
  by (simp add: WindowFor_def Let_def)

lemma SeqInRanges_in_range: "SeqInRanges seq rs \<longleftrightarrow> (\<exists>r\<in>set rs. in_range r (unat seq))"
  by (induction rs) (auto simp: in_range_def word_le_nat_alt)

lemma BuildAckRanges_exact:
  assumes rel: "seen_set C flow"
  shows "SeqInRanges seq (BuildAckRanges m flow) \<Longrightarrow> unat seq \<in> C"
    and "unat seq \<in> C \<Longrightarrow> unat (in_recvHighest flow) < unat seq + unat (in_windowBits flow) \<Longrightarrow> 0 < m \<Longrightarrow>
      SeqInRanges seq (BuildAckRanges m flow)
      \<or> (length (BuildAckRanges m flow) = m \<and> (\<forall>r\<in>set (BuildAckRanges m flow). unat seq < unat (ar_first r)))"
    and "descending (unat (in_recvHighest flow)) (BuildAckRanges m flow)"
proof -
  let ?W = "unat (in_windowBits flow)" and ?h = "unat (in_recvHighest flow)"
  let ?test = "\<lambda>s. SeenTest (in_seen flow) (of_nat s) (in_windowBits flow)"
  have sh: "window_shape flow" and C: "C \<subseteq> {1..?h}" using rel by (simp_all add: seen_set_def)
  note B = shape_bits [OF sh]
  have f1: "0 < nfloor ?W ?h" by (simp add: nfloor_def)
  have h: "?h < 4294967296" by (rule unat_u32_less)
  have test: "?test s \<longleftrightarrow> s \<in> C" if "nfloor ?W ?h \<le> s" "s \<le> ?h" for s
  proof -
    have u: "unat (of_nat s :: u32) = s" using that(2) h by (simp add: unat_of_nat)
    have "AlreadySeen (of_nat s) flow \<longleftrightarrow> ?test s"
      using that window_floor_nfloor [OF B(2), of "in_recvHighest flow"] u by (simp add: AlreadySeen_def word_less_nat_alt)
    then show ?thesis using AlreadySeen_exact [OF rel, of "of_nat s"] that f1 u by auto
  qed
  have e: "BuildAckRanges m flow = (if ?h = 0 \<or> m = 0 then [] else ack_ranges ?test (nfloor ?W ?h) m ?h)"
    by (simp add: BuildAckRanges_def window_floor_nfloor [OF B(2)] unat_eq_zero)
  let ?rs = "ack_ranges ?test (nfloor ?W ?h) m ?h"
  note R = ack_ranges_exact [OF f1 h, of ?test m]
  have R1: "r \<in> set ?rs \<Longrightarrow> in_range r x \<Longrightarrow> nfloor ?W ?h \<le> x \<and> x \<le> ?h \<and> ?test x" for r x using R by blast
  have R2: "nfloor ?W ?h \<le> x \<Longrightarrow> x \<le> ?h \<Longrightarrow> ?test x \<Longrightarrow>
      (\<exists>r\<in>set ?rs. in_range r x) \<or> (length ?rs = m \<and> (\<forall>r\<in>set ?rs. x < unat (ar_first r)))" for x using R by blast
  show "unat seq \<in> C" if q: "SeqInRanges seq (BuildAckRanges m flow)"
  proof -
    obtain r where r: "r \<in> set (BuildAckRanges m flow)" "in_range r (unat seq)" using q unfolding SeqInRanges_in_range by blast
    then have "r \<in> set ?rs" unfolding e by (simp split: if_splits)
    from R1 [OF this r(2)] show ?thesis using test by blast
  qed
  show "descending ?h (BuildAckRanges m flow)" unfolding e using R by (simp only: descending.simps if_split) simp
  show "SeqInRanges seq (BuildAckRanges m flow)
      \<or> (length (BuildAckRanges m flow) = m \<and> (\<forall>r\<in>set (BuildAckRanges m flow). unat seq < unat (ar_first r)))"
    if q: "unat seq \<in> C" "?h < unat seq + ?W" "0 < m"
  proof -
    have s: "nfloor ?W ?h \<le> unat seq" "unat seq \<le> ?h" using q C by (auto simp: nfloor_def)
    moreover have "?h \<noteq> 0" using q(1) C by auto
    then have "BuildAckRanges m flow = ?rs" unfolding e using q(3) by simp
    ultimately show ?thesis unfolding SeqInRanges_in_range using R2 [OF s] test [OF s] q(1) by simp
  qed
qed

text \<open>
  C7: An acknowledgement reports what arrived and nothing else. Whatever arrived in whatever order, a
  sequence inside a reported range was accepted; every accepted sequence of the current window is
  in a reported range, except that when all \<open>m\<close> ranges are used the ones missing are below all of
  them; and the ranges are newest first, disjoint and not adjacent.\<close>

theorem ack_reports_exactly_what_arrived:
  assumes "0 \<notin> set seqs" and "0 < m"
    and "flow = snd (arrivals seqs (ResetInAssoc ps pa pid fid mode ep (WindowFor mode) cap now old))"
    and "accepted = snd (arrivals_spec (unat (WindowFor mode)) (map unat seqs) {})"
  shows "(SeqInRanges seq (BuildAckRanges m flow) \<longrightarrow> unat seq \<in> accepted)
    \<and> (unat seq \<in> accepted \<and> Max (insert 0 accepted) < unat seq + unat (WindowFor mode) \<longrightarrow>
        SeqInRanges seq (BuildAckRanges m flow)
        \<or> length (BuildAckRanges m flow) = m \<and> (\<forall>r\<in>set (BuildAckRanges m flow). unat seq < unat (ar_first r)))
    \<and> descending (Max (insert 0 accepted)) (BuildAckRanges m flow)"
proof -
  have keep: "in_windowBits (snd (arrivals qs f)) = in_windowBits f" for qs f
  proof (induction qs arbitrary: f)
    case (Cons q qs)
    then show ?case by (simp add: case_prod_beta)
  qed simp
  have rel: "seen_rel accepted flow"
    using arrivals_refine [OF fresh_rel [OF refl] assms(1)] assms(3,4) by (simp add: ResetInAssoc_def)
  then have set: "seen_set accepted flow" by (simp add: seen_rel_def)
  have w: "in_windowBits flow = WindowFor mode" using keep assms(3) by (simp add: ResetInAssoc_def)
  show ?thesis using BuildAckRanges_exact [OF set] rel_high [OF rel] w assms(2) by metis
qed

theorem ack_reports_exactly_what_arrived_witness:
  "let flow = snd (arrivals [1, 3, 2, 9]
     (ResetInAssoc 0 no_address [] 7 RELIABLE_UNORDERED 0 (WindowFor RELIABLE_UNORDERED) 0 5 blank_in))
   in \<not> SeqInRanges 5 (BuildAckRanges 16 flow)
     \<and> (SeqInRanges 3 (BuildAckRanges 16 flow) \<or> length (BuildAckRanges 16 flow) = 16)"
proof -
  have spec: "snd (arrivals_spec (unat (WindowFor RELIABLE_UNORDERED)) (map unat [1, 3, 2, 9 :: u32]) {}) = {1, 2, 3, 9}"
    by (simp add: WindowFor_def Let_def) blast
  note T = ack_reports_exactly_what_arrived [OF _ _ refl refl, of "[1, 3, 2, 9]" 16 _ 0 no_address "[]" 7 RELIABLE_UNORDERED 0 0 5 blank_in,
      unfolded spec]
  show ?thesis using T [of 5] T [of 3] by (simp add: WindowFor_def Let_def del: arrivals.simps) blast
qed

end
