(* ===== verification/Ready_Lanes.thy ===== *)
theory Ready_Lanes
  imports Fifo_Queue
begin

text \<open>
  The lanes delivered packets wait in, \<^verbatim>\<open>ready_lanes.h\<close> and \<^verbatim>\<open>ready_lanes.cpp\<close>. A lane is a
  bounded queue, used here through its contract \<open>bounded_fifo\<close>; a queue operation that
  would wait is \<open>None\<close>. The theorems are that a key always falls in an existing lane, that a
  lane has one claimant, and that the packets of one peer leave in the order they entered.
\<close>

unbundle bit_operations_syntax

section \<open>Definitions\<close>

record ReadyEntry =
  re_slotIndex :: u32
  re_peerSlot :: u32

record ReadyLanes =
  rl_lanes :: "ReadyEntry FifoQueue list"
  rl_busy :: "bool list"
  rl_laneCount :: u32
  rl_laneShift :: u32

abbreviation (input) MAX_LANES :: "'a::numeral" where "MAX_LANES \<equiv> 16"
abbreviation (input) NO_LANE :: u32 where "NO_LANE \<equiv> 0xFFFFFFFF"
abbreviation (input) GOLDEN :: u32 where "GOLDEN \<equiv> 0x9E3779B1"

definition no_queue :: "ReadyEntry FifoQueue" where
  "no_queue = \<lparr>q_buffer = [], q_capacity = 0, q_mask = 0, q_head = 0, q_tail = 0\<rparr>"

definition lane_default :: ReadyEntry where
  "lane_default = \<lparr>re_slotIndex = 0, re_peerSlot = 0\<rparr>"

definition RL_fresh :: ReadyLanes where
  "RL_fresh = \<lparr>rl_lanes = replicate MAX_LANES no_queue, rl_busy = replicate MAX_LANES False,
     rl_laneCount = 0, rl_laneShift = 32\<rparr>"

definition count_lanes :: "u32 \<Rightarrow> (u32 \<times> u32) option" where
  "count_lanes laneCount =
     while_option (\<lambda>(count, bits). count < laneCount \<and> count < MAX_LANES)
       (\<lambda>(count, bits). (push_bit 1 count, bits + 1)) (1, 0)"

definition RL_Init :: "u32 \<Rightarrow> u32 \<Rightarrow> ReadyLanes \<Rightarrow> (bool \<times> ReadyLanes) option" where
  "RL_Init laneCount perLaneCapacity rl =
     (if perLaneCapacity = 0 then Some (False, rl)
      else case count_lanes laneCount of
        None \<Rightarrow> None
      | Some (count, bits) \<Rightarrow>
          Some (True, rl\<lparr>rl_lanes := map (\<lambda>i. if i < unat count then Fifo_Init lane_default perLaneCapacity
                                             else rl_lanes rl ! i) [0..<MAX_LANES],
                         rl_laneCount := count, rl_laneShift := 32 - bits\<rparr>))"

fun claim_from :: "u32 \<Rightarrow> u32 \<Rightarrow> nat \<Rightarrow> ReadyLanes \<Rightarrow> u32 \<times> ReadyLanes" where
  "claim_from start i 0 rl = (NO_LANE, rl)"
| "claim_from start i (Suc n) rl =
     (let lane = (start + i) mod rl_laneCount rl
      in if \<not> rl_busy rl ! unat lane then (lane, rl\<lparr>rl_busy := (rl_busy rl)[unat lane := True]\<rparr>)
         else claim_from start (i + 1) n rl)"

definition ClaimLane :: "u32 \<Rightarrow> ReadyLanes \<Rightarrow> u32 \<times> ReadyLanes" where
  "ClaimLane wanted rl =
     (if rl_laneCount rl = 0 then (NO_LANE, rl)
      else claim_from (if wanted < rl_laneCount rl then wanted else 0) 0 (unat (rl_laneCount rl)) rl)"

definition ReleaseLane :: "u32 \<Rightarrow> ReadyLanes \<Rightarrow> ReadyLanes" where
  "ReleaseLane lane rl =
     (if lane < rl_laneCount rl then rl\<lparr>rl_busy := (rl_busy rl)[unat lane := False]\<rparr> else rl)"

definition LaneOf :: "u32 \<Rightarrow> ReadyLanes \<Rightarrow> u32" where
  "LaneOf key rl = (if 1 < rl_laneCount rl then drop_bit (unat (rl_laneShift rl)) (key * GOLDEN) else 0)"

definition RL_Push :: "u32 \<Rightarrow> u32 \<Rightarrow> u32 \<Rightarrow> ReadyLanes \<Rightarrow> (bool \<times> ReadyLanes) option" where
  "RL_Push lane slotIndex peerSlot rl =
     (if lane < rl_laneCount rl
      then map_option (\<lambda>(ok, q). (ok, rl\<lparr>rl_lanes := (rl_lanes rl)[unat lane := q]\<rparr>))
             (Fifo_Push (rl_lanes rl ! unat lane) \<lparr>re_slotIndex = slotIndex, re_peerSlot = peerSlot\<rparr>)
      else Some (False, rl))"

definition RL_Pop :: "u32 \<Rightarrow> ReadyLanes \<Rightarrow> (ReadyEntry option \<times> ReadyLanes) option" where
  "RL_Pop lane rl =
     (if lane < rl_laneCount rl
      then map_option (\<lambda>(e, q). (e, rl\<lparr>rl_lanes := (rl_lanes rl)[unat lane := q]\<rparr>))
             (Fifo_Pop (rl_lanes rl ! unat lane))
      else Some (None, rl))"

definition RL_Shutdown :: "ReadyLanes \<Rightarrow> ReadyLanes" where
  "RL_Shutdown rl = RL_fresh"

text \<open>
  A use of the lanes: packets of peers delivered into the lane of their peer, lanes popped in
  any order. The two lists remember what was accepted and what came out.\<close>

datatype lane_op = Deliver u32 u32 | PopLane u32

fun lane_step :: "ReadyLanes \<times> ReadyEntry list \<times> ReadyEntry list \<Rightarrow> lane_op
    \<Rightarrow> (unit \<times> ReadyLanes \<times> ReadyEntry list \<times> ReadyEntry list) option" where
  "lane_step (rl, pushed, popped) (Deliver slotIndex peerSlot) =
     map_option (\<lambda>(ok, rl'). ((), rl', if ok then pushed @ [\<lparr>re_slotIndex = slotIndex, re_peerSlot = peerSlot\<rparr>] else pushed, popped))
       (RL_Push (LaneOf peerSlot rl) slotIndex peerSlot rl)"
| "lane_step (rl, pushed, popped) (PopLane lane) =
     map_option (\<lambda>(e, rl'). ((), rl', pushed, case e of None \<Rightarrow> popped | Some x \<Rightarrow> popped @ [x]))
       (RL_Pop lane rl)"

section \<open>How many lanes\<close>

lemma count_lanes_result:
  "count_lanes n = Some (if n \<le> 1 then (1, 0) else if n \<le> 2 then (2, 1) else if n \<le> 4 then (4, 2)
     else if n \<le> 8 then (8, 3) else (16, 4))"
proof -
  let ?b = "\<lambda>(count, bits :: u32). count < n \<and> count < (MAX_LANES :: u32)"
  let ?f = "while_option ?b (\<lambda>(count, bits). (push_bit 1 count, bits + 1))"
  have step: "?f (count, bits) = (if count < n \<and> count < MAX_LANES then ?f (push_bit 1 count, bits + 1) else Some (count, bits))"
    for count bits by (subst while_option_unfold) (simp only: case_prod_conv)
  have "?f (1, 0) = (if 1 < n then ?f (2, 1) else Some (1, 0))" "?f (2, 1) = (if 2 < n then ?f (4, 2) else Some (2, 1))"
    "?f (4, 2) = (if 4 < n then ?f (8, 3) else Some (4, 2))" "?f (8, 3) = (if 8 < n then ?f (16, 4) else Some (8, 3))"
    "?f (16, 4) = Some (16, 4)"
    using step [of 1 0] step [of 2 1] step [of 4 2] step [of 8 3] step [of 16 4] by simp_all
  then show ?thesis unfolding count_lanes_def by (simp only: not_le [symmetric] if_distrib [of Some] if_not_P) simp
qed

lemma count_lanes_four: "count_lanes 4 = Some (4, 2)"
  by (simp add: count_lanes_result word_le_nat_alt)

definition lanes_shape :: "ReadyLanes \<Rightarrow> bool" where
  "lanes_shape rl \<longleftrightarrow> length (rl_lanes rl) = MAX_LANES \<and> length (rl_busy rl) = MAX_LANES
     \<and> (rl_laneCount rl, rl_laneShift rl) \<in> {(1, 32), (2, 31), (4, 30), (8, 29), (16, 28)}"

lemma Init_shape:
  assumes "RL_Init n c RL_fresh = Some (True, rl)"
  shows "lanes_shape rl" and "c \<noteq> 0"
    and "\<And>i. i < unat (rl_laneCount rl) \<Longrightarrow> rl_lanes rl ! i = Fifo_Init lane_default c"
    and "rl_busy rl = replicate 16 False"
  using assms by (auto simp: RL_Init_def count_lanes_result lanes_shape_def RL_fresh_def split: if_splits)

lemma LaneOf_bound:
  assumes "lanes_shape rl" shows "LaneOf key rl < rl_laneCount rl"
proof -
  have d: "drop_bit n x < (2 :: u32) ^ m" if "n + m = 32" "m < 32" for n m and x :: u32
  proof -
    have "unat x < 2 ^ m * 2 ^ n" using unat_u32_less [of x] that by (simp add: power_add [symmetric] add.commute)
    then have "unat x div 2 ^ n < 2 ^ m" by (rule less_mult_imp_div_less)
    moreover have "unat (drop_bit n x) = unat x div 2 ^ n" by (metis unat_drop_bit_eq drop_bit_eq_div)
    ultimately show ?thesis using that by (simp add: word_less_nat_alt unat_exp)
  qed
  show ?thesis using assms d [of 31 1] d [of 30 2] d [of 29 3] d [of 28 4]
    by (auto simp: lanes_shape_def LaneOf_def)
qed

section \<open>Claiming\<close>

lemma claim_from_spec:
  assumes "lanes_shape rl" and "hop + n = unat (rl_laneCount rl)"
    and "\<forall>h<hop. rl_busy rl ! ((unat start + h) mod unat (rl_laneCount rl))"
    and "unat start < unat (rl_laneCount rl)"
  shows "case claim_from start (of_nat hop) n rl of (lane, rl') \<Rightarrow>
    if \<forall>i<unat (rl_laneCount rl). rl_busy rl ! i then lane = NO_LANE \<and> rl' = rl
    else lane < rl_laneCount rl \<and> \<not> rl_busy rl ! unat lane \<and> rl' = rl\<lparr>rl_busy := (rl_busy rl)[unat lane := True]\<rparr>"
  using assms(2,3)
proof (induction n arbitrary: hop)
  case 0
  have "rl_busy rl ! i" if i: "i < unat (rl_laneCount rl)" for i
  proof -
    obtain h where "h < unat (rl_laneCount rl)" "(unat start + h) mod unat (rl_laneCount rl) = i"
      using hops_reach_all [OF i] by blast
    then show ?thesis using 0 by auto
  qed
  then show ?case by simp
next
  case (Suc n)
  let ?c = "unat (rl_laneCount rl)"
  have c: "?c \<le> 16" using assms(1) by (auto simp: lanes_shape_def)
  have "unat (start + of_nat hop) = unat start + hop"
    using Suc.prems(1) assms(4) c by (subst unat_add_small) (simp_all add: unat_of_nat)
  then have u: "unat ((start + of_nat hop) mod rl_laneCount rl) = (unat start + hop) mod ?c" by (simp add: unat_mod)
  then have lt: "(start + of_nat hop) mod rl_laneCount rl < rl_laneCount rl"
    using assms(4) by (simp add: word_less_nat_alt)
  show ?case
  proof (cases "rl_busy rl ! ((unat start + hop) mod ?c)")
    case True
    then have "\<forall>h<Suc hop. rl_busy rl ! ((unat start + h) mod ?c)" using Suc.prems(2) by (auto simp: less_Suc_eq)
    then show ?thesis using Suc.IH [of "Suc hop"] Suc.prems(1) True u by (simp add: Let_def add.commute)
  next
    case False
    then have "\<not> (\<forall>i<?c. rl_busy rl ! i)" using u lt by (auto simp: word_less_nat_alt)
    then show ?thesis using False u lt by (auto simp: Let_def)
  qed
qed

lemma ClaimLane_spec:
  assumes "lanes_shape rl"
  shows "case ClaimLane wanted rl of (lane, rl') \<Rightarrow>
    if \<forall>i<unat (rl_laneCount rl). rl_busy rl ! i then lane = NO_LANE \<and> rl' = rl
    else lane < rl_laneCount rl \<and> \<not> rl_busy rl ! unat lane \<and> rl' = rl\<lparr>rl_busy := (rl_busy rl)[unat lane := True]\<rparr>"
proof -
  let ?start = "if wanted < rl_laneCount rl then wanted else 0"
  have nz: "rl_laneCount rl \<noteq> 0" using assms by (auto simp: lanes_shape_def)
  then have "unat ?start < unat (rl_laneCount rl)" by (auto simp: word_less_nat_alt unat_gt_0)
  from claim_from_spec [OF assms _ _ this, of 0] show ?thesis using nz by (simp add: ClaimLane_def)
qed

text \<open>
  C32: A lane has one claimant. Whichever lane the caller prefers, \<open>ClaimLane\<close> takes a lane that was
  free, of those that exist, and marks only that one; it reports no lane exactly when every
  lane is taken, and releasing the claimed lane restores the state before the claim.\<close>

theorem claim_takes_a_free_lane:
  assumes "RL_Init n c RL_fresh = Some (True, rl0)" and "rl = rl0\<lparr>rl_busy := busy\<rparr>" and "length busy = MAX_LANES"
  shows "case ClaimLane wanted rl of (lane, rl') \<Rightarrow>
    if \<forall>i<unat (rl_laneCount rl). rl_busy rl ! i then lane = NO_LANE \<and> rl' = rl
    else lane < rl_laneCount rl \<and> \<not> rl_busy rl ! unat lane \<and> rl_busy rl' = (rl_busy rl)[unat lane := True]
       \<and> ReleaseLane lane rl' = rl"
proof -
  have sh: "lanes_shape rl" using Init_shape(1) [OF assms(1)] assms(2,3) by (simp add: lanes_shape_def)
  have "ReleaseLane lane (rl\<lparr>rl_busy := (rl_busy rl)[unat lane := True]\<rparr>) = rl" if "lane < rl_laneCount rl" "\<not> rl_busy rl ! unat lane" for lane
    using that list_update_id [of "rl_busy rl" "unat lane"] by (simp add: ReleaseLane_def)
  with ClaimLane_spec [OF sh, of wanted] show ?thesis by (auto split: prod.splits if_splits)
qed

theorem claim_takes_a_free_lane_witness:
  "\<exists>rl0. RL_Init 4 64 RL_fresh = Some (True, rl0) \<and>
    fst (ClaimLane 2 (rl0\<lparr>rl_busy := [True, True, True] @ replicate 13 False\<rparr>)) = 3"
proof -
  obtain rl0 where rl0: "RL_Init 4 64 RL_fresh = Some (True, rl0)" "rl_laneCount rl0 = 4"
    using count_lanes_four by (auto simp: RL_Init_def)
  define busy where "busy = [True, True, True] @ replicate 13 False"
  let ?rl = "rl0\<lparr>rl_busy := busy\<rparr>"
  obtain lane rl' where c: "ClaimLane 2 ?rl = (lane, rl')" by (cases "ClaimLane 2 ?rl")
  have len: "length busy = 16" by (simp add: busy_def)
  have b: "busy ! i = (i < 3)" if "i < 4" for i using that by (auto simp: busy_def nth_append nth_Cons split: nat.splits)
  have nf: "\<not> (\<forall>i<4. busy ! i)" using b [of 3] by (auto intro!: exI [of _ 3])
  have "lane < 4 \<and> \<not> busy ! unat lane"
    using claim_takes_a_free_lane [OF rl0(1) refl len, of 2] rl0(2) nf by (simp add: c)
  then have "unat lane < 4" "\<not> unat lane < 3" using b [of "unat lane"] by (simp_all add: word_less_nat_alt)
  then have "unat lane = unat (3 :: u32)" by simp
  then have "lane = 3" by (simp only: word_unat_eq_iff)
  then show ?thesis using rl0(1) c unfolding busy_def by auto
qed

section \<open>Order\<close>

definition of_lane :: "ReadyLanes \<Rightarrow> nat \<Rightarrow> ReadyEntry \<Rightarrow> bool" where
  "of_lane rl i e \<longleftrightarrow> unat (LaneOf (re_peerSlot e) rl) = i"

definition lanes_inv :: "ReadyLanes \<times> ReadyEntry list \<times> ReadyEntry list \<Rightarrow> bool" where
  "lanes_inv = (\<lambda>(rl, pushed, popped). lanes_shape rl \<and>
     (\<forall>i<unat (rl_laneCount rl). fifo_inv (rl_lanes rl ! i) \<and> 2 \<le> unat (q_capacity (rl_lanes rl ! i))
        \<and> filter (of_lane rl i) pushed = filter (of_lane rl i) popped @ fifo_abs (rl_lanes rl ! i)
        \<and> (\<forall>e\<in>set (fifo_abs (rl_lanes rl ! i)). of_lane rl i e)))"

lemma of_lane_update [simp]: "of_lane (rl\<lparr>rl_lanes := ls\<rparr>) = of_lane rl" "LaneOf key (rl\<lparr>rl_lanes := ls\<rparr>) = LaneOf key rl"
  by (simp_all add: of_lane_def LaneOf_def fun_eq_iff)

lemma lanes_inv_lane:
  assumes "lanes_inv (rl, pushed, popped)" and "i < unat (rl_laneCount rl)"
  shows "fifo_inv (rl_lanes rl ! i)" "2 \<le> unat (q_capacity (rl_lanes rl ! i))"
    "filter (of_lane rl i) pushed = filter (of_lane rl i) popped @ fifo_abs (rl_lanes rl ! i)"
    "\<forall>e\<in>set (fifo_abs (rl_lanes rl ! i)). of_lane rl i e" "i < length (rl_lanes rl)"
  using assms by (auto simp: lanes_inv_def lanes_shape_def)

lemma deliver_step:
  assumes inv: "lanes_inv (rl, pushed, popped)"
  shows "\<exists>st. lane_step (rl, pushed, popped) (Deliver s p) = Some ((), st) \<and> lanes_inv st"
proof -
  let ?l = "LaneOf p rl" and ?e = "\<lparr>re_slotIndex = s, re_peerSlot = p\<rparr>"
  have sh: "lanes_shape rl" using inv by (simp add: lanes_inv_def)
  have lt: "?l < rl_laneCount rl" by (rule LaneOf_bound [OF sh])
  then have lu: "unat ?l < unat (rl_laneCount rl)" by (simp add: word_less_nat_alt)
  note L = lanes_inv_lane [OF inv lu]
  let ?q = "rl_lanes rl ! unat ?l"
  show ?thesis
  proof (cases "length (fifo_abs ?q) < unat (q_capacity ?q)")
    case True
    then obtain q where q: "Fifo_Push ?q ?e = Some (True, q)" "fifo_inv q" "fifo_abs q = fifo_abs ?q @ [?e]" "q_capacity q = q_capacity ?q"
      using push_space [OF L(1), of ?e] by auto
    let ?rl = "rl\<lparr>rl_lanes := (rl_lanes rl)[unat ?l := q]\<rparr>"
    have me: "of_lane rl i ?e \<longleftrightarrow> i = unat ?l" for i by (auto simp: of_lane_def)
    have "lanes_inv (?rl, pushed @ [?e], popped)"
      using inv q L me by (auto simp: lanes_inv_def lanes_shape_def nth_list_update)
    then show ?thesis using q(1) lt by (simp add: RL_Push_def)
  next
    case False
    then have "Fifo_Push ?q ?e = Some (False, ?q)"
      using push_full [OF L(1), of ?e] L(1,2) by (simp add: fifo_inv_def)
    then show ?thesis using lt inv L(5) by (simp add: RL_Push_def)
  qed
qed

lemma pop_step:
  assumes inv: "lanes_inv (rl, pushed, popped)"
  shows "\<exists>st. lane_step (rl, pushed, popped) (PopLane lane) = Some ((), st) \<and> lanes_inv st"
proof (cases "lane < rl_laneCount rl")
  case True
  then have lu: "unat lane < unat (rl_laneCount rl)" by (simp add: word_less_nat_alt)
  note L = lanes_inv_lane [OF inv lu]
  let ?q = "rl_lanes rl ! unat lane"
  show ?thesis
  proof (cases "fifo_size ?q = 0")
    case False
    then obtain x q where q: "Fifo_Pop ?q = Some (Some x, q)" "fifo_inv q" "fifo_abs ?q = x # fifo_abs q" "q_capacity q = q_capacity ?q"
      using pop_nonempty [OF L(1)] by auto
    let ?rl = "rl\<lparr>rl_lanes := (rl_lanes rl)[unat lane := q]\<rparr>"
    have mx: "of_lane rl i x \<longleftrightarrow> i = unat lane" for i using L(4) q(3) by (auto simp: of_lane_def)
    have "lanes_inv (?rl, pushed, popped @ [x])"
      using inv q L mx by (auto simp: lanes_inv_def lanes_shape_def nth_list_update)
    then show ?thesis using q(1) True by (simp add: RL_Pop_def)
  next
    case True
    then have "Fifo_Pop ?q = Some (None, ?q)" by (rule pop_empty [OF L(1)])
    then show ?thesis using \<open>lane < rl_laneCount rl\<close> inv L(5) by (simp add: RL_Pop_def)
  qed
qed (use inv in \<open>simp add: RL_Pop_def\<close>)

lemma run_lanes_inv:
  assumes "lanes_inv st"
  shows "\<exists>us st'. run_ops lane_step st ops = Some (us, st') \<and> lanes_inv st'"
  using assms
proof (induction ops arbitrary: st)
  case (Cons op ops)
  obtain rl pushed popped where st: "st = (rl, pushed, popped)" by (cases st)
  obtain st1 where "lane_step st op = Some ((), st1)" "lanes_inv st1"
    using deliver_step pop_step Cons.prems unfolding st by (cases op) metis+
  then show ?case using Cons.IH [of st1] by auto
qed simp

lemma lanes_inv_Init:
  assumes "RL_Init n c RL_fresh = Some (True, rl)" and "2 \<le> unat c" and "unat c \<le> 2147483648"
  shows "lanes_inv (rl, [], [])"
proof -
  have "2 \<le> unat (NextPowerOfTwo c)" using NextPowerOfTwo_ge [of c] assms(2,3) by simp
  then show ?thesis
    using Init_shape [OF assms(1)] Fifo_Init_inv [of c lane_default] assms(2,3) by (simp add: lanes_inv_def Fifo_Init_capacity)
qed

lemma lanes_inv_peer:
  assumes "lanes_inv (rl, pushed, popped)"
  shows "filter (\<lambda>e. re_peerSlot e = p) pushed = filter (\<lambda>e. re_peerSlot e = p) popped
    @ filter (\<lambda>e. re_peerSlot e = p) (fifo_abs (rl_lanes rl ! unat (LaneOf p rl)))"
proof -
  let ?i = "unat (LaneOf p rl)"
  have "lanes_shape rl" using assms by (simp add: lanes_inv_def)
  then have "?i < unat (rl_laneCount rl)" using LaneOf_bound by (simp add: word_less_nat_alt)
  note L = lanes_inv_lane(3) [OF assms this]
  have "filter (\<lambda>e. re_peerSlot e = p) xs = filter (\<lambda>e. re_peerSlot e = p) (filter (of_lane rl ?i) xs)" for xs
    unfolding filter_filter by (rule filter_cong) (auto simp: of_lane_def)
  then show ?thesis using L by (metis filter_append)
qed

text \<open>
  C31: What the receiver put in order, the application gets in order. However deliveries from many
  peers and pops of the lanes interleave, no operation blocks, and for every peer the entries
  accepted for it are those already popped, followed by those still in its lane, in the order
  they were accepted; nothing is lost, repeated or reordered within a peer.\<close>

theorem lanes_keep_peer_order:
  assumes "RL_Init n c RL_fresh = Some (True, rl)" and "2 \<le> unat c" and "unat c \<le> 2147483648"
  shows "\<exists>us rl' pushed popped. run_ops lane_step (rl, [], []) ops = Some (us, (rl', pushed, popped))
    \<and> (\<forall>p. filter (\<lambda>e. re_peerSlot e = p) pushed = filter (\<lambda>e. re_peerSlot e = p) popped
            @ filter (\<lambda>e. re_peerSlot e = p) (fifo_abs (rl_lanes rl' ! unat (LaneOf p rl'))))"
proof -
  obtain us st where run: "run_ops lane_step (rl, [], []) ops = Some (us, st)" "lanes_inv st"
    using run_lanes_inv [OF lanes_inv_Init [OF assms]] by blast
  obtain rl' pushed popped where st: "st = (rl', pushed, popped)" by (cases st)
  then show ?thesis using run lanes_inv_peer by blast
qed

theorem lanes_keep_peer_order_witness:
  "\<exists>rl us rl' pushed popped. RL_Init 4 64 RL_fresh = Some (True, rl)
    \<and> run_ops lane_step (rl, [], []) [Deliver 10 1, Deliver 11 2, Deliver 12 1, PopLane 2, PopLane 1] = Some (us, (rl', pushed, popped))
    \<and> filter (\<lambda>e. re_peerSlot e = 1) pushed = filter (\<lambda>e. re_peerSlot e = 1) popped
            @ filter (\<lambda>e. re_peerSlot e = 1) (fifo_abs (rl_lanes rl' ! unat (LaneOf 1 rl')))"
proof -
  obtain rl where "RL_Init 4 64 RL_fresh = Some (True, rl)" using count_lanes_four by (auto simp: RL_Init_def)
  with lanes_keep_peer_order [OF this, of "[Deliver 10 1, Deliver 11 2, Deliver 12 1, PopLane 2, PopLane 1]"]
  show ?thesis by (simp del: run_ops.simps) blast
qed

end
