(* ===== verification/Flow_Delivery.thy ===== *)
theory Flow_Delivery
  imports Flow_Window Ready_Lanes
begin

text \<open>
  Delivery on the receiving side, from the end of \<^verbatim>\<open>flow_table.cpp\<close>, and the per-peer occupancy
  of \<^verbatim>\<open>peer_recv_state.h\<close>. A packet arrives as the index of its receive slot; the
  handle that owns it is the index, or \<open>INVALID\<close> once detached. The association is passed
  in and returned; the lanes, the occupancies, the receive pool and the held total form the
  receive side. A lane operation that would wait makes the whole operation \<open>None\<close>. Each
  atomic counter is one word, as in a run without interleaving.
\<close>

unbundle bit_operations_syntax

section \<open>Definitions\<close>

record PeerRecvState =
  pr_occupancy :: u32
  pr_grant :: u32
  pr_stallReclaims :: u32
  pr_lastStallMicros :: u64

definition PinOne :: "PeerRecvState \<Rightarrow> PeerRecvState" where
  "PinOne p = p\<lparr>pr_occupancy := pr_occupancy p + 1\<rparr>"

definition ReleaseOne :: "PeerRecvState \<Rightarrow> PeerRecvState" where
  "ReleaseOne p = (if 0 < pr_occupancy p then p\<lparr>pr_occupancy := pr_occupancy p - 1\<rparr> else p)"

definition PeerRecvState_Reset :: "PeerRecvState \<Rightarrow> PeerRecvState" where
  "PeerRecvState_Reset p = \<lparr>pr_occupancy = 0, pr_grant = 0, pr_stallReclaims = 0, pr_lastStallMicros = 0\<rparr>"

record RecvSide =
  rs_lanes :: ReadyLanes
  rs_peers :: "PeerRecvState list"
  rs_heldTotal :: u32
  rs_holdCeiling :: u32
  rs_recvPool :: SlotPool

definition on_peer :: "(PeerRecvState \<Rightarrow> PeerRecvState) \<Rightarrow> u32 \<Rightarrow> RecvSide \<Rightarrow> RecvSide" where
  "on_peer f peerSlot rs = rs\<lparr>rs_peers := (rs_peers rs)[unat peerSlot := f (rs_peers rs ! unat peerSlot)]\<rparr>"

definition pin :: "u32 \<Rightarrow> RecvSide \<Rightarrow> RecvSide" where
  "pin peerSlot rs = (on_peer PinOne peerSlot rs)\<lparr>rs_heldTotal := rs_heldTotal rs + 1\<rparr>"

definition QueueReady :: "u32 \<Rightarrow> u32 \<Rightarrow> RecvSide \<Rightarrow> (bool \<times> RecvSide) option" where
  "QueueReady idx peerSlot rs =
     (if idx = INVALID then Some (False, rs)
      else case RL_Push (LaneOf peerSlot (rs_lanes rs)) idx peerSlot (rs_lanes rs) of
             None \<Rightarrow> None
           | Some (ok, lanes) \<Rightarrow>
               if \<not> ok then Some (False, rs\<lparr>rs_lanes := lanes\<rparr>)
               else Some (True, pin peerSlot (rs\<lparr>rs_lanes := lanes\<rparr>)))"

definition HasRoomFor :: "u32 \<Rightarrow> RecvSide \<Rightarrow> bool" where
  "HasRoomFor peerSlot rs =
     (let p = rs_peers rs ! unat peerSlot
      in if pr_grant p \<noteq> 0 \<and> pr_grant p \<le> pr_occupancy p then False
         else rs_heldTotal rs < rs_holdCeiling rs)"

type_synonym delivery = "u32 \<times> u32 \<times> InAssociation \<times> RecvSide"

definition DeliverUnordered :: "u32 \<Rightarrow> u64 \<Rightarrow> u32 \<Rightarrow> InAssociation \<Rightarrow> RecvSide \<Rightarrow> delivery option" where
  "DeliverUnordered seq now incoming flow rs =
     (if AlreadySeen seq flow then Some (0, incoming, ArmAckForArrival False now flow, rs)
      else if in_mode flow = UNRELIABLE \<and> seq \<le> in_recvHighest flow
      then Some (0, incoming, ArmAckForArrival True now (CommitSeen seq flow), rs)
      else if \<not> HasRoomFor (in_peerSlot flow) rs then Some (0, incoming, ArmAckForArrival False now flow, rs)
      else case QueueReady incoming (in_peerSlot flow) rs of
             None \<Rightarrow> None
           | Some (ok, rs) \<Rightarrow>
               if \<not> ok then Some (0, incoming, flow, rs)
               else Some (1, INVALID, ArmAckForArrival True now (CommitSeen seq flow), rs))"

definition next_seq :: "u32 \<Rightarrow> u32" where
  "next_seq seq = (if seq + 1 = 0 then 1 else seq + 1)"

definition holdback_at :: "u32 \<Rightarrow> InAssociation \<Rightarrow> nat" where
  "holdback_at seq flow = unat (seq AND (ucast (in_reorderCap flow) - 1))"

partial_function (option) DrainHoldbackRun :: "u32 \<Rightarrow> InAssociation \<Rightarrow> RecvSide \<Rightarrow> (u32 \<times> InAssociation \<times> RecvSide) option" where
  "DrainHoldbackRun produced flow rs =
     (if in_reorderCap flow = 0 then Some (produced, flow, rs)
      else let i = holdback_at (in_recvNext flow) flow; held = in_holdback flow ! i
           in if hb_packetSlot held = INVALID \<or> hb_seq held \<noteq> in_recvNext flow then Some (produced, flow, rs)
              else case RL_Push (LaneOf (in_peerSlot flow) (rs_lanes rs)) (hb_packetSlot held) (in_peerSlot flow) (rs_lanes rs) of
                     None \<Rightarrow> None
                   | Some (ok, lanes) \<Rightarrow>
                       if \<not> ok then Some (produced, flow, rs\<lparr>rs_lanes := lanes\<rparr>)
                       else DrainHoldbackRun (produced + 1)
                              (flow\<lparr>in_holdback := (in_holdback flow)[i := no_held],
                                    in_heldCount := (if 0 < in_heldCount flow then in_heldCount flow - 1 else in_heldCount flow),
                                    in_recvNext := next_seq (in_recvNext flow)\<rparr>)
                              (rs\<lparr>rs_lanes := lanes\<rparr>))"

declare DrainHoldbackRun.simps [code]

definition DeliverOrdered :: "u32 \<Rightarrow> u64 \<Rightarrow> u32 \<Rightarrow> InAssociation \<Rightarrow> RecvSide \<Rightarrow> delivery option" where
  "DeliverOrdered seq now incoming flow rs =
     (if seq < in_recvNext flow
      then Some (0, incoming, ArmAckForArrival False now (flow\<lparr>in_ackImmediate := True\<rparr>), rs)
      else if seq = in_recvNext flow then
        if in_heldCount flow = 0 \<and> \<not> HasRoomFor (in_peerSlot flow) rs
        then Some (0, incoming, ArmAckForArrival False now flow, rs)
        else (case QueueReady incoming (in_peerSlot flow) rs of
                None \<Rightarrow> None
              | Some (ok, rs) \<Rightarrow>
                  if \<not> ok then Some (0, incoming, flow, rs)
                  else map_option (\<lambda>(n, flow, rs). (1 + n, INVALID, flow, rs))
                         (DrainHoldbackRun 0
                            ((ArmAckForArrival True now (CommitSeen seq flow))\<lparr>in_recvNext := next_seq seq\<rparr>) rs))
      else if 0 < in_reorderCap flow \<and> HasRoomFor (in_peerSlot flow) rs
              \<and> seq < in_recvNext flow + ucast (in_reorderCap flow)
      then (let i = holdback_at seq flow
            in if hb_packetSlot (in_holdback flow ! i) = INVALID
               then Some (0, INVALID,
                      ArmAckForArrival True now
                        ((CommitSeen seq (flow\<lparr>in_holdback := (in_holdback flow)[i := \<lparr>hb_seq = seq, hb_packetSlot = incoming\<rparr>],
                                               in_heldCount := in_heldCount flow + 1\<rparr>))\<lparr>in_ackImmediate := True\<rparr>),
                      pin (in_peerSlot flow) rs)
               else Some (0, incoming, flow, rs))
      else Some (0, incoming, ArmAckForArrival False now (flow\<lparr>in_ackImmediate := True\<rparr>), rs))"

definition DeliverIn :: "u16 \<Rightarrow> u32 \<Rightarrow> u32 \<Rightarrow> u64 \<Rightarrow> u32 \<Rightarrow> InAssociation \<Rightarrow> RecvSide \<Rightarrow> delivery option" where
  "DeliverIn flowId assocEpoch seq now incoming flow rs =
     (if in_epoch flow = assocEpoch \<and> in_life flow = OPEN \<and> in_flowId flow = flowId
      then map_option (\<lambda>(n, incoming, flow', rs).
             (n, incoming, if in_recvNext flow' \<noteq> in_recvNext flow then flow'\<lparr>in_lastProgressMicros := now\<rparr> else flow', rs))
             (if IsOrdered (in_mode flow) then DeliverOrdered seq now incoming flow rs
              else DeliverUnordered seq now incoming flow rs)
      else Some (0, incoming, flow, rs))"

text \<open>Letting go of what is held: both loops over the ring, with and without forgetting the bit.\<close>

definition let_go :: "bool \<Rightarrow> nat \<Rightarrow> u32 \<times> InAssociation \<times> RecvSide \<Rightarrow> (u32 \<times> InAssociation \<times> RecvSide) option" where
  "let_go forget i = (\<lambda>(dropped, flow, rs).
     let held = in_holdback flow ! i
     in if hb_packetSlot held = INVALID then Some (dropped, flow, rs)
        else case SlotPool_Release (hb_packetSlot held) (rs_recvPool rs) of
               None \<Rightarrow> None
             | Some pool \<Rightarrow>
                 Some (dropped + 1,
                       flow\<lparr>in_heldCount := (if 0 < in_heldCount flow then in_heldCount flow - 1 else in_heldCount flow),
                            in_seen := (if forget then SeenClear (in_seen flow) (hb_seq held) (in_windowBits flow) else in_seen flow),
                            in_holdback := (in_holdback flow)[i := no_held]\<rparr>,
                       (on_peer ReleaseOne (in_peerSlot flow) (rs\<lparr>rs_recvPool := pool\<rparr>))\<lparr>rs_heldTotal := rs_heldTotal rs - 1\<rparr>))"

fun let_go_all :: "bool \<Rightarrow> nat list \<Rightarrow> u32 \<times> InAssociation \<times> RecvSide \<Rightarrow> (u32 \<times> InAssociation \<times> RecvSide) option" where
  "let_go_all forget [] st = Some st"
| "let_go_all forget (i # is) st =
     (case let_go forget i st of None \<Rightarrow> None | Some st' \<Rightarrow> let_go_all forget is st')"

definition DropInHoldback :: "InAssociation \<Rightarrow> RecvSide \<Rightarrow> (u32 \<times> InAssociation \<times> RecvSide) option" where
  "DropInHoldback flow rs =
     (if in_reorderCap flow = 0 then Some (0, flow, rs)
      else let_go_all True [0..<unat (in_reorderCap flow)] (0, flow, rs))"

definition DrainInHoldback :: "InAssociation \<Rightarrow> RecvSide \<Rightarrow> (InAssociation \<times> RecvSide) option" where
  "DrainInHoldback flow rs =
     (if in_reorderCap flow = 0 then Some (flow, rs)
      else map_option snd (let_go_all False [0..<unat (in_reorderCap flow)] (0, flow, rs)))"

text \<open>Jams, for one association of a peer; the scan over the peer's associations repeats it.\<close>

definition InAssocJammed :: "u64 \<Rightarrow> u64 \<Rightarrow> InAssociation \<Rightarrow> bool" where
  "InAssocJammed flowStallTimeout now flow \<longleftrightarrow>
     0 < in_reorderCap flow \<and> in_recvNext flow \<le> in_recvHighest flow
     \<and> flowStallTimeout < Elapsed now (in_lastProgressMicros flow)"

definition ReclaimJammed :: "u64 \<Rightarrow> u32 \<Rightarrow> u64 \<Rightarrow> InAssociation \<Rightarrow> RecvSide \<Rightarrow> (u32 \<times> InAssociation \<times> RecvSide) option" where
  "ReclaimJammed flowStallTimeout peerSlot now flow rs =
     (if InAssocJammed flowStallTimeout now flow
      then case DropInHoldback flow rs of
             None \<Rightarrow> None
           | Some (dropped, flow, rs) \<Rightarrow>
               Some (if 0 < dropped then 1 else 0, (ArmAck now flow)\<lparr>in_lastProgressMicros := now\<rparr>,
                     if 0 < dropped
                     then on_peer (\<lambda>p. p\<lparr>pr_stallReclaims := pr_stallReclaims p + 1, pr_lastStallMicros := now\<rparr>) peerSlot rs
                     else rs)
      else Some (0, flow, rs))"


text \<open>
  A run of one association's receiving end: packets of it arriving in receive slots, packets of
  other peers entering the lanes, lanes polled, jams reclaimed. The list is what the polls returned.\<close>

datatype recv_op = Arrive u32 u32 u64 | OtherPeer u32 u32 | Poll u32 | Sweep u64 u64

fun recv_step :: "InAssociation \<times> RecvSide \<times> ReadyEntry list \<Rightarrow> recv_op
    \<Rightarrow> (u32 \<times> InAssociation \<times> RecvSide \<times> ReadyEntry list) option" where
  "recv_step (flow, rs, polled) (Arrive seq slot now) =
     map_option (\<lambda>(n, incoming, flow, rs). (n, flow, rs, polled))
       (DeliverIn (in_flowId flow) (in_epoch flow) seq now slot flow rs)"
| "recv_step (flow, rs, polled) (OtherPeer slot p) =
     map_option (\<lambda>(ok, lanes). (0, flow, rs\<lparr>rs_lanes := lanes\<rparr>, polled))
       (RL_Push (LaneOf p (rs_lanes rs)) slot p (rs_lanes rs))"
| "recv_step (flow, rs, polled) (Poll lane) =
     map_option (\<lambda>(e, lanes). (0, flow, rs\<lparr>rs_lanes := lanes\<rparr>, case e of None \<Rightarrow> polled | Some x \<Rightarrow> polled @ [x]))
       (RL_Pop lane (rs_lanes rs))"
| "recv_step (flow, rs, polled) (Sweep timeout now) =
     map_option (\<lambda>(n, flow, rs). (n, flow, rs, polled)) (ReclaimJammed timeout (in_peerSlot flow) now flow rs)"

section \<open>The hold-back ring\<close>

definition held :: "InAssociation \<Rightarrow> (u32 \<times> u32) set" where
  "held flow = (\<lambda>e. (hb_seq e, hb_packetSlot e)) ` {e \<in> set (in_holdback flow). hb_packetSlot e \<noteq> INVALID}"

definition held_seqs :: "InAssociation \<Rightarrow> nat set" where
  "held_seqs flow = (unat \<circ> fst) ` held flow"

definition ordered_shape :: "InAssociation \<Rightarrow> bool" where
  "ordered_shape flow \<longleftrightarrow> IsOrdered (in_mode flow) \<and> in_reorderCap flow = in_windowBits flow
     \<and> length (in_holdback flow) = unat (in_windowBits flow)"

text \<open>What the association remembers: every sequence marked seen is delivered or held.\<close>

definition flow_rel :: "(u32 \<times> u32) set \<Rightarrow> nat set \<Rightarrow> InAssociation \<Rightarrow> bool" where
  "flow_rel A C flow \<longleftrightarrow> ordered_shape flow \<and> seen_set C flow
     \<and> C \<subseteq> {1..<unat (in_recvNext flow)} \<union> held_seqs flow
     \<and> unat (in_recvHighest flow) < unat (in_recvNext flow) + unat (in_windowBits flow)
     \<and> held flow \<subseteq> A \<and> 0 < unat (in_recvNext flow)"

text \<open>What entered the lanes for the peer: arrivals numbered from one up to the cursor.\<close>

definition lane_log :: "(u32 \<times> u32) set \<Rightarrow> (u32 \<times> u32) list \<Rightarrow> ReadyEntry list \<Rightarrow> ReadyEntry list \<Rightarrow> u32 \<Rightarrow> u32 \<Rightarrow> ReadyLanes \<Rightarrow> bool" where
  "lane_log A log pushed polled p next rl \<longleftrightarrow> lanes_inv (rl, pushed, polled)
     \<and> map (unat \<circ> fst) log = [1..<unat next] \<and> set log \<subseteq> A \<and> 0 < unat next
     \<and> filter (\<lambda>e. re_peerSlot e = p) pushed = map (\<lambda>(s, slot). \<lparr>re_slotIndex = slot, re_peerSlot = p\<rparr>) log"

definition valid_arrivals :: "(u32 \<times> u32) set \<Rightarrow> bool" where
  "valid_arrivals A \<longleftrightarrow> (\<forall>(seq, slot)\<in>A. seq \<noteq> 0xFFFFFFFF \<and> slot \<noteq> INVALID)"

lemma unat_next_seq:
  assumes "seq \<noteq> 0xFFFFFFFF" shows "unat (next_seq seq) = Suc (unat seq)" and next_seq_plus: "next_seq seq = seq + 1"
proof -
  have "unat seq \<noteq> unat (0xFFFFFFFF :: u32)" using assms by (simp only: word_unat_eq_iff) simp
  then have "unat seq + 1 < 4294967296" using unat_u32_less [of seq] by simp
  then have u: "unat (seq + 1) = Suc (unat seq)" by (subst unat_add_small) simp_all
  then have "seq + 1 \<noteq> 0" by (metis nat.distinct(1) unat_0)
  then show "next_seq seq = seq + 1" "unat (next_seq seq) = Suc (unat seq)" using u by (simp_all add: next_seq_def)
qed

lemma lane_push:
  assumes "lanes_inv (rl, pushed, polled)"
  obtains ok rl' where "RL_Push (LaneOf p rl) slot p rl = Some (ok, rl')"
    "lanes_inv (rl', if ok then pushed @ [\<lparr>re_slotIndex = slot, re_peerSlot = p\<rparr>] else pushed, polled)"
  using deliver_step [OF assms, of slot p] by auto

lemma log_push:
  assumes "lane_log A log pushed polled p next rl" and "(next, slot) \<in> A" and "valid_arrivals A"
  obtains ok rl' where "RL_Push (LaneOf p rl) slot p rl = Some (ok, rl')"
    "ok \<Longrightarrow> lane_log A (log @ [(next, slot)]) (pushed @ [\<lparr>re_slotIndex = slot, re_peerSlot = p\<rparr>]) polled p (next_seq next) rl'"
    "\<not> ok \<Longrightarrow> lane_log A log pushed polled p next rl'"
proof -
  have inv: "lanes_inv (rl, pushed, polled)" using assms(1) by (simp add: lane_log_def)
  obtain ok rl' where push: "RL_Push (LaneOf p rl) slot p rl = Some (ok, rl')"
    "lanes_inv (rl', if ok then pushed @ [\<lparr>re_slotIndex = slot, re_peerSlot = p\<rparr>] else pushed, polled)"
    by (rule lane_push [OF inv])
  have nm: "next \<noteq> 0xFFFFFFFF" using assms(2,3) by (auto simp: valid_arrivals_def)
  show thesis
  proof (rule that [OF push(1)])
    show "lane_log A log pushed polled p next rl'" if "\<not> ok" using that push(2) assms(1) by (simp add: lane_log_def)
    show "lane_log A (log @ [(next, slot)]) (pushed @ [\<lparr>re_slotIndex = slot, re_peerSlot = p\<rparr>]) polled p (next_seq next) rl'" if ok
      using that push(2) assms(1,2) unat_next_seq [OF nm] by (auto simp: lane_log_def)
  qed
qed

lemma holdback_at_mod:
  assumes "ordered_shape flow" and "seen_set C flow"
  shows "holdback_at seq flow = unat seq mod unat (in_windowBits flow)"
    and "holdback_at seq flow < length (in_holdback flow)" and "0 < in_reorderCap flow"
proof -
  have w: "window_shape flow" using assms(2) by (simp add: seen_set_def)
  show h: "holdback_at seq flow = unat seq mod unat (in_windowBits flow)"
    using shape_bits(4) [OF w] assms(1) by (simp add: holdback_at_def seen_idx_def ordered_shape_def)
  show "holdback_at seq flow < length (in_holdback flow)" using h shape_bits(2) [OF w] assms(1) by (simp add: ordered_shape_def)
  show "0 < in_reorderCap flow" using shape_bits(2) [OF w] assms(1) by (simp add: ordered_shape_def word_less_nat_alt)
qed

lemma held_free:
  "held (flow\<lparr>in_holdback := (in_holdback flow)[i := no_held]\<rparr>) \<subseteq> held flow"
  by (auto simp: held_def no_held_def dest!: set_update_subset_insert [THEN subsetD])

lemma held_keep:
  assumes "x \<in> held flow" and "i < length (in_holdback flow)"
    and "x \<noteq> (hb_seq (in_holdback flow ! i), hb_packetSlot (in_holdback flow ! i))"
  shows "x \<in> held (flow\<lparr>in_holdback := (in_holdback flow)[i := e]\<rparr>)"
proof -
  obtain y where y: "y \<in> set (in_holdback flow)" "hb_packetSlot y \<noteq> INVALID" "x = (hb_seq y, hb_packetSlot y)"
    using assms(1) by (auto simp: held_def)
  then obtain j where "j < length (in_holdback flow)" "in_holdback flow ! j = y" by (auto simp: in_set_conv_nth)
  then have "y \<in> set ((in_holdback flow)[i := e])"
    using assms(3) y(3) by (metis length_list_update nth_list_update_neq nth_mem)
  then show ?thesis using y by (auto simp: held_def)
qed

lemma held_updates [simp]:
  "held (flow\<lparr>in_recvNext := x\<rparr>) = held flow" "held (flow\<lparr>in_heldCount := h\<rparr>) = held flow"
  "held_seqs (flow\<lparr>in_recvNext := x\<rparr>) = held_seqs flow" "held_seqs (flow\<lparr>in_heldCount := h\<rparr>) = held_seqs flow"
  "held (CommitSeen seq flow) = held flow" "held_seqs (CommitSeen seq flow) = held_seqs flow"
  by (simp_all add: held_seqs_def held_def)

lemma seen_set_updates [simp]:
  "seen_set C (flow\<lparr>in_recvNext := x\<rparr>) = seen_set C flow" "seen_set C (flow\<lparr>in_heldCount := h\<rparr>) = seen_set C flow"
  "seen_set C (flow\<lparr>in_holdback := hs\<rparr>) = seen_set C flow"
  by (simp_all add: seen_set_def window_shape_def)

lemma filter_update_less:
  assumes "i < length xs" and "P (xs ! i)" and "\<not> P y"
  shows "length (filter P (xs[i := y])) < length (filter P xs)"
  using assms by (induction xs arbitrary: i) (auto simp: nth_Cons split: nat.splits)

lemma ArmAck_fields [simp]:
  "in_recvNext (ArmAckForArrival b now flow) = in_recvNext flow" "in_peerSlot (ArmAckForArrival b now flow) = in_peerSlot flow"
  "in_recvNext (ArmAck now flow) = in_recvNext flow" "in_peerSlot (ArmAck now flow) = in_peerSlot flow"
  by (simp_all add: ArmAckForArrival_def ArmAck_def Let_def)

lemma rel_ArmAck [simp]:
  "flow_rel A C (ArmAck now flow) = flow_rel A C flow"
  "flow_rel A C (ArmAckForArrival b now flow) = flow_rel A C flow"
  "flow_rel A C ((ArmAckForArrival b now flow)\<lparr>in_recvNext := x\<rparr>) = flow_rel A C (flow\<lparr>in_recvNext := x\<rparr>)"
  by (simp_all add: ArmAckForArrival_def ArmAck_def Let_def flow_rel_def ordered_shape_def seen_set_def window_shape_def held_seqs_def held_def)

lemma rel_marks [simp]:
  "flow_rel A C (flow\<lparr>in_ackImmediate := b\<rparr>) = flow_rel A C flow"
  "flow_rel A C (flow\<lparr>in_lastProgressMicros := now\<rparr>) = flow_rel A C flow"
  by (simp_all add: flow_rel_def ordered_shape_def seen_set_def window_shape_def held_seqs_def held_def)

lemma rel_drain:
  assumes rel: "flow_rel A C flow" and i: "i = holdback_at (in_recvNext flow) flow"
    and e: "hb_seq (in_holdback flow ! i) = in_recvNext flow" "hb_packetSlot (in_holdback flow ! i) \<noteq> INVALID"
    and nm: "in_recvNext flow \<noteq> 0xFFFFFFFF"
  shows "flow_rel A C (flow\<lparr>in_holdback := (in_holdback flow)[i := no_held], in_heldCount := h, in_recvNext := next_seq (in_recvNext flow)\<rparr>)"
proof -
  have sh: "ordered_shape flow" "seen_set C flow" using rel by (simp_all add: flow_rel_def)
  have il: "i < length (in_holdback flow)" using holdback_at_mod(2) [OF sh] i by simp
  let ?f = "flow\<lparr>in_holdback := (in_holdback flow)[i := no_held]\<rparr>"
  have "held_seqs flow \<subseteq> insert (unat (in_recvNext flow)) (held_seqs ?f)"
  proof
    fix s assume "s \<in> held_seqs flow"
    then obtain x where x: "x \<in> held flow" "s = unat (fst x)" by (auto simp: held_seqs_def)
    show "s \<in> insert (unat (in_recvNext flow)) (held_seqs ?f)"
      using held_keep [OF x(1) il, of no_held] x(2) e(1) by (force simp: held_seqs_def)
  qed
  then have "C \<subseteq> {1..<Suc (unat (in_recvNext flow))} \<union> held_seqs ?f" using rel by (force simp: flow_rel_def)
  moreover have "held ?f \<subseteq> A" using rel held_free [of flow i] by (auto simp: flow_rel_def)
  ultimately show ?thesis using rel unat_next_seq [OF nm] by (simp add: flow_rel_def ordered_shape_def)
qed

lemma rel_cursor:
  assumes rel: "flow_rel A C flow" and nm: "in_recvNext flow \<noteq> 0xFFFFFFFF"
  shows "flow_rel A (insert (unat (in_recvNext flow)) C) ((CommitSeen (in_recvNext flow) flow)\<lparr>in_recvNext := next_seq (in_recvNext flow)\<rparr>)"
proof -
  let ?n = "unat (in_recvNext flow)"
  have r: "ordered_shape flow" "seen_set C flow" "C \<subseteq> {1..<?n} \<union> held_seqs flow" "held flow \<subseteq> A" "0 < ?n"
    "unat (in_recvHighest flow) < ?n + unat (in_windowBits flow)" using rel by (simp_all add: flow_rel_def)
  have "nfloor (unat (in_windowBits flow)) (unat (in_recvHighest flow)) \<le> ?n" using r(5,6) by (auto simp: nfloor_def)
  from commit_set [OF r(2) this] have c: "seen_set (insert ?n C) (CommitSeen (in_recvNext flow) flow)" .
  have "insert ?n C \<subseteq> {1..<Suc ?n} \<union> held_seqs flow" using r(3,5) by auto
  then show ?thesis using c r unat_next_seq [OF nm] by (auto simp: flow_rel_def ordered_shape_def)
qed

lemma rel_hold:
  assumes rel: "flow_rel A C flow" and gt: "in_recvNext flow < seq"
    and lt: "seq < in_recvNext flow + ucast (in_reorderCap flow)" and i: "i = holdback_at seq flow"
    and free: "hb_packetSlot (in_holdback flow ! i) = INVALID" and A: "(seq, slot) \<in> A" "slot \<noteq> INVALID"
  shows "flow_rel A (insert (unat seq) C) (CommitSeen seq
    (flow\<lparr>in_holdback := (in_holdback flow)[i := \<lparr>hb_seq = seq, hb_packetSlot = slot\<rparr>], in_heldCount := h\<rparr>))"
proof -
  let ?n = "unat (in_recvNext flow)" and ?W = "unat (in_windowBits flow)"
  let ?f = "flow\<lparr>in_holdback := (in_holdback flow)[i := \<lparr>hb_seq = seq, hb_packetSlot = slot\<rparr>], in_heldCount := h\<rparr>"
  have r: "ordered_shape flow" "seen_set C flow" "C \<subseteq> {1..<?n} \<union> held_seqs flow" "held flow \<subseteq> A" "0 < ?n"
    "unat (in_recvHighest flow) < ?n + ?W" using rel by (simp_all add: flow_rel_def)
  have il: "i < length (in_holdback flow)" using holdback_at_mod(2) [OF r(1,2)] i by simp
  have "unat (in_recvNext flow + ucast (in_reorderCap flow)) \<le> ?n + ?W"
    using r(1) by (simp add: unat_word_ariths unat_ucast_up ordered_shape_def)
  then have ub: "unat seq < ?n + ?W" using lt by (simp add: word_less_nat_alt)
  have "held ?f = insert (seq, slot) (held flow)"
  proof
    show "held ?f \<subseteq> insert (seq, slot) (held flow)"
      by (auto simp: held_def dest!: set_update_subset_insert [THEN subsetD])
    have "x \<in> held ?f" if "x \<in> held flow" for x
      using held_keep [OF that il, of "\<lparr>hb_seq = seq, hb_packetSlot = slot\<rparr>"] that free by (auto simp: held_def)
    moreover have "\<lparr>hb_seq = seq, hb_packetSlot = slot\<rparr> \<in> set (in_holdback ?f)" using il by (simp add: set_update_memI)
    then have "(seq, slot) \<in> held ?f" using A(2) by (force simp: held_def)
    ultimately show "insert (seq, slot) (held flow) \<subseteq> held ?f" by blast
  qed
  then have h: "held (CommitSeen seq ?f) = insert (seq, slot) (held flow)" by (simp add: held_def)
  have "nfloor ?W (unat (in_recvHighest flow)) \<le> unat seq"
    using r(5,6) gt by (auto simp: nfloor_def word_less_nat_alt)
  moreover have "seen_set C ?f" using r(2) by (simp add: seen_set_def window_shape_def)
  ultimately have "seen_set (insert (unat seq) C) (CommitSeen seq ?f)" using commit_set [of C ?f seq] by simp
  then show ?thesis using r ub h A il
    by (auto simp: flow_rel_def ordered_shape_def held_seqs_def)
qed

lemma drain_spec:
  assumes "flow_rel A C flow" and "lane_log A log pushed polled (in_peerSlot flow) (in_recvNext flow) (rs_lanes rs)"
    and valid: "valid_arrivals A"
  shows "\<exists>flow' rs' log' pushed'. DrainHoldbackRun n flow rs = Some (n + (in_recvNext flow' - in_recvNext flow), flow', rs')
    \<and> flow_rel A C flow' \<and> in_peerSlot flow' = in_peerSlot flow
    \<and> lane_log A log' pushed' polled (in_peerSlot flow) (in_recvNext flow') (rs_lanes rs')"
  using assms(1,2)
proof (induction "length (filter (\<lambda>e. hb_packetSlot e \<noteq> INVALID) (in_holdback flow))" arbitrary: n flow rs log pushed rule: less_induct)
  case less
  define i where "i = holdback_at (in_recvNext flow) flow"
  define e where "e = in_holdback flow ! i"
  have sh: "ordered_shape flow" "seen_set C flow" using less.prems(1) by (simp_all add: flow_rel_def)
  have H: "i < length (in_holdback flow)" "0 < in_reorderCap flow" using holdback_at_mod(2,3) [OF sh] by (simp_all add: i_def)
  have unfold: "DrainHoldbackRun n flow rs =
     (if hb_packetSlot e = INVALID \<or> hb_seq e \<noteq> in_recvNext flow then Some (n, flow, rs)
      else case RL_Push (LaneOf (in_peerSlot flow) (rs_lanes rs)) (hb_packetSlot e) (in_peerSlot flow) (rs_lanes rs) of
             None \<Rightarrow> None
           | Some (ok, lanes) \<Rightarrow>
               if \<not> ok then Some (n, flow, rs\<lparr>rs_lanes := lanes\<rparr>)
               else DrainHoldbackRun (n + 1)
                      (flow\<lparr>in_holdback := (in_holdback flow)[i := no_held],
                            in_heldCount := (if 0 < in_heldCount flow then in_heldCount flow - 1 else in_heldCount flow),
                            in_recvNext := next_seq (in_recvNext flow)\<rparr>)
                      (rs\<lparr>rs_lanes := lanes\<rparr>))"
  proof -
    have nz: "(in_reorderCap flow = 0) = False" using H(2) by auto
    show ?thesis by (subst DrainHoldbackRun.simps) (simp only: nz if_False Let_def i_def e_def)
  qed
  show ?case
  proof (cases "hb_packetSlot e = INVALID \<or> hb_seq e \<noteq> in_recvNext flow")
    case True
    then have "DrainHoldbackRun n flow rs = Some (n + (in_recvNext flow - in_recvNext flow), flow, rs)" using unfold by simp
    then show ?thesis using less.prems by blast
  next
    case False
    have "e \<in> set (in_holdback flow)" using H(1) by (simp add: e_def)
    then have "(in_recvNext flow, hb_packetSlot e) \<in> held flow" using False by (force simp: held_def)
    then have inA: "(in_recvNext flow, hb_packetSlot e) \<in> A" using less.prems(1) by (auto simp: flow_rel_def)
    then have nm: "in_recvNext flow \<noteq> 0xFFFFFFFF" using valid by (auto simp: valid_arrivals_def)
    obtain ok rl' where push: "RL_Push (LaneOf (in_peerSlot flow) (rs_lanes rs)) (hb_packetSlot e) (in_peerSlot flow) (rs_lanes rs) = Some (ok, rl')"
      "ok \<Longrightarrow> lane_log A (log @ [(in_recvNext flow, hb_packetSlot e)]) (pushed @ [\<lparr>re_slotIndex = hb_packetSlot e, re_peerSlot = in_peerSlot flow\<rparr>])
          polled (in_peerSlot flow) (next_seq (in_recvNext flow)) rl'"
      "\<not> ok \<Longrightarrow> lane_log A log pushed polled (in_peerSlot flow) (in_recvNext flow) rl'"
      using log_push [OF less.prems(2) inA valid] by blast
    show ?thesis
    proof (cases ok)
      case False
      then have "DrainHoldbackRun n flow rs = Some (n + (in_recvNext flow - in_recvNext flow), flow, rs\<lparr>rs_lanes := rl'\<rparr>)"
        using unfold push(1) \<open>\<not> (hb_packetSlot e = INVALID \<or> _)\<close> by simp
      moreover have "lane_log A log pushed polled (in_peerSlot flow) (in_recvNext flow) (rs_lanes (rs\<lparr>rs_lanes := rl'\<rparr>))"
        using push(3) False by simp
      ultimately show ?thesis using less.prems(1) by blast
    next
      case True
      let ?f = "flow\<lparr>in_holdback := (in_holdback flow)[i := no_held],
                 in_heldCount := (if 0 < in_heldCount flow then in_heldCount flow - 1 else in_heldCount flow),
                 in_recvNext := next_seq (in_recvNext flow)\<rparr>"
      let ?r = "rs\<lparr>rs_lanes := rl'\<rparr>"
      have step: "DrainHoldbackRun n flow rs = DrainHoldbackRun (n + 1) ?f ?r"
        using unfold push(1) True False by simp
      have smaller: "length (filter (\<lambda>e. hb_packetSlot e \<noteq> INVALID) (in_holdback ?f))
          < length (filter (\<lambda>e. hb_packetSlot e \<noteq> INVALID) (in_holdback flow))"
        using filter_update_less [OF H(1), of "\<lambda>e. hb_packetSlot e \<noteq> INVALID" no_held] False by (simp add: e_def no_held_def)
      have frel: "flow_rel A C ?f" using rel_drain [OF less.prems(1) i_def _ _ nm] False by (simp add: e_def)
      have lrel: "lane_log A (log @ [(in_recvNext flow, hb_packetSlot e)]) (pushed @ [\<lparr>re_slotIndex = hb_packetSlot e, re_peerSlot = in_peerSlot flow\<rparr>])
          polled (in_peerSlot ?f) (in_recvNext ?f) (rs_lanes ?r)" using push(2) True by simp
      have one: "next_seq (in_recvNext flow) = in_recvNext flow + 1" by (rule next_seq_plus [OF nm])
      from less.hyps [OF smaller frel lrel, of "n + 1"] obtain flow' rs' log' pushed' where
        "DrainHoldbackRun (n + 1) ?f ?r = Some (n + 1 + (in_recvNext flow' - in_recvNext ?f), flow', rs')"
        "flow_rel A C flow'" "in_peerSlot flow' = in_peerSlot flow"
        "lane_log A log' pushed' polled (in_peerSlot flow) (in_recvNext flow') (rs_lanes rs')" by auto
      moreover have "n + 1 + (in_recvNext flow' - in_recvNext ?f) = n + (in_recvNext flow' - in_recvNext flow)"
        using one by simp
      ultimately show ?thesis using step by metis
    qed
  qed
qed

section \<open>Deliveries\<close>

lemma pin_lanes [simp]: "rs_lanes (pin p rs) = rs_lanes rs"
  by (simp add: pin_def on_peer_def)

definition recv_rel :: "(u32 \<times> u32) set \<Rightarrow> InAssociation \<Rightarrow> RecvSide \<Rightarrow> ReadyEntry list \<Rightarrow> bool" where
  "recv_rel A flow rs polled \<longleftrightarrow> (\<exists>C log pushed. flow_rel A C flow
     \<and> lane_log A log pushed polled (in_peerSlot flow) (in_recvNext flow) (rs_lanes rs))"

lemma recv_relI:
  "flow_rel A C flow \<Longrightarrow> lane_log A log pushed polled (in_peerSlot flow) (in_recvNext flow) (rs_lanes rs) \<Longrightarrow> recv_rel A flow rs polled"
  unfolding recv_rel_def by blast

definition delivered :: "delivery option \<Rightarrow> (u32 \<times> u32) set \<Rightarrow> InAssociation \<Rightarrow> ReadyEntry list \<Rightarrow> bool" where
  "delivered r A flow polled \<longleftrightarrow> (\<exists>h flow' rs'. r = Some (in_recvNext flow' - in_recvNext flow, h, flow', rs')
     \<and> recv_rel A flow' rs' polled \<and> in_peerSlot flow' = in_peerSlot flow)"

lemma deliveredI:
  "r = Some (n, h, flow', rs') \<Longrightarrow> n = in_recvNext flow' - in_recvNext flow \<Longrightarrow> recv_rel A flow' rs' polled
    \<Longrightarrow> in_peerSlot flow' = in_peerSlot flow \<Longrightarrow> delivered r A flow polled"
  unfolding delivered_def by blast

lemma deliver_cursor:
  assumes rel: "flow_rel A C flow" and log: "lane_log A log pushed polled (in_peerSlot flow) (in_recvNext flow) (rs_lanes rs)"
    and A: "(in_recvNext flow, incoming) \<in> A" and valid: "valid_arrivals A"
  shows "delivered (DeliverOrdered (in_recvNext flow) now incoming flow rs) A flow polled"
proof (cases "in_heldCount flow = 0 \<and> \<not> HasRoomFor (in_peerSlot flow) rs")
  case True
  then show ?thesis using rel log
    by (intro deliveredI [of _ 0 incoming "ArmAckForArrival False now flow" rs] recv_relI) (simp_all add: DeliverOrdered_def)
next
  case False
  let ?n = "in_recvNext flow" and ?p = "in_peerSlot flow"
  have v: "?n \<noteq> 0xFFFFFFFF" "incoming \<noteq> INVALID" using A valid by (auto simp: valid_arrivals_def)
  obtain ok rl' where push: "RL_Push (LaneOf ?p (rs_lanes rs)) incoming ?p (rs_lanes rs) = Some (ok, rl')"
    "ok \<Longrightarrow> lane_log A (log @ [(?n, incoming)]) (pushed @ [\<lparr>re_slotIndex = incoming, re_peerSlot = ?p\<rparr>]) polled ?p (next_seq ?n) rl'"
    "\<not> ok \<Longrightarrow> lane_log A log pushed polled ?p ?n rl'"
    using log_push [OF log A valid] by blast
  show ?thesis
  proof (cases ok)
    case False
    then have "DeliverOrdered ?n now incoming flow rs = Some (0, incoming, flow, rs\<lparr>rs_lanes := rl'\<rparr>)"
      using \<open>\<not> (in_heldCount flow = 0 \<and> _)\<close> push(1) v by (auto simp: DeliverOrdered_def QueueReady_def)
    moreover have "recv_rel A flow (rs\<lparr>rs_lanes := rl'\<rparr>) polled" by (rule recv_relI [OF rel]) (use push(3) False in simp)
    ultimately show ?thesis by (intro deliveredI [of _ 0 incoming flow]) simp_all
  next
    case True
    let ?f = "(ArmAckForArrival True now (CommitSeen ?n flow))\<lparr>in_recvNext := next_seq ?n\<rparr>"
    let ?r = "pin ?p (rs\<lparr>rs_lanes := rl'\<rparr>)"
    have step: "DeliverOrdered ?n now incoming flow rs = map_option (\<lambda>(n, flow, rs). (1 + n, INVALID, flow, rs)) (DrainHoldbackRun 0 ?f ?r)"
      using \<open>\<not> (in_heldCount flow = 0 \<and> _)\<close> push(1) v True by (auto simp: DeliverOrdered_def QueueReady_def)
    have frel: "flow_rel A (insert (unat ?n) C) ?f" using rel_cursor [OF rel v(1)] by simp
    have lrel: "lane_log A (log @ [(?n, incoming)]) (pushed @ [\<lparr>re_slotIndex = incoming, re_peerSlot = ?p\<rparr>]) polled
        (in_peerSlot ?f) (in_recvNext ?f) (rs_lanes ?r)" using push(2) True by simp
    from drain_spec [OF frel lrel valid, of 0] obtain flow' rs' log' pushed' where d:
      "DrainHoldbackRun 0 ?f ?r = Some (0 + (in_recvNext flow' - in_recvNext ?f), flow', rs')"
      "flow_rel A (insert (unat ?n) C) flow'" "in_peerSlot flow' = in_peerSlot ?f"
      "lane_log A log' pushed' polled (in_peerSlot ?f) (in_recvNext flow') (rs_lanes rs')" by blast
    have "recv_rel A flow' rs' polled" using recv_relI [OF d(2)] d(3,4) by simp
    then show ?thesis using step d(1,3) next_seq_plus [OF v(1)] by (intro deliveredI [of _ "in_recvNext flow' - ?n" INVALID flow' rs']) simp_all
  qed
qed

lemma deliver_ordered_spec:
  assumes rel: "recv_rel A flow rs polled" and A: "(seq, incoming) \<in> A" and valid: "valid_arrivals A"
  shows "delivered (DeliverOrdered seq now incoming flow rs) A flow polled"
proof -
  obtain C log pushed where r: "flow_rel A C flow" "lane_log A log pushed polled (in_peerSlot flow) (in_recvNext flow) (rs_lanes rs)"
    using rel by (auto simp: recv_rel_def)
  have inc: "incoming \<noteq> INVALID" using A valid by (auto simp: valid_arrivals_def)
  let ?late = "ArmAckForArrival False now (flow\<lparr>in_ackImmediate := True\<rparr>)"
  have late: "delivered (Some (0, incoming, ?late, rs)) A flow polled"
    using r by (intro deliveredI [of _ 0 incoming ?late rs] recv_relI) simp_all
  let ?holdable = "0 < in_reorderCap flow \<and> HasRoomFor (in_peerSlot flow) rs \<and> seq < in_recvNext flow + ucast (in_reorderCap flow)"
  consider "seq < in_recvNext flow" | "seq = in_recvNext flow" | "in_recvNext flow < seq" "?holdable" | "in_recvNext flow < seq" "\<not> ?holdable"
    by (meson linorder_neqE)
  then show ?thesis
  proof cases
    case 1
    then show ?thesis using late by (simp add: DeliverOrdered_def)
  next
    case 2
    then show ?thesis using deliver_cursor [OF r] A valid by simp
  next
    case 3
    show ?thesis
    proof (cases "hb_packetSlot (in_holdback flow ! holdback_at seq flow) = INVALID")
      case True
      let ?f = "ArmAckForArrival True now ((CommitSeen seq
        (flow\<lparr>in_holdback := (in_holdback flow)[holdback_at seq flow := \<lparr>hb_seq = seq, hb_packetSlot = incoming\<rparr>],
               in_heldCount := in_heldCount flow + 1\<rparr>))\<lparr>in_ackImmediate := True\<rparr>)"
      have e: "DeliverOrdered seq now incoming flow rs = Some (0, INVALID, ?f, pin (in_peerSlot flow) rs)"
        using 3 True by (auto simp: DeliverOrdered_def Let_def)
      have "flow_rel A (insert (unat seq) C) ?f" using rel_hold [OF r(1) 3(1) _ refl True A inc] 3(2) by simp
      then have "recv_rel A ?f (pin (in_peerSlot flow) rs) polled" by (rule recv_relI) (use r(2) in simp)
      from deliveredI [OF e _ this] show ?thesis by simp
    next
      case False
      then have "DeliverOrdered seq now incoming flow rs = Some (0, incoming, flow, rs)" using 3 by (auto simp: DeliverOrdered_def)
      then show ?thesis using r by (intro deliveredI recv_relI) simp_all
    qed
  next
    case 4
    then have "DeliverOrdered seq now incoming flow rs = Some (0, incoming, ?late, rs)" by (auto simp: DeliverOrdered_def)
    then show ?thesis using late by simp
  qed
qed

lemma deliver_in_spec:
  assumes rel: "recv_rel A flow rs polled" and A: "(seq, incoming) \<in> A" and valid: "valid_arrivals A"
  shows "delivered (DeliverIn flowId epoch seq now incoming flow rs) A flow polled"
proof (cases "in_epoch flow = epoch \<and> in_life flow = OPEN \<and> in_flowId flow = flowId")
  case True
  have o: "IsOrdered (in_mode flow)" using rel by (auto simp: recv_rel_def flow_rel_def ordered_shape_def)
  obtain h flow' rs' where d: "DeliverOrdered seq now incoming flow rs = Some (in_recvNext flow' - in_recvNext flow, h, flow', rs')"
    "recv_rel A flow' rs' polled" "in_peerSlot flow' = in_peerSlot flow"
    using deliver_ordered_spec [OF assms, of now] by (auto simp: delivered_def)
  let ?f = "if in_recvNext flow' \<noteq> in_recvNext flow then flow'\<lparr>in_lastProgressMicros := now\<rparr> else flow'"
  have "recv_rel A (flow'\<lparr>in_lastProgressMicros := now\<rparr>) rs' polled = recv_rel A flow' rs' polled" by (simp add: recv_rel_def)
  then have "recv_rel A ?f rs' polled" using d(2) by simp
  then show ?thesis using True o d(1,3) by (intro deliveredI [of _ "in_recvNext flow' - in_recvNext flow" h ?f rs']) (simp_all add: DeliverIn_def)
next
  case False
  then have "DeliverIn flowId epoch seq now incoming flow rs = Some (0, incoming, flow, rs)" by (auto simp: DeliverIn_def)
  then show ?thesis using rel by (intro deliveredI) simp_all
qed

section \<open>Reclaiming a jammed association\<close>

lemma seen_set_clear:
  assumes "seen_set C flow"
  shows "seen_set {x \<in> C. x mod unat (in_windowBits flow) \<noteq> unat seq mod unat (in_windowBits flow)}
    (flow\<lparr>in_seen := SeenClear (in_seen flow) seq (in_windowBits flow)\<rparr>)"
proof -
  have sh: "window_shape flow" using assms by (simp add: seen_set_def)
  note B = shape_bits [OF sh]
  have "seen_bit (SeenClear (in_seen flow) seq (in_windowBits flow)) i \<longleftrightarrow> seen_bit (in_seen flow) i \<and> i \<noteq> unat seq mod unat (in_windowBits flow)"
    if "i < unat (in_windowBits flow)" for i using seen_bit_clear [of seq "in_windowBits flow" "in_seen flow" i] that B by simp
  then show ?thesis using assms by (auto simp: seen_set_def window_shape_def)
qed

lemma let_go_rel:
  assumes rel: "flow_rel A C flow" and i: "i < unat (in_windowBits flow)" and g: "let_go True i (n, flow, rs) = Some (n', flow', rs')"
  shows "(\<exists>C'. flow_rel A C' flow') \<and> in_windowBits flow' = in_windowBits flow \<and> in_peerSlot flow' = in_peerSlot flow
    \<and> in_recvNext flow' = in_recvNext flow \<and> rs_lanes rs' = rs_lanes rs"
proof (cases "hb_packetSlot (in_holdback flow ! i) = INVALID")
  case True
  then show ?thesis using g rel by (auto simp: let_go_def Let_def)
next
  case False
  let ?e = "in_holdback flow ! i" and ?W = "unat (in_windowBits flow)"
  obtain pool where p: "SlotPool_Release (hb_packetSlot ?e) (rs_recvPool rs) = Some pool" using False g by (auto simp: let_go_def Let_def split: option.splits)
  have f': "flow' = flow\<lparr>in_heldCount := (if 0 < in_heldCount flow then in_heldCount flow - 1 else in_heldCount flow),
      in_seen := SeenClear (in_seen flow) (hb_seq ?e) (in_windowBits flow), in_holdback := (in_holdback flow)[i := no_held]\<rparr>"
    and rs': "rs_lanes rs' = rs_lanes rs" using g False p by (auto simp: let_go_def Let_def on_peer_def)
  have r: "ordered_shape flow" "seen_set C flow" "C \<subseteq> {1..<unat (in_recvNext flow)} \<union> held_seqs flow" "held flow \<subseteq> A"
    using rel by (simp_all add: flow_rel_def)
  let ?C = "{x \<in> C. x mod ?W \<noteq> unat (hb_seq ?e) mod ?W}"
  have il: "i < length (in_holdback flow)" using i r(1) by (simp add: ordered_shape_def)
  have h: "held flow' = held (flow\<lparr>in_holdback := (in_holdback flow)[i := no_held]\<rparr>)" by (simp add: f' held_def)
  have "x \<in> held_seqs flow'" if x: "x \<in> held_seqs flow" "x mod ?W \<noteq> unat (hb_seq ?e) mod ?W" for x
  proof -
    obtain y where y: "y \<in> held flow" "x = unat (fst y)" using x(1) by (auto simp: held_seqs_def)
    then have "y \<noteq> (hb_seq ?e, hb_packetSlot ?e)" using x(2) by auto
    then have "y \<in> held flow'" using held_keep [OF y(1) il, of no_held] unfolding h by blast
    then show ?thesis using y(2) by (auto simp: held_seqs_def)
  qed
  then have "?C \<subseteq> {1..<unat (in_recvNext flow)} \<union> held_seqs flow'" using r(3) by auto
  moreover have "seen_set ?C flow'" using seen_set_clear [OF r(2), of "hb_seq ?e"] by (simp add: f' seen_set_def window_shape_def)
  moreover have "held flow' \<subseteq> A" using held_free [of flow i] r(4) h by simp
  ultimately have "flow_rel A ?C flow'" using rel by (simp add: flow_rel_def f' ordered_shape_def)
  then show ?thesis using f' rs' by auto
qed

lemma let_go_all_rel:
  assumes "\<exists>C. flow_rel A C flow" and "\<forall>i\<in>set is. i < unat (in_windowBits flow)" and "let_go_all True is (n, flow, rs) = Some (n', flow', rs')"
  shows "(\<exists>C'. flow_rel A C' flow') \<and> in_peerSlot flow' = in_peerSlot flow
    \<and> in_recvNext flow' = in_recvNext flow \<and> rs_lanes rs' = rs_lanes rs"
  using assms
proof (induction "is" arbitrary: n flow rs)
  case (Cons i "is")
  then obtain C n1 f1 r1 where 1: "flow_rel A C flow" "let_go True i (n, flow, rs) = Some (n1, f1, r1)" "let_go_all True is (n1, f1, r1) = Some (n', flow', rs')"
    by (auto split: option.splits)
  have "i < unat (in_windowBits flow)" using Cons.prems(2) by simp
  note L = let_go_rel [OF 1(1) this 1(2)]
  have "\<forall>i\<in>set is. i < unat (in_windowBits f1)" using Cons.prems(2) L by simp
  from Cons.IH [OF _ this 1(3)] L show ?case by simp
qed auto

lemma reclaim_rel:
  assumes rel: "recv_rel A flow rs polled" and g: "ReclaimJammed timeout p now flow rs = Some (n, flow', rs')"
  shows "recv_rel A flow' rs' polled \<and> in_peerSlot flow' = in_peerSlot flow \<and> in_recvNext flow' = in_recvNext flow"
proof (cases "InAssocJammed timeout now flow")
  case True
  then obtain d f1 r1 where d: "DropInHoldback flow rs = Some (d, f1, r1)" "flow' = (ArmAck now f1)\<lparr>in_lastProgressMicros := now\<rparr>" "rs_lanes rs' = rs_lanes r1"
    using g by (auto simp: ReclaimJammed_def on_peer_def split: option.splits if_splits)
  obtain C log pushed where r: "flow_rel A C flow" "lane_log A log pushed polled (in_peerSlot flow) (in_recvNext flow) (rs_lanes rs)"
    using rel by (auto simp: recv_rel_def)
  have cap: "in_reorderCap flow = in_windowBits flow" using r(1) by (simp add: flow_rel_def ordered_shape_def)
  have "let_go_all True [0..<unat (in_reorderCap flow)] (0, flow, rs) = Some (d, f1, r1)"
    using True d(1) by (auto simp: DropInHoldback_def InAssocJammed_def split: if_splits)
  from let_go_all_rel [OF _ _ this, of A] r(1) cap obtain C' where "flow_rel A C' f1" "in_peerSlot f1 = in_peerSlot flow"
      "in_recvNext f1 = in_recvNext flow" "rs_lanes r1 = rs_lanes rs" by auto
  then show ?thesis using d(2,3) r(2) by (auto simp: recv_rel_def)
qed (use assms in \<open>auto simp: ReclaimJammed_def\<close>)

section \<open>Runs\<close>

fun arrival_of :: "recv_op \<Rightarrow> (u32 \<times> u32) set" where
  "arrival_of (Arrive seq slot now) = {(seq, slot)}"
| "arrival_of _ = {}"

definition op_ok :: "u32 \<Rightarrow> recv_op \<Rightarrow> bool" where
  "op_ok p op = (case op of Arrive seq slot now \<Rightarrow> seq \<noteq> 0xFFFFFFFF \<and> slot \<noteq> INVALID
     | OtherPeer slot q \<Rightarrow> q \<noteq> p | _ \<Rightarrow> True)"

definition no_sweep :: "recv_op \<Rightarrow> bool" where
  "no_sweep op = (case op of Sweep _ _ \<Rightarrow> False | _ \<Rightarrow> True)"

lemma lane_log_other:
  assumes "lane_log A log pushed polled p next rl" and "q \<noteq> p"
  obtains ok rl' pushed' where "RL_Push (LaneOf q rl) slot q rl = Some (ok, rl')" "lane_log A log pushed' polled p next rl'"
proof -
  have "lanes_inv (rl, pushed, polled)" using assms(1) by (simp add: lane_log_def)
  then obtain ok rl' where push: "RL_Push (LaneOf q rl) slot q rl = Some (ok, rl')"
    "lanes_inv (rl', if ok then pushed @ [\<lparr>re_slotIndex = slot, re_peerSlot = q\<rparr>] else pushed, polled)" by (rule lane_push)
  show thesis
    by (rule that [OF push(1), of "if ok then pushed @ [\<lparr>re_slotIndex = slot, re_peerSlot = q\<rparr>] else pushed"])
      (use push(2) assms in \<open>auto simp: lane_log_def split: if_splits\<close>)
qed

lemma lane_log_poll:
  assumes "lane_log A log pushed polled p next rl"
  obtains e rl' where "RL_Pop lane rl = Some (e, rl')"
    "lane_log A log pushed (case e of None \<Rightarrow> polled | Some x \<Rightarrow> polled @ [x]) p next rl'"
proof -
  have "lanes_inv (rl, pushed, polled)" using assms(1) by (simp add: lane_log_def)
  from pop_step [OF this, of lane] obtain e rl' where "RL_Pop lane rl = Some (e, rl')"
    "lanes_inv (rl', pushed, case e of None \<Rightarrow> polled | Some x \<Rightarrow> polled @ [x])" by auto
  then show thesis using that assms by (simp add: lane_log_def)
qed

lemma recv_step_rel:
  assumes rel: "recv_rel A flow rs polled" and valid: "valid_arrivals A" and op: "op_ok (in_peerSlot flow) op" "arrival_of op \<subseteq> A"
  shows "(no_sweep op \<longrightarrow> recv_step (flow, rs, polled) op \<noteq> None)
    \<and> (\<forall>n flow' rs' polled'. recv_step (flow, rs, polled) op = Some (n, flow', rs', polled') \<longrightarrow>
         recv_rel A flow' rs' polled' \<and> in_peerSlot flow' = in_peerSlot flow)"
proof (cases op)
  case (Arrive seq slot now)
  then have "delivered (DeliverIn (in_flowId flow) (in_epoch flow) seq now slot flow rs) A flow polled"
    using deliver_in_spec [OF rel _ valid] op(2) by simp
  then show ?thesis by (auto simp: Arrive delivered_def)
next
  case (OtherPeer slot q)
  obtain C log pushed where r: "flow_rel A C flow" "lane_log A log pushed polled (in_peerSlot flow) (in_recvNext flow) (rs_lanes rs)"
    using rel by (auto simp: recv_rel_def)
  have "q \<noteq> in_peerSlot flow" using op(1) by (simp add: OtherPeer op_ok_def)
  then obtain ok rl' pushed' where push: "RL_Push (LaneOf q (rs_lanes rs)) slot q (rs_lanes rs) = Some (ok, rl')"
    "lane_log A log pushed' polled (in_peerSlot flow) (in_recvNext flow) rl'" by (rule lane_log_other [OF r(2)])
  then have "recv_rel A flow (rs\<lparr>rs_lanes := rl'\<rparr>) polled" by (intro recv_relI [OF r(1)]) simp
  then show ?thesis using push(1) by (simp add: OtherPeer)
next
  case (Poll lane)
  obtain C log pushed where r: "flow_rel A C flow" "lane_log A log pushed polled (in_peerSlot flow) (in_recvNext flow) (rs_lanes rs)"
    using rel by (auto simp: recv_rel_def)
  obtain e rl' where pop: "RL_Pop lane (rs_lanes rs) = Some (e, rl')"
    "lane_log A log pushed (case e of None \<Rightarrow> polled | Some x \<Rightarrow> polled @ [x]) (in_peerSlot flow) (in_recvNext flow) rl'"
    by (rule lane_log_poll [OF r(2)])
  then have "recv_rel A flow (rs\<lparr>rs_lanes := rl'\<rparr>) (case e of None \<Rightarrow> polled | Some x \<Rightarrow> polled @ [x])" by (intro recv_relI [OF r(1)]) simp
  then show ?thesis using pop(1) by (simp add: Poll)
next
  case (Sweep timeout now)
  then show ?thesis using reclaim_rel [OF rel] by (auto simp: no_sweep_def)
qed

lemma recv_run_rel:
  assumes "recv_rel A flow rs polled" and "valid_arrivals A" and "list_all (op_ok (in_peerSlot flow)) ops" and "(\<Union>op\<in>set ops. arrival_of op) \<subseteq> A"
  shows "(list_all no_sweep ops \<longrightarrow> run_ops recv_step (flow, rs, polled) ops \<noteq> None)
    \<and> (\<forall>ns flow' rs' polled'. run_ops recv_step (flow, rs, polled) ops = Some (ns, flow', rs', polled') \<longrightarrow>
         recv_rel A flow' rs' polled' \<and> in_peerSlot flow' = in_peerSlot flow)"
  using assms(1,3,4)
proof (induction ops arbitrary: flow rs polled)
  case (Cons op ops)
  have ok: "op_ok (in_peerSlot flow) op" "arrival_of op \<subseteq> A" "list_all (op_ok (in_peerSlot flow)) ops" "(\<Union>op\<in>set ops. arrival_of op) \<subseteq> A"
    using Cons.prems(2,3) by auto
  note S = recv_step_rel [OF Cons.prems(1) assms(2) ok(1,2)]
  show ?case
  proof (cases "recv_step (flow, rs, polled) op")
    case None
    then show ?thesis using S by auto
  next
    case (Some r)
    obtain n f1 r1 p1 where r: "r = (n, f1, r1, p1)" by (cases r)
    have 1: "recv_rel A f1 r1 p1" "in_peerSlot f1 = in_peerSlot flow" using S Some r by blast+
    have "list_all (op_ok (in_peerSlot f1)) ops" using ok(3) 1(2) by simp
    note IH = Cons.IH [OF 1(1) this ok(4)]
    have run: "run_ops recv_step (flow, rs, polled) (op # ops) =
        (case run_ops recv_step (f1, r1, p1) ops of None \<Rightarrow> None | Some (ns, q) \<Rightarrow> Some (n # ns, q))"
      by (simp only: run_ops.simps Some r option.case case_prod_conv)
    show ?thesis
    proof (cases "run_ops recv_step (f1, r1, p1) ops")
      case None
      then show ?thesis using IH run by simp
    next
      case (Some q)
      obtain ns f2 r2 p2 where q: "q = (ns, f2, r2, p2)" by (cases q)
      then have "recv_rel A f2 r2 p2 \<and> in_peerSlot f2 = in_peerSlot flow" using IH Some 1(2) by metis
      then show ?thesis unfolding run Some q by simp
    qed
  qed
qed simp

lemma recv_rel_fresh:
  assumes "IsOrdered mode" and "RL_Init n c RL_fresh = Some (True, rs_lanes rs)" and "2 \<le> unat c" and "unat c \<le> 2147483648"
  shows "recv_rel A (ResetInAssoc p pa pid fid mode ep (WindowFor mode) (ReorderCapFor mode) now old) rs []"
proof -
  let ?f = "ResetInAssoc p pa pid fid mode ep (WindowFor mode) (ReorderCapFor mode) now old"
  have set: "seen_set {} ?f" using fresh_rel [OF refl, of p pa pid fid mode ep "ReorderCapFor mode" now old] by (simp add: seen_rel_def)
  have "window_shape ?f" using set by (simp add: seen_set_def)
  from shape_bits(2) [OF this] have "flow_rel A {} ?f"
    using assms(1) set by (auto simp: flow_rel_def ordered_shape_def ResetInAssoc_def ReorderCapFor_def held_def no_held_def)
  then show ?thesis by (rule recv_relI [of _ _ _ "[]" "[]"]) (use lanes_inv_Init [OF assms(2-4)] in \<open>simp add: lane_log_def ResetInAssoc_def\<close>)
qed

lemma in_arrival_of: "x \<in> arrival_of op \<longleftrightarrow> (\<exists>now. op = Arrive (fst x) (snd x) now)"
  by (cases op) (auto simp: prod_eq_iff)

lemma fresh_run:
  assumes "IsOrdered mode" and "RL_Init n c RL_fresh = Some (True, rs_lanes rs)" and "2 \<le> unat c" and "unat c \<le> 2147483648"
    and "list_all (op_ok p) ops" and "flow = ResetInAssoc p pa pid fid mode ep (WindowFor mode) (ReorderCapFor mode) now old"
  shows "list_all no_sweep ops \<Longrightarrow> run_ops recv_step (flow, rs, []) ops \<noteq> None"
    and "run_ops recv_step (flow, rs, []) ops = Some (ns, flow', rs', polled) \<Longrightarrow>
      recv_rel (\<Union>op\<in>set ops. arrival_of op) flow' rs' polled \<and> in_peerSlot flow' = p"
proof -
  let ?A = "\<Union>op\<in>set ops. arrival_of op"
  have p: "in_peerSlot flow = p" by (simp add: assms(6) ResetInAssoc_def)
  have v: "valid_arrivals ?A"
    using assms(5) by (fastforce simp: valid_arrivals_def list_all_iff op_ok_def in_arrival_of)
  have rel: "recv_rel ?A flow rs []" unfolding assms(6) by (rule recv_rel_fresh [OF assms(1-4)])
  have "list_all (op_ok (in_peerSlot flow)) ops" using assms(5) p by simp
  note R = recv_run_rel [OF rel v this subset_refl]
  show "list_all no_sweep ops \<Longrightarrow> run_ops recv_step (flow, rs, []) ops \<noteq> None" using R by blast
  show "run_ops recv_step (flow, rs, []) ops = Some (ns, flow', rs', polled) \<Longrightarrow> recv_rel ?A flow' rs' polled \<and> in_peerSlot flow' = p"
    using R p by blast
qed

text \<open>
  C2: An ordered association delivers the sender's packets as the sender numbered them. Start from a
  fresh ordered association and let its packets arrive in any order, repeated or missing, while
  other peers deliver, lanes are polled, and jams are reclaimed. What was
  polled for this peer followed by what still waits in its lane is a list of packets that arrived,
  the first with sequence one, the next with two, up to just below the cursor: no gap, no repeat,
  no reordering. Without reclaims no step blocks. The last sequence before the counter wraps is
  excluded.\<close>

theorem ordered_delivery_in_sequence:
  assumes "IsOrdered mode" and "RL_Init n c RL_fresh = Some (True, rs_lanes rs)" and "2 \<le> unat c" and "unat c \<le> 2147483648"
    and "list_all (op_ok p) ops" and "flow = ResetInAssoc p pa pid fid mode ep (WindowFor mode) (ReorderCapFor mode) now old"
  shows "(list_all no_sweep ops \<longrightarrow> run_ops recv_step (flow, rs, []) ops \<noteq> None)
    \<and> (\<forall>ns flow' rs' polled. run_ops recv_step (flow, rs, []) ops = Some (ns, flow', rs', polled) \<longrightarrow>
        (\<exists>log. map (unat \<circ> fst) log = [1..<unat (in_recvNext flow')]
           \<and> set log \<subseteq> (\<Union>op\<in>set ops. arrival_of op)
           \<and> filter (\<lambda>e. re_peerSlot e = p) polled @ filter (\<lambda>e. re_peerSlot e = p) (fifo_abs (rl_lanes (rs_lanes rs') ! unat (LaneOf p (rs_lanes rs'))))
             = map (\<lambda>(seq, slot). \<lparr>re_slotIndex = slot, re_peerSlot = p\<rparr>) log))"
proof (intro conjI allI impI)
  show "run_ops recv_step (flow, rs, []) ops \<noteq> None" if "list_all no_sweep ops" by (rule fresh_run(1) [OF assms that])
  fix ns flow' rs' polled
  assume "run_ops recv_step (flow, rs, []) ops = Some (ns, flow', rs', polled)"
  from fresh_run(2) [OF assms this] obtain log pushed where
    "lane_log (\<Union>op\<in>set ops. arrival_of op) log pushed polled p (in_recvNext flow') (rs_lanes rs')"
    unfolding recv_rel_def by metis
  then show "\<exists>log. map (unat \<circ> fst) log = [1..<unat (in_recvNext flow')] \<and> set log \<subseteq> (\<Union>op\<in>set ops. arrival_of op)
      \<and> filter (\<lambda>e. re_peerSlot e = p) polled @ filter (\<lambda>e. re_peerSlot e = p) (fifo_abs (rl_lanes (rs_lanes rs') ! unat (LaneOf p (rs_lanes rs'))))
        = map (\<lambda>(seq, slot). \<lparr>re_slotIndex = slot, re_peerSlot = p\<rparr>) log"
    using lanes_inv_peer [of "rs_lanes rs'" pushed polled p] unfolding lane_log_def by metis
qed

text \<open>Sixteen receive slots, one lane, two peers.\<close>

definition example_side :: "ReadyLanes \<Rightarrow> RecvSide" where
  "example_side lanes = \<lparr>rs_lanes = lanes,
     rs_peers = replicate 2 \<lparr>pr_occupancy = 0, pr_grant = 0, pr_stallReclaims = 0, pr_lastStallMicros = 0\<rparr>,
     rs_heldTotal = 0, rs_holdCeiling = 16,
     rs_recvPool = \<lparr>sp_memory = 0, sp_stride = 0, sp_capacity = 0, sp_ring = [], sp_shards = [], sp_shardCount = 0,
       sp_shardMask = 0, sp_perCap = 0, sp_perMask = 0, sp_locks = []\<rparr>\<rparr>"

definition example_flow :: InAssociation where
  "example_flow = ResetInAssoc 1 no_address [] 7 RELIABLE_ORDERED 0 (WindowFor RELIABLE_ORDERED) (ReorderCapFor RELIABLE_ORDERED) 5 blank_in"

definition example_lanes :: ReadyLanes where
  "example_lanes = snd (the (RL_Init 1 16 RL_fresh))"

definition example_ops :: "recv_op list" where
  "example_ops = [Arrive 2 10 5, Arrive 4 12 5, Arrive 1 11 6, Poll 0]"

definition example_end :: "u32 list \<times> InAssociation \<times> RecvSide \<times> ReadyEntry list" where
  "example_end = the (run_ops recv_step (example_flow, example_side example_lanes, []) example_ops)"

lemma example_init: "RL_Init 1 16 RL_fresh = Some (True, rs_lanes (example_side example_lanes))"
  by (simp add: example_side_def example_lanes_def RL_Init_def count_lanes_result)

lemma example_run:
  "run_ops recv_step (example_flow, example_side example_lanes, []) example_ops = Some example_end"
proof -
  have "run_ops recv_step (example_flow, example_side example_lanes, []) example_ops \<noteq> None"
    by (rule fresh_run(1) [OF _ example_init _ _ _ example_flow_def])
      (simp_all add: example_ops_def op_ok_def no_sweep_def)
  then show ?thesis by (auto simp: example_end_def)
qed

lemma example_cursor:
  "in_recvNext (fst (snd example_end)) = 3 \<and> map re_slotIndex (snd (snd (snd example_end))) = [11]"
  by code_simp

theorem ordered_delivery_in_sequence_witness:
  "\<exists>ns flow' rs' polled log. run_ops recv_step (example_flow, example_side example_lanes, []) example_ops = Some (ns, flow', rs', polled)
    \<and> map (unat \<circ> fst) log = [1, 2] \<and> set log \<subseteq> {(1 :: u32, 11), (2, 10), (4, 12)} \<and> map re_slotIndex polled = [11]
    \<and> filter (\<lambda>e. re_peerSlot e = 1) polled @ filter (\<lambda>e. re_peerSlot e = 1) (fifo_abs (rl_lanes (rs_lanes rs') ! unat (LaneOf 1 (rs_lanes rs'))))
      = map (\<lambda>(seq, slot). \<lparr>re_slotIndex = slot, re_peerSlot = 1\<rparr>) log"
proof -
  obtain ns flow' rs' polled where e: "example_end = (ns, flow', rs', polled)" by (cases example_end)
  have ok: "list_all (op_ok 1) example_ops" by (simp add: example_ops_def op_ok_def)
  have arr: "(\<Union>op\<in>set example_ops. arrival_of op) = {(1, 11), (2, 10), (4, 12)}" by (auto simp: example_ops_def)
  note T = ordered_delivery_in_sequence [OF _ example_init _ _ ok example_flow_def]
  have c: "in_recvNext flow' = 3" "map re_slotIndex polled = [11]" using example_cursor by (simp_all add: e)
  have l: "[1..<unat (3 :: u32)] = [1, 2]" by (simp add: upt_conv_Cons)
  obtain log where "map (unat \<circ> fst) log = [1..<unat (in_recvNext flow')]" "set log \<subseteq> (\<Union>op\<in>set example_ops. arrival_of op)"
    "filter (\<lambda>e. re_peerSlot e = 1) polled @ filter (\<lambda>e. re_peerSlot e = 1) (fifo_abs (rl_lanes (rs_lanes rs') ! unat (LaneOf 1 (rs_lanes rs'))))
      = map (\<lambda>(seq, slot). \<lparr>re_slotIndex = slot, re_peerSlot = 1\<rparr>) log"
    using T example_run [unfolded e] by fastforce
  then show ?thesis using example_run [unfolded e] c(2) unfolding c(1) l arr by - (intro exI conjI, assumption+)
qed

text \<open>
  C3: Acknowledged means kept. Along every such run, reclaims included, the ranges an acknowledgement
  of the association would report, however many it may carry, name only sequences that were already
  handed on in order or are held for it; so a sender that stops resending what was
  acknowledged leaves no hole behind.\<close>

theorem acknowledged_is_delivered_or_held:
  assumes "IsOrdered mode" and "RL_Init n c RL_fresh = Some (True, rs_lanes rs)" and "2 \<le> unat c" and "unat c \<le> 2147483648"
    and "list_all (op_ok p) ops" and "flow = ResetInAssoc p pa pid fid mode ep (WindowFor mode) (ReorderCapFor mode) now old"
    and "run_ops recv_step (flow, rs, []) ops = Some (ns, flow', rs', polled)"
  shows "unat ` {seq. SeqInRanges seq (BuildAckRanges m flow')} \<subseteq> {1..<unat (in_recvNext flow')} \<union> held_seqs flow'"
proof -
  obtain C where "flow_rel (\<Union>op\<in>set ops. arrival_of op) C flow'"
    using fresh_run(2) [OF assms] by (auto simp: recv_rel_def)
  then have "seen_set C flow'" "C \<subseteq> {1..<unat (in_recvNext flow')} \<union> held_seqs flow'" by (simp_all add: flow_rel_def)
  then show ?thesis using BuildAckRanges_exact(1) by blast
qed

theorem acknowledged_is_delivered_or_held_witness:
  "unat ` {seq. SeqInRanges seq (BuildAckRanges 16 (fst (snd example_end)))} \<subseteq> {1..<3} \<union> held_seqs (fst (snd example_end))"
proof -
  obtain ns flow' rs' polled where e: "example_end = (ns, flow', rs', polled)" by (cases example_end)
  have ok: "list_all (op_ok 1) example_ops" by (simp add: example_ops_def op_ok_def)
  have "unat (in_recvNext flow') = 3" using example_cursor by (simp add: e)
  then show ?thesis
    using acknowledged_is_delivered_or_held [OF _ example_init _ _ ok example_flow_def example_run [unfolded e], of 16] by (simp add: e)
qed

section \<open>At the end of the sequence space\<close>

text \<open>
  The sender counts on from one when its counter wraps. A receiver that has seen the last number
  calls every number up to a window below it already seen.\<close>

lemma wrapped_sequence_refused:
  assumes "in_recvHighest flow = 0xFFFFFFFF" and "in_windowBits flow = WindowFor mode" and "seq \<le> 0xFFFFFBFF"
  shows "AlreadySeen seq flow" and "next_seq 0xFFFFFFFF = 1"
proof -
  have "window_floor 0xFFFFFFFF (WindowFor mode) = (if mode = RELIABLE_ORDERED_BULK then 0xFFFFFC00 else 0xFFFFFF00)"
    by (auto simp: window_floor_def WindowFor_def word_le_nat_alt)
  then have "seq < window_floor 0xFFFFFFFF (WindowFor mode)" using assms(3) by (auto simp: word_le_nat_alt word_less_nat_alt)
  moreover have "\<not> 0xFFFFFFFF < seq" using assms(3) by (simp add: word_le_nat_alt word_less_nat_alt)
  ultimately show "AlreadySeen seq flow" using assms(1,2) by (simp add: AlreadySeen_def)
qed (simp add: next_seq_def)

end
