(* ===== verification/Flow_Sender.thy ===== *)
theory Flow_Sender
  imports Flow_Window Congestion Fifo_Queue
begin

text \<open>
  The sending half of an association, from \<^verbatim>\<open>flow.h\<close> and \<^verbatim>\<open>flow_table.cpp\<close>: the send gate and pacing,
  the in-flight ring, the waiting ring, acknowledgements, the verdict of loss and
  retransmission. An operation takes the association and the peer as the source has them under
  their locks. Slots handed back to the pools are returned as the list of releases, in order. The
  clock is an argument.
\<close>

unbundle bit_operations_syntax

section \<open>State\<close>

record SendPeer = PeerCc +
  theirGrant :: u32
  pacingTokens :: u32
  pacingRefilledAt :: u64

record InFlightEntry =
  ie_sentAtMicros :: u64
  ie_seq :: u32
  ie_packetSlot :: u32
  ie_wireSize :: u16
  ie_retries :: u8
  ie_congestionEpoch :: u8
  ie_acked :: bool
  ie_lostByAck :: bool
  ie_freeResend :: bool

record WaitingEntry =
  we_waitingSince :: u64
  we_packetSlot :: u32
  we_wireSize :: u16

record OutAssociation =
  out_peerSlot :: u32
  out_peerAddr :: Address
  out_peerId :: BcpId
  out_flowSlot :: u32
  out_nextInFlow :: u32
  out_flowId :: u16
  out_mode :: FlowMode
  out_flowEpoch :: u8
  out_epoch :: u32
  out_life :: FlowLifecycle
  out_emitting :: bool
  out_nextSeq :: u32
  out_unresolved :: u32
  out_lastResolvedMicros :: u64
  out_ackBase :: u32
  out_inflightCap :: u16
  out_waitingCap :: u16
  out_waitingHead :: u32
  out_waitingCount :: u32
  out_openBatchUsed :: u16
  out_openBatchHeader :: u16
  out_openBatchCount :: u16
  out_openBatchFirstLen :: u16
  out_openBatchInFlight :: bool
  out_inFlight :: "InFlightEntry list"
  out_waiting :: "WaitingEntry list"

definition no_entry :: InFlightEntry where
  "no_entry = \<lparr>ie_sentAtMicros = 0, ie_seq = 0, ie_packetSlot = INVALID, ie_wireSize = 0, ie_retries = 0,
     ie_congestionEpoch = 0, ie_acked = False, ie_lostByAck = False, ie_freeResend = False\<rparr>"

definition no_waiter :: WaitingEntry where
  "no_waiter = \<lparr>we_waitingSince = 0, we_packetSlot = INVALID, we_wireSize = 0\<rparr>"

definition ResetOutAssoc ::
  "u32 \<Rightarrow> Address \<Rightarrow> BcpId \<Rightarrow> u16 \<Rightarrow> FlowMode \<Rightarrow> u8 \<Rightarrow> u16 \<Rightarrow> u16 \<Rightarrow> u64 \<Rightarrow> OutAssociation \<Rightarrow> OutAssociation" where
  "ResetOutAssoc peerSlot peerAddr peerId flowId mode flowEpoch inflightCap waitingCap now assoc =
     \<lparr>out_peerSlot = peerSlot, out_peerAddr = peerAddr, out_peerId = peerId, out_flowSlot = INVALID, out_nextInFlow = INVALID,
      out_flowId = flowId, out_mode = mode, out_flowEpoch = flowEpoch, out_epoch = out_epoch assoc + 1, out_life = OPEN,
      out_emitting = False, out_nextSeq = 1, out_unresolved = 0, out_lastResolvedMicros = now, out_ackBase = 1,
      out_inflightCap = inflightCap, out_waitingCap = waitingCap, out_waitingHead = 0, out_waitingCount = 0,
      out_openBatchUsed = 0, out_openBatchHeader = 0, out_openBatchCount = 0, out_openBatchFirstLen = 0,
      out_openBatchInFlight = False, out_inFlight = replicate (unat inflightCap) no_entry,
      out_waiting = replicate (unat waitingCap) no_waiter\<rparr>"

section \<open>Pacing and the send gate\<close>

definition pacing_gained :: "u64 \<Rightarrow> SendPeer \<Rightarrow> u64" where
  "pacing_gained elapsed peer =
     ucast (congestionBudget peer) * CC_PACING_GAIN_PERCENT * elapsed div (100 * ucast (srttMicros (rtt peer)))"

definition RefillPacing :: "u64 \<Rightarrow> SendPeer \<Rightarrow> SendPeer" where
  "RefillPacing now peer =
     (if srttMicros (rtt peer) = 0 then peer
      else if pacingRefilledAt peer = 0 \<or> now < pacingRefilledAt peer then peer\<lparr>pacingRefilledAt := now\<rparr>
      else let elapsed = now - pacingRefilledAt peer
           in if elapsed = 0 then peer
              else let gained = pacing_gained elapsed peer
                   in if gained = 0 then peer
                      else let topped = ucast (pacingTokens peer) + gained
                           in peer\<lparr>pacingTokens := (if CC_PACING_BURST_BYTES < topped then CC_PACING_BURST_BYTES else ucast topped),
                                   pacingRefilledAt := now\<rparr>)"

definition PacingAllows :: "u64 \<Rightarrow> u16 \<Rightarrow> SendPeer \<Rightarrow> bool \<times> SendPeer" where
  "PacingAllows now wireSize peer =
     (if srttMicros (rtt peer) = 0 then (True, peer)
      else let peer = RefillPacing now peer in (ucast wireSize \<le> pacingTokens peer, peer))"

definition SpendPacing :: "u16 \<Rightarrow> SendPeer \<Rightarrow> SendPeer" where
  "SpendPacing wireSize peer =
     peer\<lparr>pacingTokens := (if ucast wireSize < pacingTokens peer then pacingTokens peer - ucast wireSize else 0)\<rparr>"

definition ring_at :: "u32 \<Rightarrow> OutAssociation \<Rightarrow> nat" where
  "ring_at seq flow = unat (seq AND (ucast (out_inflightCap flow) - 1))"

definition waiting_at :: "u32 \<Rightarrow> OutAssociation \<Rightarrow> nat" where
  "waiting_at i flow = unat (i AND (ucast (out_waitingCap flow) - 1))"

definition CanSend :: "u16 \<Rightarrow> bool \<Rightarrow> SendPeer \<Rightarrow> OutAssociation \<Rightarrow> bool" where
  "CanSend wireSize windowed peer flow =
     (if windowed \<and> ucast (out_inflightCap flow) \<le> out_unresolved flow then False
      else if ucast (congestionBudget peer) < (ucast (bytesInFlight peer) + ucast wireSize :: u64) then False
      else if theirGrant peer \<noteq> 0 \<and> theirGrant peer \<le> outstandingToPeer peer then False
      else ie_seq (out_inFlight flow ! ring_at (out_nextSeq flow) flow) = 0)"

text \<open>The packet is its bytes and the offset of the flow header in them.\<close>

definition stamp_bytes :: "nat \<Rightarrow> u32 \<Rightarrow> u8 \<Rightarrow> u8 list \<Rightarrow> u8 list" where
  "stamp_bytes header seq flowEpoch data =
     (let s = header + 2
      in data[s := ucast seq, s + 1 := ucast (drop_bit 8 seq), s + 2 := ucast (drop_bit 16 seq), s + 3 := ucast (drop_bit 24 seq),
              s + 4 := set_epoch (data ! (s + 4)) flowEpoch])"

definition StampFlowPacket :: "u32 \<Rightarrow> u16 \<Rightarrow> bool \<Rightarrow> u64 \<Rightarrow> nat \<Rightarrow> OutAssociation \<Rightarrow> SendPeer \<Rightarrow> u8 list
    \<Rightarrow> OutAssociation \<times> SendPeer \<times> u8 list" where
  "StampFlowPacket stagingSlot wireSize flying now header flow peer data =
     (let seq = out_nextSeq flow;
          entry = \<lparr>ie_sentAtMicros = (if flying then now else 0), ie_seq = seq, ie_packetSlot = stagingSlot,
                   ie_wireSize = wireSize, ie_retries = 0, ie_congestionEpoch = congestionEpoch peer,
                   ie_acked = False, ie_lostByAck = False, ie_freeResend = False\<rparr>
      in (flow\<lparr>out_inFlight := (out_inFlight flow)[ring_at seq flow := entry],
               out_unresolved := out_unresolved flow + 1,
               out_nextSeq := (if seq + 1 = 0 then 1 else seq + 1)\<rparr>,
          (SpendPacing wireSize (peer\<lparr>bytesInFlight := bytesInFlight peer + ucast wireSize\<rparr>))
            \<lparr>outstandingToPeer := outstandingToPeer peer + 1\<rparr>,
          stamp_bytes header seq (out_flowEpoch flow) data))"

definition EnqueueWaiting :: "u32 \<Rightarrow> u16 \<Rightarrow> u64 \<Rightarrow> OutAssociation \<Rightarrow> OutAssociation" where
  "EnqueueWaiting packetSlot wireSize now flow =
     flow\<lparr>out_waiting := (out_waiting flow)[waiting_at (out_waitingHead flow + out_waitingCount flow) flow :=
             \<lparr>we_waitingSince = now, we_packetSlot = packetSlot, we_wireSize = wireSize\<rparr>],
          out_waitingCount := out_waitingCount flow + 1\<rparr>"

definition drop_oldest :: "OutAssociation \<Rightarrow> OutAssociation" where
  "drop_oldest flow =
     flow\<lparr>out_waiting := (out_waiting flow)[waiting_at (out_waitingHead flow) flow := no_waiter],
          out_waitingHead := out_waitingHead flow + 1, out_waitingCount := out_waitingCount flow - 1\<rparr>"

definition oldest_waiter :: "OutAssociation \<Rightarrow> WaitingEntry" where
  "oldest_waiter flow = out_waiting flow ! waiting_at (out_waitingHead flow) flow"

text \<open>
  \<open>AdmitOut\<close> once the association is found or created. The last component is the packet slots
  released to the send pool.\<close>

definition AdmitOut :: "u16 \<Rightarrow> u32 \<Rightarrow> u16 \<Rightarrow> bool \<Rightarrow> u64 \<Rightarrow> nat \<Rightarrow> OutAssociation \<Rightarrow> SendPeer \<Rightarrow> u8 list
    \<Rightarrow> SendAdmission \<times> OutAssociation \<times> SendPeer \<times> u8 list \<times> u32 list" where
  "AdmitOut flowId packetSlot wireSize flying now header assoc peer data =
     (if out_life assoc \<noteq> OPEN \<or> out_flowId assoc \<noteq> flowId then (Dead, assoc, peer, data, [])
      else
        let unreliable = out_mode assoc = UNRELIABLE;
            room = out_waitingCount assoc = 0 \<and> CanSend wireSize (\<not> unreliable) peer assoc;
            (paced, peer) = (if room then PacingAllows now wireSize peer else (False, peer))
        in if room \<and> paced
           then let (assoc, peer, data) = StampFlowPacket (if unreliable then INVALID else packetSlot) wireSize flying now header assoc peer data
                in (Sent, assoc, peer, data, [])
           else if out_waitingCount assoc < ucast (out_waitingCap assoc)
           then (Queued, EnqueueWaiting packetSlot wireSize now assoc, peer, data, [])
           else if \<not> unreliable then (Rejected, assoc, peer, data, [])
           else if 0 < out_waitingCap assoc
           then (Queued, EnqueueWaiting packetSlot wireSize now (drop_oldest assoc), peer, data,
                 [we_packetSlot (oldest_waiter assoc)])
           else (Dropped, assoc, peer, data, []))"

section \<open>Resolving and acknowledgements\<close>

definition note_loss :: "u8 \<Rightarrow> CongestionDelta \<Rightarrow> CongestionDelta" where
  "note_loss epoch delta =
     (let delta = (if \<not> sawLoss delta \<or> 0 < sint (epoch - lostEpoch delta) then delta\<lparr>lostEpoch := epoch\<rparr> else delta)
      in delta\<lparr>sawLoss := True\<rparr>)"

type_synonym sending = "OutAssociation \<times> CongestionDelta \<times> u32 list"

definition release_slot :: "u32 \<Rightarrow> u32 list \<Rightarrow> u32 list" where
  "release_slot slot freed = (if slot \<noteq> INVALID then freed @ [slot] else freed)"

definition ResolveOutEntry :: "nat \<Rightarrow> bool \<Rightarrow> sending \<Rightarrow> sending" where
  "ResolveOutEntry i acked = (\<lambda>(flow, delta, freed).
     let entry = out_inFlight flow ! i
     in if ie_seq entry = 0 \<or> ie_acked entry then (flow, delta, freed)
        else
          let delta = delta\<lparr>resolvedBytes := resolvedBytes delta + ucast (ie_wireSize entry),
                            resolvedPackets := resolvedPackets delta + 1\<rparr>;
              delta = (if acked then delta\<lparr>ackedBytes := ackedBytes delta + ucast (ie_wireSize entry)\<rparr>
                       else note_loss (ie_congestionEpoch entry) delta);
              flow = flow\<lparr>out_unresolved := (if 0 < out_unresolved flow then out_unresolved flow - 1 else out_unresolved flow)\<rparr>
          in if acked \<and> IsOrdered (out_mode flow)
             then (flow\<lparr>out_inFlight := (out_inFlight flow)[i := entry\<lparr>ie_acked := True\<rparr>]\<rparr>, delta, freed)
             else (flow\<lparr>out_inFlight := (out_inFlight flow)[i :=
                      entry\<lparr>ie_seq := 0, ie_packetSlot := INVALID, ie_wireSize := 0, ie_acked := False\<rparr>]\<rparr>,
                   delta, release_slot (ie_packetSlot entry) freed))"

definition declare_lost :: "u32 \<Rightarrow> u64 \<Rightarrow> u64 \<Rightarrow> nat \<Rightarrow> OutAssociation \<times> CongestionDelta \<Rightarrow> OutAssociation \<times> CongestionDelta" where
  "declare_lost largestAcked now lossDelayMicros i = (\<lambda>(flow, delta).
     let entry = out_inFlight flow ! i;
         behind = sint (largestAcked - ie_seq entry);
         farBehind = LOSS_PACKET_THRESHOLD \<le> behind;
         longOverdue = ie_sentAtMicros entry \<noteq> 0 \<and> lossDelayMicros < Elapsed now (ie_sentAtMicros entry)
     in if ie_seq entry = 0 \<or> ie_acked entry \<or> ie_lostByAck entry then (flow, delta)
        else if behind \<le> 0 then (flow, delta)
        else if \<not> farBehind \<and> \<not> longOverdue then (flow, delta)
        else (flow\<lparr>out_inFlight := (out_inFlight flow)[i := entry\<lparr>ie_lostByAck := True, ie_freeResend := True, ie_sentAtMicros := 0\<rparr>]\<rparr>,
              note_loss (ie_congestionEpoch entry) (delta\<lparr>lostDeclaredBytes := lostDeclaredBytes delta + ucast (ie_wireSize entry)\<rparr>)))"

definition DeclareLostBelow :: "u32 \<Rightarrow> u64 \<Rightarrow> u64 \<Rightarrow> OutAssociation \<times> CongestionDelta \<Rightarrow> OutAssociation \<times> CongestionDelta" where
  "DeclareLostBelow largestAcked now lossDelayMicros = (\<lambda>(flow, delta).
     if out_mode flow = UNRELIABLE then (flow, delta)
     else fold (declare_lost largestAcked now lossDelayMicros) [0..<unat (out_inflightCap flow)] (flow, delta))"

fun release_run :: "nat \<Rightarrow> u32 \<Rightarrow> OutAssociation \<times> u32 list \<Rightarrow> OutAssociation \<times> u32 list" where
  "release_run 0 remoteRecvNext (flow, freed) = (flow, freed)"
| "release_run (Suc steps) remoteRecvNext (flow, freed) =
     (if out_ackBase flow \<noteq> out_nextSeq flow \<and> out_ackBase flow < remoteRecvNext
      then let i = ring_at (out_ackBase flow) flow; entry = out_inFlight flow ! i;
               base = (if out_ackBase flow + 1 = 0 then 1 else out_ackBase flow + 1)
           in if ie_seq entry = out_ackBase flow
              then if \<not> ie_acked entry then (flow, freed)
                   else release_run steps remoteRecvNext
                          (flow\<lparr>out_inFlight := (out_inFlight flow)[i := no_entry\<lparr>ie_congestionEpoch := ie_congestionEpoch entry\<rparr>],
                                out_ackBase := base\<rparr>, release_slot (ie_packetSlot entry) freed)
              else release_run steps remoteRecvNext (flow\<lparr>out_ackBase := base\<rparr>, freed)
      else (flow, freed))"

definition ReleaseAckedRun :: "u32 \<Rightarrow> OutAssociation \<times> u32 list \<Rightarrow> OutAssociation \<times> u32 list" where
  "ReleaseAckedRun remoteRecvNext = (\<lambda>(flow, freed).
     release_run (unat (out_inflightCap flow)) remoteRecvNext (flow, freed))"

text \<open>What one acknowledgement has gathered while the ring is scanned: the highest sequence it
  resolves, and the newest it resolves for the first time with its send time and whether it was resent.\<close>

type_synonym ack_scan = "u32 option \<times> (u32 \<times> u64 \<times> bool) option"

definition scan_entry :: "InFlightEntry \<Rightarrow> ack_scan \<Rightarrow> ack_scan" where
  "scan_entry entry = (\<lambda>(largest, sample).
     (case largest of
        None \<Rightarrow> Some (ie_seq entry)
      | Some l \<Rightarrow> if 0 < sint (ie_seq entry - l) then Some (ie_seq entry) else largest,
      let taken = Some (ie_seq entry, ie_sentAtMicros entry, ie_retries entry \<noteq> 0 \<or> ie_lostByAck entry)
      in if ie_acked entry then sample
         else case sample of None \<Rightarrow> taken | Some (s, _, _) \<Rightarrow> if 0 < sint (ie_seq entry - s) then taken else sample))"

definition ack_entry :: "u32 \<Rightarrow> AckRange list \<Rightarrow> nat \<Rightarrow> ack_scan \<times> sending \<Rightarrow> ack_scan \<times> sending" where
  "ack_entry remoteRecvNext ranges i = (\<lambda>(scan, flow, delta, freed).
     let entry = out_inFlight flow ! i
     in if ie_seq entry = 0 then (scan, flow, delta, freed)
        else if ie_seq entry < remoteRecvNext \<or> SeqInRanges (ie_seq entry) ranges
        then (scan_entry entry scan, ResolveOutEntry i True (flow, delta, freed))
        else (scan, flow, delta, freed))"

definition take_sample :: "u16 \<Rightarrow> u64 \<Rightarrow> (u32 \<times> u64 \<times> bool) option \<Rightarrow> CongestionDelta \<Rightarrow> CongestionDelta" where
  "take_sample remoteAckDelayMicros now sample delta =
     (case sample of
        None \<Rightarrow> delta
      | Some (_, sentAt, resent) \<Rightarrow>
          if \<not> resent \<and> sentAt \<noteq> 0 \<and> sentAt \<le> now
          then let s = now - sentAt; s = (if ucast remoteAckDelayMicros < s then s - ucast remoteAckDelayMicros else s)
               in delta\<lparr>rttSampleMicros := (if UINT32_MAX < s then UINT32_MAX else ucast s),
                        ackDelayMicros := ucast remoteAckDelayMicros\<rparr>
          else delta)"

definition ApplyAckRanges :: "u32 \<Rightarrow> RttEstimate \<Rightarrow> u16 \<Rightarrow> u8 \<Rightarrow> u32 \<Rightarrow> u16 \<Rightarrow> AckRange list \<Rightarrow> u64 \<Rightarrow> sending \<Rightarrow> sending" where
  "ApplyAckRanges retryMicros est flowId flowEpoch remoteRecvNext remoteAckDelayMicros ranges now = (\<lambda>(flow, delta, freed).
     if out_flowId flow = flowId \<and> out_flowEpoch flow = flowEpoch
     then let ((largest, sample), flow, delta, freed) =
                fold (ack_entry remoteRecvNext ranges) [0..<unat (out_inflightCap flow)] ((None, None), flow, delta, freed);
              delta = take_sample remoteAckDelayMicros now sample delta;
              (flow, delta) = (case largest of
                  None \<Rightarrow> (flow, delta)
                | Some l \<Rightarrow> DeclareLostBelow l now (LossDelayMicros retryMicros est)
                             (flow\<lparr>out_lastResolvedMicros := now\<rparr>, delta));
              (flow, freed) = ReleaseAckedRun remoteRecvNext (flow, freed)
          in (flow, delta, freed)
     else (flow, delta, freed))"

section \<open>Retransmission\<close>

record SendTimers =
  st_retryIntervalMicros :: u32
  st_ackDelayMicros :: u32
  st_flowStallTimeout :: u64

definition death_bound :: "SendTimers \<Rightarrow> RttEstimate \<Rightarrow> u64" where
  "death_bound t est =
     (let base = RetransmitTimeout (st_retryIntervalMicros t) (st_ackDelayMicros t) 0 est;
          deathBound = FLOW_DEATH_ROUNDS * base
      in if deathBound < ucast (st_retryIntervalMicros t) then ucast (st_retryIntervalMicros t) else deathBound)"

definition probe_timeout :: "SendTimers \<Rightarrow> u64 \<Rightarrow> RttEstimate \<Rightarrow> u64" where
  "probe_timeout t now est =
     (let base = RetransmitTimeout (st_retryIntervalMicros t) (st_ackDelayMicros t) 0 est;
          probeCap = death_bound t est div FLOW_DEATH_MIN_PROBES;
          probeCap = (if probeCap < base then base else probeCap);
          rto = RetransmitTimeout (st_retryIntervalMicros t) (st_ackDelayMicros t) now est
      in if probeCap < rto then probeCap else rto)"

type_synonym resending = "SendPeer \<times> (u32 \<times> u32) list \<times> sending"

text \<open>
  Whether the entry may be collected: it has a copy, the batch has room and the clock allows it, asked
  in this order because the last question tops the allowance up.\<close>

definition may_resend :: "u64 \<Rightarrow> InFlightEntry \<Rightarrow> (u32 \<times> u32) list \<Rightarrow> SendPeer \<Rightarrow> bool \<times> SendPeer" where
  "may_resend now entry resends peer =
     (if ie_packetSlot entry \<noteq> INVALID \<and> length resends < RESENDS_PER_ASSOC_PER_TICK
      then PacingAllows now (ie_wireSize entry) peer else (False, peer))"

definition retransmit_entry :: "SendTimers \<Rightarrow> u64 \<Rightarrow> u64 \<Rightarrow> nat \<Rightarrow> resending \<Rightarrow> resending" where
  "retransmit_entry t rto now i = (\<lambda>(peer, resends, flow, delta, freed).
     let entry = out_inFlight flow ! i
     in if ie_seq entry = 0 then (peer, resends, flow, delta, freed)
        else if ie_acked entry then
          if ie_sentAtMicros entry = 0 \<or> Elapsed now (ie_sentAtMicros entry) < st_flowStallTimeout t
          then (peer, resends, flow, delta, freed)
          else let (ok, peer) = may_resend now entry resends peer
               in if ok then (SpendPacing (ie_wireSize entry) peer, resends @ [(ie_seq entry, ie_packetSlot entry)],
                              flow\<lparr>out_inFlight := (out_inFlight flow)[i := entry\<lparr>ie_sentAtMicros := now\<rparr>]\<rparr>, delta, freed)
                  else (peer, resends, flow, delta, freed)
        else if Elapsed now (ie_sentAtMicros entry) < rto then (peer, resends, flow, delta, freed)
        else if out_mode flow = UNRELIABLE then (peer, resends, ResolveOutEntry i False (flow, delta, freed))
        else let (ok, peer) = may_resend now entry resends peer
             in if ok
                then (SpendPacing (ie_wireSize entry) peer, resends @ [(ie_seq entry, ie_packetSlot entry)],
                      flow\<lparr>out_inFlight := (out_inFlight flow)[i :=
                        (if ie_freeResend entry then entry\<lparr>ie_sentAtMicros := now, ie_freeResend := False\<rparr>
                         else if ie_retries entry < 255 then entry\<lparr>ie_sentAtMicros := now, ie_retries := ie_retries entry + 1\<rparr>
                         else entry\<lparr>ie_sentAtMicros := now\<rparr>)]\<rparr>,
                      delta\<lparr>sawProbe := True\<rparr>, freed)
                else (peer, resends, flow, delta, freed))"

definition RetransmitInflight :: "SendTimers \<Rightarrow> u64 \<Rightarrow> resending \<Rightarrow> bool \<times> resending" where
  "RetransmitInflight t now = (\<lambda>(peer, resends, flow, delta, freed).
     if 0 < out_unresolved flow \<and> death_bound t (rtt peer) < Elapsed now (out_lastResolvedMicros flow)
     then (True, peer, resends, flow, delta, freed)
     else (False, fold (retransmit_entry t (probe_timeout t now (rtt peer)) now)
                    [0..<unat (out_inflightCap flow)] (peer, resends, flow, delta, freed)))"

definition RetransmitPass :: "SendTimers \<Rightarrow> u64 \<Rightarrow> resending \<Rightarrow> bool \<times> resending" where
  "RetransmitPass t now = (\<lambda>(peer, resends, flow, delta, freed).
     if out_life flow = OPEN then RetransmitInflight t now (peer, resends, flow, delta, freed)
     else (False, peer, resends, flow, delta, freed))"

fun RefundResendAttempts :: "u32 list \<Rightarrow> OutAssociation \<Rightarrow> OutAssociation" where
  "RefundResendAttempts [] flow = flow"
| "RefundResendAttempts (seq # seqs) flow =
     (let i = ring_at seq flow; entry = out_inFlight flow ! i
      in RefundResendAttempts seqs
           (if ie_seq entry \<noteq> seq \<or> ie_acked entry then flow
            else flow\<lparr>out_inFlight := (out_inFlight flow)[i := entry\<lparr>
                   ie_retries := (if 0 < ie_retries entry then ie_retries entry - 1 else ie_retries entry), ie_sentAtMicros := 0\<rparr>]\<rparr>))"

definition ResendStillValid :: "u32 \<Rightarrow> u32 \<Rightarrow> OutAssociation \<Rightarrow> bool" where
  "ResendStillValid expectedSeq stagingSlot flow \<longleftrightarrow> out_life flow = OPEN \<and>
     (let entry = out_inFlight flow ! ring_at expectedSeq flow in ie_seq entry = expectedSeq \<and> ie_packetSlot entry = stagingSlot)"

section \<open>The waiting ring\<close>

definition WouldAdmit :: "u16 \<Rightarrow> SendPeer \<Rightarrow> OutAssociation \<Rightarrow> bool" where
  "WouldAdmit wireSize peer flow \<longleftrightarrow>
     out_life flow = OPEN \<and> out_waitingCount flow = 0 \<and> CanSend wireSize (out_mode flow \<noteq> UNRELIABLE) peer flow"

record WaitingCandidate =
  wc_assocSlot :: u32
  wc_packetSlot :: u32
  wc_epoch :: u32
  wc_mode :: FlowMode

definition no_candidate :: WaitingCandidate where
  "no_candidate = \<lparr>wc_assocSlot = INVALID, wc_packetSlot = INVALID, wc_epoch = 0, wc_mode = RELIABLE_ORDERED\<rparr>"

definition peek_one :: "SendPeer \<Rightarrow> u32 \<times> OutAssociation \<Rightarrow> WaitingCandidate \<times> u64 \<Rightarrow> WaitingCandidate \<times> u64" where
  "peek_one peer = (\<lambda>(flowSlot, flow) (out, oldestSince).
     if out_life flow = OPEN \<and> 0 < out_waitingCount flow
        \<and> CanSend (we_wireSize (oldest_waiter flow)) (out_mode flow \<noteq> UNRELIABLE) peer flow
        \<and> (wc_assocSlot out = INVALID \<or> we_waitingSince (oldest_waiter flow) < oldestSince)
     then (\<lparr>wc_assocSlot = flowSlot, wc_packetSlot = we_packetSlot (oldest_waiter flow), wc_epoch = out_epoch flow, wc_mode = out_mode flow\<rparr>,
           we_waitingSince (oldest_waiter flow))
     else (out, oldestSince))"

text \<open>Over the associations the peer's directory lists, in its order.\<close>

definition PeekWaiting :: "SendPeer \<Rightarrow> (u32 \<times> OutAssociation) list \<Rightarrow> bool \<times> WaitingCandidate" where
  "PeekWaiting peer assocs =
     (let (out, _) = fold (peek_one peer) assocs (no_candidate, 0) in (wc_assocSlot out \<noteq> INVALID, out))"

definition ClaimWaiting :: "WaitingCandidate \<Rightarrow> u64 \<Rightarrow> nat \<Rightarrow> OutAssociation \<Rightarrow> SendPeer \<Rightarrow> u8 list
    \<Rightarrow> bool \<times> OutAssociation \<times> SendPeer \<times> u8 list" where
  "ClaimWaiting candidate now header flow peer data =
     (let head = oldest_waiter flow;
          room = out_epoch flow = wc_epoch candidate \<and> out_life flow = OPEN \<and> 0 < out_waitingCount flow
            \<and> we_packetSlot head = wc_packetSlot candidate \<and> CanSend (we_wireSize head) (out_mode flow \<noteq> UNRELIABLE) peer flow;
          (paced, peer) = (if room then PacingAllows now (we_wireSize head) peer else (False, peer))
      in if room \<and> paced
         then (True, StampFlowPacket (if wc_mode candidate = UNRELIABLE then INVALID else wc_packetSlot candidate)
                       (we_wireSize head) True now header (drop_oldest flow) peer data)
         else (False, flow, peer, data))"

section \<open>Closing\<close>

definition drain_entry :: "nat \<Rightarrow> u32 \<times> u32 \<times> OutAssociation \<times> u32 list \<Rightarrow> u32 \<times> u32 \<times> OutAssociation \<times> u32 list" where
  "drain_entry i = (\<lambda>(bytes, packets, flow, freed).
     let entry = out_inFlight flow ! i; owed = ie_seq entry \<noteq> 0 \<and> \<not> ie_acked entry
     in (if owed then bytes + ucast (ie_wireSize entry) else bytes, if owed then packets + 1 else packets,
         flow\<lparr>out_inFlight := (out_inFlight flow)[i := entry\<lparr>ie_packetSlot := INVALID, ie_seq := 0, ie_wireSize := 0, ie_acked := False\<rparr>]\<rparr>,
         release_slot (ie_packetSlot entry) freed))"

definition DrainOutInflight :: "OutAssociation \<Rightarrow> u32 list \<Rightarrow> u32 \<times> u32 \<times> OutAssociation \<times> u32 list" where
  "DrainOutInflight flow freed =
     (let (bytes, packets, flow, freed) = fold drain_entry [0..<unat (out_inflightCap flow)] (0, 0, flow, freed)
      in (bytes, packets, flow\<lparr>out_unresolved := 0\<rparr>, freed))"

fun drain_waiting :: "nat \<Rightarrow> OutAssociation \<times> u32 list \<Rightarrow> OutAssociation \<times> u32 list" where
  "drain_waiting 0 (flow, freed) = (flow, freed)"
| "drain_waiting (Suc n) (flow, freed) =
     drain_waiting n (drop_oldest flow, release_slot (we_packetSlot (oldest_waiter flow)) freed)"

definition DrainOutWaiting :: "OutAssociation \<Rightarrow> u32 list \<Rightarrow> OutAssociation \<times> u32 list" where
  "DrainOutWaiting flow freed = drain_waiting (unat (out_waitingCount flow)) (flow, freed)"

section \<open>A run of the sending side\<close>

text \<open>
  Everything that happens to one sending association: packets offered, waiting packets claimed,
  acknowledgements with any cursor and any ranges, retransmission passes and refunded resends. The
  peer each step sees is arbitrary, as other associations and the congestion controller change
  it in between. The history is the packet slots accepted, in order, and the slots released.\<close>

definition no_delta :: CongestionDelta where
  "no_delta = \<lparr>resolvedBytes = 0, resolvedPackets = 0, ackedBytes = 0, rttSampleMicros = 0, ackDelayMicros = 0,
     sawLoss = False, lostDeclaredBytes = 0, lostEpoch = 0, sawProbe = False\<rparr>"

datatype send_op =
    Offer SendPeer u32 u16 bool u64 nat "u8 list"
  | Claim SendPeer WaitingCandidate u64 nat "u8 list"
  | AckIn u32 RttEstimate u32 u16 "AckRange list" u64 CongestionDelta
  | Tick SendPeer SendTimers u64
  | Refund "u32 list"

fun send_step :: "OutAssociation \<times> u32 list \<times> u32 list \<Rightarrow> send_op \<Rightarrow> OutAssociation \<times> u32 list \<times> u32 list" where
  "send_step (flow, accepted, freed) (Offer peer slot wireSize flying now header data) =
     (let (r, flow, _, _, out) = AdmitOut (out_flowId flow) slot wireSize flying now header flow peer data
      in (flow, if r = Sent \<or> r = Queued then accepted @ [slot] else accepted, freed @ out))"
| "send_step (flow, accepted, freed) (Claim peer candidate now header data) =
     (let (_, flow, _, _) = ClaimWaiting candidate now header flow peer data in (flow, accepted, freed))"
| "send_step (flow, accepted, freed) (AckIn retryMicros est cursor delay ranges now delta) =
     (let (flow, _, freed) = ApplyAckRanges retryMicros est (out_flowId flow) (out_flowEpoch flow) cursor delay ranges now (flow, delta, freed)
      in (flow, accepted, freed))"
| "send_step (flow, accepted, freed) (Tick peer timers now) =
     (let (_, _, _, flow, _, freed) = RetransmitPass timers now (peer, [], flow, no_delta, freed) in (flow, accepted, freed))"
| "send_step (flow, accepted, freed) (Refund seqs) = (RefundResendAttempts seqs flow, accepted, freed)"

section \<open>What an operation leaves alone\<close>

definition outstanding :: "InFlightEntry \<Rightarrow> bool" where
  "outstanding e \<longleftrightarrow> ie_seq e \<noteq> 0 \<and> \<not> ie_acked e"

definition owed :: "(InFlightEntry \<Rightarrow> nat) \<Rightarrow> OutAssociation \<Rightarrow> nat" where
  "owed g flow = (\<Sum>e\<leftarrow>out_inFlight flow. if outstanding e then g e else 0)"

definition entry_ids :: "InFlightEntry list \<Rightarrow> (u32 \<times> u32) list" where
  "entry_ids ring = map (\<lambda>e. (ie_seq e, ie_packetSlot e)) ring"

abbreviation ring_ids :: "OutAssociation \<Rightarrow> (u32 \<times> u32) list" where
  "ring_ids flow \<equiv> entry_ids (out_inFlight flow)"

definition core :: "OutAssociation \<Rightarrow> FlowMode \<times> u16 \<times> u32 \<times> u32 \<times> u16 \<times> u32 \<times> u32 \<times> WaitingEntry list \<times> (u32 \<times> u32) list" where
  "core flow = (out_mode flow, out_inflightCap flow, out_nextSeq flow, out_ackBase flow, out_waitingCap flow,
     out_waitingHead flow, out_waitingCount flow, out_waiting flow, ring_ids flow)"

definition counted :: "OutAssociation \<Rightarrow> bool" where
  "counted flow \<longleftrightarrow> unat (out_unresolved flow) = owed (\<lambda>_. 1) flow"

lemma owed_update:
  assumes "i < length (out_inFlight flow)"
  shows "owed g (flow\<lparr>out_inFlight := (out_inFlight flow)[i := e]\<rparr>) =
    owed g flow + (if outstanding e then g e else 0) - (if outstanding (out_inFlight flow ! i) then g (out_inFlight flow ! i) else 0)"
  using assms by (simp add: owed_def map_update sum_list_update)

lemma owed_member:
  assumes "i < length (out_inFlight flow)" and "outstanding (out_inFlight flow ! i)"
  shows "g (out_inFlight flow ! i) \<le> owed g flow"
proof -
  have "g (out_inFlight flow ! i) = map (\<lambda>e. if outstanding e then g e else 0) (out_inFlight flow) ! i" using assms by simp
  also have "\<dots> \<le> owed g flow" unfolding owed_def using assms(1) by (intro elem_le_sum_list) simp
  finally show ?thesis .
qed

lemma owed_fields [simp]:
  "owed g (flow\<lparr>out_unresolved := x\<rparr>) = owed g flow" "owed g (flow\<lparr>out_lastResolvedMicros := n\<rparr>) = owed g flow"
  "owed g (flow\<lparr>out_ackBase := b\<rparr>) = owed g flow" "owed g (flow\<lparr>out_nextSeq := s\<rparr>) = owed g flow"
  "owed g (flow\<lparr>out_waiting := w\<rparr>) = owed g flow" "owed g (flow\<lparr>out_waitingHead := h\<rparr>) = owed g flow"
  "owed g (flow\<lparr>out_waitingCount := c\<rparr>) = owed g flow"
  by (simp_all add: owed_def)

lemma ring_ids_same:
  "ie_seq e = ie_seq (out_inFlight flow ! i) \<Longrightarrow> ie_packetSlot e = ie_packetSlot (out_inFlight flow ! i) \<Longrightarrow>
    entry_ids ((out_inFlight flow)[i := e]) = ring_ids flow"
  using list_update_id [of "ring_ids flow" i]
  by (cases "i < length (out_inFlight flow)") (auto simp: entry_ids_def map_update list_update_beyond)

lemma Resolve_core:
  assumes "IsOrdered (out_mode flow)" and "ResolveOutEntry i True (flow, delta, freed) = (flow', delta', freed')"
  shows "core flow' = core flow" and "freed' = freed"
  using assms by (auto simp: ResolveOutEntry_def Let_def core_def ring_ids_same split: if_splits)

lemma Resolve_owed:
  assumes "i < length (out_inFlight flow)" and "ResolveOutEntry i acked (flow, delta, freed) = (flow', delta', freed')"
  shows "owed g flow' + (if outstanding (out_inFlight flow ! i) then g (out_inFlight flow ! i) else 0) = owed g flow"
    and "length (out_inFlight flow') = length (out_inFlight flow)"
    and "counted flow \<Longrightarrow> counted flow'"
proof -
  let ?e = "out_inFlight flow ! i"
  have o: "outstanding ?e \<Longrightarrow> g ?e \<le> owed g flow" for g by (rule owed_member [OF assms(1)])
  define u where "u = (if 0 < out_unresolved flow then out_unresolved flow - 1 else out_unresolved flow)"
  define e' where "e' = (if acked \<and> IsOrdered (out_mode flow) then ?e\<lparr>ie_acked := True\<rparr>
      else ?e\<lparr>ie_seq := 0, ie_packetSlot := INVALID, ie_wireSize := 0, ie_acked := False\<rparr>)"
  have f: "flow' = (if outstanding ?e then flow\<lparr>out_unresolved := u, out_inFlight := (out_inFlight flow)[i := e']\<rparr> else flow)"
    using assms(2) by (auto simp: ResolveOutEntry_def Let_def outstanding_def u_def e'_def split: if_splits)
  have n: "\<not> outstanding e'" by (simp add: e'_def outstanding_def)
  have w: "owed g (flow\<lparr>out_unresolved := u, out_inFlight := (out_inFlight flow)[i := e']\<rparr>)
      = owed g (flow\<lparr>out_inFlight := (out_inFlight flow)[i := e']\<rparr>)" for g by (simp add: owed_def)
  show ow: "owed g flow' + (if outstanding ?e then g ?e else 0) = owed g flow" for g
    using owed_update [OF assms(1), of g e'] o [of g] n by (simp add: f w)
  show "length (out_inFlight flow') = length (out_inFlight flow)" by (simp add: f)
  show "counted flow'" if c: "counted flow"
  proof (cases "outstanding ?e")
    case True
    then have "owed (\<lambda>_. 1) flow' + 1 = unat (out_unresolved flow)" using ow [of "\<lambda>_. 1"] c by (simp add: counted_def)
    then have "unat u + 1 = unat (out_unresolved flow)" by (simp add: u_def unat_sub_le word_le_nat_alt word_less_nat_alt)
    then show ?thesis using True \<open>owed (\<lambda>_. 1) flow' + 1 = _\<close> by (simp add: counted_def f)
  qed (use c f in simp)
qed

definition kept :: "OutAssociation \<Rightarrow> OutAssociation \<Rightarrow> bool" where
  "kept flow flow' \<longleftrightarrow> core flow' = core flow \<and> (counted flow \<longrightarrow> counted flow')"

lemma kept_refl: "kept flow flow"
  by (simp add: kept_def)

lemma kept_trans: "kept a b \<Longrightarrow> kept b c \<Longrightarrow> kept a c"
  by (auto simp: kept_def)

lemma core_fields:
  assumes "core flow' = core flow"
  shows "out_mode flow' = out_mode flow" "out_inflightCap flow' = out_inflightCap flow" "length (out_inFlight flow') = length (out_inFlight flow)"
  using assms map_eq_imp_length_eq by (auto simp: core_def entry_ids_def)

lemma kept_touch:
  assumes "ie_seq e = ie_seq (out_inFlight flow ! i)" and "ie_packetSlot e = ie_packetSlot (out_inFlight flow ! i)"
    and "ie_acked e = ie_acked (out_inFlight flow ! i)"
  shows "kept flow (flow\<lparr>out_inFlight := (out_inFlight flow)[i := e]\<rparr>)"
proof -
  have "map (\<lambda>e. if outstanding e then 1 else 0 :: nat) ((out_inFlight flow)[i := e]) = map (\<lambda>e. if outstanding e then 1 else 0) (out_inFlight flow)"
    using assms list_update_id [of "map (\<lambda>e. if outstanding e then 1 else 0 :: nat) (out_inFlight flow)" i]
    by (cases "i < length (out_inFlight flow)") (auto simp: map_update outstanding_def list_update_beyond)
  then show ?thesis using ring_ids_same [OF assms(1,2)] by (simp add: kept_def core_def counted_def owed_def del: One_nat_def)
qed

lemma kept_resolve:
  assumes "IsOrdered (out_mode flow)" and "i < length (out_inFlight flow)" and "ResolveOutEntry i True (flow, delta, freed) = (flow', delta', freed')"
  shows "kept flow flow' \<and> freed' = freed"
  using Resolve_core [OF assms(1,3)] Resolve_owed(3) [OF assms(2,3)] by (simp add: kept_def)

lemma ack_fold:
  assumes "IsOrdered (out_mode flow)" and "n \<le> length (out_inFlight flow)"
    and "fold (ack_entry cursor ranges) [0..<n] (scan, flow, delta, freed) = (scan', flow', delta', freed')"
  shows "kept flow flow' \<and> freed' = freed"
proof -
  let ?P = "\<lambda>(scan :: ack_scan, flow', delta :: CongestionDelta, freed'). kept flow flow' \<and> freed' = freed"
  have "?P (fold (ack_entry cursor ranges) [0..<n] (scan, flow, delta, freed))"
  proof (rule fold_invariant [where Q = "\<lambda>i. i < n"])
    show "?P (scan, flow, delta, freed)" by (simp add: kept_refl)
    fix i st
    assume i: "i < n" and P: "?P st"
    obtain sc f d fr where st: "st = (sc, f, d, fr)" by (cases st)
    have k: "kept flow f" "fr = freed" using P by (simp_all add: st)
    have f: "IsOrdered (out_mode f)" "i < length (out_inFlight f)" using core_fields [of f flow] k(1) assms(1,2) i by (simp_all add: kept_def)
    obtain f' d' fr' where r: "ResolveOutEntry i True (f, d, fr) = (f', d', fr')" by (cases "ResolveOutEntry i True (f, d, fr)")
    show "?P (ack_entry cursor ranges i st)"
      using kept_resolve [OF f r] kept_trans [OF k(1), of f'] k r by (simp add: st ack_entry_def Let_def)
  qed simp
  then show ?thesis using assms(3) by simp
qed

lemma declare_fold:
  "kept flow (fst (fold (declare_lost largest now delay) is (flow, delta)))"
proof -
  let ?P = "\<lambda>(flow', delta :: CongestionDelta). kept flow flow'"
  have "?P (fold (declare_lost largest now delay) is (flow, delta))"
  proof (rule fold_invariant [where Q = "\<lambda>_. True"])
    show "?P (flow, delta)" by (simp add: kept_refl)
    fix i st
    assume P: "?P st"
    obtain f d where st: "st = (f, d)" by (cases st)
    show "?P (declare_lost largest now delay i st)"
      using P kept_trans [OF _ kept_touch, of flow f] by (simp add: st declare_lost_def Let_def)
  qed simp
  then show ?thesis by (simp add: case_prod_beta)
qed

lemma retransmit_fold:
  assumes "IsOrdered (out_mode flow)"
    and "fold (retransmit_entry t rto now) is (peer, resends, flow, delta, freed) = (peer', resends', flow', delta', freed')"
  shows "kept flow flow' \<and> freed' = freed"
proof -
  let ?P = "\<lambda>(peer :: SendPeer, resends :: (u32 \<times> u32) list, flow', delta :: CongestionDelta, freed'). kept flow flow' \<and> freed' = freed"
  have "?P (fold (retransmit_entry t rto now) is (peer, resends, flow, delta, freed))"
  proof (rule fold_invariant [where Q = "\<lambda>_. True"])
    show "?P (peer, resends, flow, delta, freed)" by (simp add: kept_refl)
    fix i st
    assume P: "?P st"
    obtain p rs f d fr where st: "st = (p, rs, f, d, fr)" by (cases st)
    have k: "kept flow f" "fr = freed" using P by (simp_all add: st)
    have "out_mode f \<noteq> UNRELIABLE" using core_fields(1) [of f flow] k(1) assms(1) by (auto simp: kept_def)
    then show "?P (retransmit_entry t rto now i st)"
      using k kept_trans [OF k(1) kept_touch] by (simp add: st retransmit_entry_def Let_def case_prod_beta)
  qed simp
  then show ?thesis using assms(2) by simp
qed

lemma refund_kept: "kept flow (RefundResendAttempts seqs flow)"
proof (induction seqs arbitrary: flow)
  case (Cons s seqs)
  show ?case using kept_trans [OF kept_touch Cons.IH] Cons.IH by (simp add: Let_def)
qed (simp add: kept_refl)

section \<open>The rings against the history\<close>

text \<open>
  Packet \<open>n\<close> of those accepted carries sequence \<open>n\<close>. Those below \<open>ackBase\<close> were released, those from
  there to \<open>nextSeq\<close> sit in the in-flight ring, the rest wait.\<close>

definition ring_rel :: "nat \<Rightarrow> u32 list \<Rightarrow> OutAssociation \<Rightarrow> u32 list \<Rightarrow> bool" where
  "ring_rel reach accepted flow freed \<longleftrightarrow>
     IsOrdered (out_mode flow) \<and> (\<exists>k\<le>15. unat (out_inflightCap flow) = 2 ^ k)
     \<and> length (out_inFlight flow) = unat (out_inflightCap flow) \<and> counted flow
     \<and> 1 \<le> unat (out_ackBase flow) \<and> unat (out_ackBase flow) \<le> unat (out_nextSeq flow)
     \<and> unat (out_nextSeq flow) \<le> unat (out_ackBase flow) + unat (out_inflightCap flow)
     \<and> unat (out_nextSeq flow) \<le> Suc (length accepted) \<and> unat (out_ackBase flow) \<le> max 1 reach
     \<and> freed = take (unat (out_ackBase flow) - 1) accepted
     \<and> (\<forall>s. unat (out_ackBase flow) \<le> s \<and> s < unat (out_nextSeq flow) \<longrightarrow>
          ring_ids flow ! (s mod unat (out_inflightCap flow)) = (of_nat s, accepted ! (s - 1)))
     \<and> (\<forall>i<unat (out_inflightCap flow). fst (ring_ids flow ! i) \<noteq> 0 \<longrightarrow>
          unat (out_ackBase flow) \<le> unat (fst (ring_ids flow ! i)) \<and> unat (fst (ring_ids flow ! i)) < unat (out_nextSeq flow)
          \<and> unat (fst (ring_ids flow ! i)) mod unat (out_inflightCap flow) = i)"

definition wait_rel :: "u32 list \<Rightarrow> OutAssociation \<Rightarrow> bool" where
  "wait_rel accepted flow \<longleftrightarrow>
     (unat (out_waitingCap flow) = 0 \<or> (\<exists>k\<le>15. unat (out_waitingCap flow) = 2 ^ k))
     \<and> length (out_waiting flow) = unat (out_waitingCap flow)
     \<and> unat (out_nextSeq flow) + unat (out_waitingCount flow) = Suc (length accepted)
     \<and> unat (out_waitingCount flow) \<le> unat (out_waitingCap flow)
     \<and> (\<forall>j<unat (out_waitingCount flow).
          we_packetSlot (out_waiting flow ! waiting_at (out_waitingHead flow + of_nat j) flow) = accepted ! (unat (out_nextSeq flow) - 1 + j))"

lemma ring_at_mod:
  assumes "\<exists>k\<le>15. unat (out_inflightCap flow) = 2 ^ k"
  shows "ring_at s flow = unat s mod unat (out_inflightCap flow)"
  using assms seen_idx_mod [of "out_inflightCap flow" _ s] by (auto simp: ring_at_def seen_idx_def)

lemma waiting_at_mod:
  assumes "unat (out_waitingCap flow) = 2 ^ k" and "k \<le> 15"
  shows "waiting_at (h + of_nat j) flow = (unat h + j) mod 2 ^ k"
proof -
  have "waiting_at (h + of_nat j) flow = unat (h + of_nat j) mod 2 ^ k"
    using seen_idx_mod [OF assms, of "h + of_nat j"] assms(1) by (simp add: waiting_at_def seen_idx_def)
  also have "\<dots> = ((unat h + j) mod 2 ^ 32) mod 2 ^ k"
    by (simp add: unat_word_ariths unat_of_nat mod_simps)
  also have "\<dots> = (unat h + j) mod 2 ^ k" using assms(2) by (intro mod_mod_cancel le_imp_power_dvd) simp
  finally show ?thesis .
qed

lemma waiting_at_inj:
  assumes "unat (out_waitingCap flow) = 2 ^ k" and "k \<le> 15" and "i < 2 ^ k" and "j < 2 ^ k"
    and "waiting_at (h + of_nat i) flow = waiting_at (h + of_nat j) flow"
  shows "i = j"
  using mod_shift_inj [of "unat h" i "2 ^ k" j] assms by (simp add: waiting_at_mod)

lemma kept_ring:
  assumes "kept flow flow'" and "ring_rel reach accepted flow freed"
  shows "ring_rel reach accepted flow' freed"
proof -
  have c: "core flow' = core flow" "counted flow'" using assms by (auto simp: kept_def ring_rel_def)
  then have "length (out_inFlight flow') = length (out_inFlight flow)" using core_fields(3) by blast
  then show ?thesis using assms(2) c by (simp add: ring_rel_def core_def)
qed

lemma kept_wait:
  assumes "kept flow flow'" shows "wait_rel accepted flow' = wait_rel accepted flow"
  using assms by (auto simp: kept_def core_def wait_rel_def waiting_at_def)

lemma ring_rel_more:
  assumes "ring_rel reach accepted flow freed" shows "ring_rel reach (accepted @ xs) flow freed"
  using assms by (auto simp: ring_rel_def nth_append)

lemma ring_rel_reach:
  assumes "ring_rel reach accepted flow freed" and "reach \<le> reach'" shows "ring_rel reach' accepted flow freed"
  using assms by (auto simp: ring_rel_def)

lemma ring_rel_ids:
  assumes "ring_rel reach accepted flow freed" and "unat (out_ackBase flow) \<le> s" and "s < unat (out_nextSeq flow)"
  shows "ie_seq (out_inFlight flow ! (s mod unat (out_inflightCap flow))) = of_nat s"
    "ie_packetSlot (out_inFlight flow ! (s mod unat (out_inflightCap flow))) = accepted ! (s - 1)"
    "s mod unat (out_inflightCap flow) < length (out_inFlight flow)" "unat (of_nat s :: u32) = s" "s - 1 < length accepted"
proof -
  let ?W = "unat (out_inflightCap flow)"
  have W: "0 < ?W" "length (out_inFlight flow) = ?W" using assms(1) by (auto simp: ring_rel_def)
  then show l: "s mod ?W < length (out_inFlight flow)" by simp
  have "ring_ids flow ! (s mod ?W) = (of_nat s, accepted ! (s - 1))" using assms by (simp add: ring_rel_def)
  then show "ie_seq (out_inFlight flow ! (s mod ?W)) = of_nat s" "ie_packetSlot (out_inFlight flow ! (s mod ?W)) = accepted ! (s - 1)"
    using l by (simp_all add: entry_ids_def)
  show "unat (of_nat s :: u32) = s" using assms(3) unat_u32_less [of "out_nextSeq flow"] by (simp add: unat_of_nat)
  show "s - 1 < length accepted" using assms by (auto simp: ring_rel_def)
qed

lemma owed_bound: "owed (\<lambda>_. 1) flow \<le> length (out_inFlight flow)"
proof -
  have "(\<Sum>e\<leftarrow>es. if outstanding e then 1 else 0) \<le> length es" for es :: "InFlightEntry list" by (induction es) auto
  then show ?thesis unfolding owed_def .
qed

lemma entry_ids_update:
  "entry_ids (xs[i := e]) ! j = (if j = i \<and> i < length xs then (ie_seq e, ie_packetSlot e) else entry_ids xs ! j)"
  by (auto simp: entry_ids_def map_update nth_list_update list_update_beyond)

lemma ring_rel_facts:
  assumes "ring_rel reach accepted flow freed"
  shows "IsOrdered (out_mode flow)" "\<exists>k\<le>15. unat (out_inflightCap flow) = 2 ^ k" "length (out_inFlight flow) = unat (out_inflightCap flow)"
    "counted flow" "1 \<le> unat (out_ackBase flow)" "unat (out_ackBase flow) \<le> unat (out_nextSeq flow)"
    "unat (out_nextSeq flow) \<le> unat (out_ackBase flow) + unat (out_inflightCap flow)" "unat (out_nextSeq flow) \<le> Suc (length accepted)"
    "unat (out_ackBase flow) \<le> max 1 reach" "freed = take (unat (out_ackBase flow) - 1) accepted" "0 < unat (out_inflightCap flow)"
    "\<And>i. i < unat (out_inflightCap flow) \<Longrightarrow> fst (ring_ids flow ! i) \<noteq> 0 \<Longrightarrow>
       unat (out_ackBase flow) \<le> unat (fst (ring_ids flow ! i)) \<and> unat (fst (ring_ids flow ! i)) < unat (out_nextSeq flow)
       \<and> unat (fst (ring_ids flow ! i)) mod unat (out_inflightCap flow) = i"
    "\<And>s. unat (out_ackBase flow) \<le> s \<Longrightarrow> s < unat (out_nextSeq flow) \<Longrightarrow>
       ring_ids flow ! (s mod unat (out_inflightCap flow)) = (of_nat s, accepted ! (s - 1))"
  using assms by (auto simp: ring_rel_def)

lemma ring_slot_other:
  assumes "ring_rel reach accepted flow freed" and "unat (out_ackBase flow) \<le> s" and "s < unat (out_nextSeq flow)"
    and "unat (out_ackBase flow) \<le> s'" and "s' < unat (out_nextSeq flow)" and "s \<noteq> s'"
  shows "s mod unat (out_inflightCap flow) \<noteq> s' mod unat (out_inflightCap flow)"
  using same_residue [of s "unat (out_inflightCap flow)" s'] same_residue [of s' "unat (out_inflightCap flow)" s] assms
    ring_rel_facts(7) [OF assms(1)] by (cases "s \<le> s'") auto

lemma release_one:
  assumes rel: "ring_rel reach accepted flow freed" and valid: "INVALID \<notin> set accepted"
    and b: "out_ackBase flow \<noteq> out_nextSeq flow" "out_ackBase flow < cursor"
    and i: "i = ring_at (out_ackBase flow) flow" and acked: "ie_acked (out_inFlight flow ! i)" and e: "ie_seq e = 0"
  shows "ring_rel (max reach (unat cursor)) accepted
      (flow\<lparr>out_inFlight := (out_inFlight flow)[i := e], out_ackBase := (if out_ackBase flow + 1 = 0 then 1 else out_ackBase flow + 1)\<rparr>)
      (release_slot (ie_packetSlot (out_inFlight flow ! i)) freed)"
proof -
  note F = ring_rel_facts [OF rel]
  let ?b = "unat (out_ackBase flow)" and ?W = "unat (out_inflightCap flow)" and ?n = "unat (out_nextSeq flow)"
  let ?f = "flow\<lparr>out_inFlight := (out_inFlight flow)[i := e], out_ackBase := out_ackBase flow + 1\<rparr>"
  have lt: "?b < ?n" using F(6) b(1) by (metis le_neq_implies_less word_unat_eq_iff)
  note ids = ring_rel_ids [OF rel le_refl lt]
  have im: "i = ?b mod ?W" using ring_at_mod [OF F(2)] i by simp
  have il: "i < length (out_inFlight flow)" using ids(3) im by simp
  have b1: "unat (out_ackBase flow + 1) = Suc ?b" using lt by (intro unat_Suc_small) (simp add: word_less_nat_alt)
  then have nz: "out_ackBase flow + 1 \<noteq> 0" by (metis nat.distinct(1) unat_0)
  have slot: "ie_packetSlot (out_inFlight flow ! i) = accepted ! (?b - 1)" using ids(2) im by simp
  then have "ie_packetSlot (out_inFlight flow ! i) \<noteq> INVALID" using valid ids(5) by (metis nth_mem)
  then have "release_slot (ie_packetSlot (out_inFlight flow ! i)) freed = take ?b accepted"
    using F(5,10) slot ids(5) take_Suc_conv_app_nth [of "?b - 1" accepted] by (simp add: release_slot_def)
  moreover have "counted ?f"
    using F(4) owed_update [OF il, of "\<lambda>_. 1" e] acked e by (simp add: counted_def outstanding_def owed_def)
  moreover have "ring_ids ?f ! (s mod ?W) = (of_nat s, accepted ! (s - 1))" if "Suc ?b \<le> s" "s < ?n" for s
    using F(13) [of s] ring_slot_other [OF rel le_refl lt, of s] that im by (simp add: entry_ids_update)
  moreover have "Suc ?b \<le> unat (fst (ring_ids ?f ! j)) \<and> unat (fst (ring_ids ?f ! j)) < ?n \<and> unat (fst (ring_ids ?f ! j)) mod ?W = j"
    if j: "j < ?W" "fst (ring_ids ?f ! j) \<noteq> 0" for j
  proof -
    have ji: "j \<noteq> i" using j e il by (auto simp: entry_ids_update)
    then have q: "?b \<le> unat (fst (ring_ids flow ! j)) \<and> unat (fst (ring_ids flow ! j)) < ?n \<and> unat (fst (ring_ids flow ! j)) mod ?W = j"
      using F(12) [OF j(1)] j(2) by (simp add: entry_ids_update)
    then have "unat (fst (ring_ids flow ! j)) \<noteq> ?b" using ji im by auto
    then show ?thesis using q ji by (simp add: entry_ids_update)
  qed
  ultimately show ?thesis using F lt b(2) b1 nz by (auto simp: ring_rel_def word_less_nat_alt)
qed

lemma wait_rel_ring [simp]:
  "wait_rel accepted (flow\<lparr>out_inFlight := r, out_ackBase := b\<rparr>) = wait_rel accepted flow"
  "wait_rel accepted (flow\<lparr>out_ackBase := b\<rparr>) = wait_rel accepted flow"
  "wait_rel accepted (flow\<lparr>out_inFlight := r\<rparr>) = wait_rel accepted flow"
  "wait_rel accepted (flow\<lparr>out_lastResolvedMicros := m\<rparr>) = wait_rel accepted flow"
  by (simp_all add: wait_rel_def waiting_at_def)

lemma release_run_rel:
  assumes "ring_rel reach accepted flow freed" and "INVALID \<notin> set accepted" and "unat cursor \<le> reach"
    and "release_run n cursor (flow, freed) = (flow', freed')"
  shows "ring_rel reach accepted flow' freed' \<and> wait_rel accepted flow' = wait_rel accepted flow"
  using assms(1,4)
proof (induction n arbitrary: flow freed)
  case 0
  then show ?case by simp
next
  case (Suc n)
  let ?i = "ring_at (out_ackBase flow) flow"
  let ?e = "out_inFlight flow ! ?i"
  let ?base = "if out_ackBase flow + 1 = 0 then 1 else out_ackBase flow + 1"
  let ?e' = "no_entry\<lparr>ie_congestionEpoch := ie_congestionEpoch ?e\<rparr>"
  let ?f = "flow\<lparr>out_inFlight := (out_inFlight flow)[?i := ?e'], out_ackBase := ?base\<rparr>"
  show ?case
  proof (cases "out_ackBase flow \<noteq> out_nextSeq flow \<and> out_ackBase flow < cursor")
    case True
    have F: "\<exists>k\<le>15. unat (out_inflightCap flow) = 2 ^ k" "unat (out_ackBase flow) \<le> unat (out_nextSeq flow)"
      using ring_rel_facts(2,6) [OF Suc.prems(1)] by blast+
    then have lt: "unat (out_ackBase flow) < unat (out_nextSeq flow)" using True by (simp add: le_less word_unat_eq_iff)
    have seq: "ie_seq ?e = out_ackBase flow" using ring_rel_ids(1) [OF Suc.prems(1) le_refl lt] ring_at_mod [OF F(1)] by simp
    show ?thesis
    proof (cases "ie_acked ?e")
      case False
      then show ?thesis using Suc.prems True seq by (simp add: Let_def)
    next
      case acked: True
      have "ring_rel (max reach (unat cursor)) accepted ?f (release_slot (ie_packetSlot ?e) freed)"
        using release_one [OF Suc.prems(1) assms(2) _ _ refl acked, of cursor ?e'] True by (simp add: no_entry_def)
      then have rel: "ring_rel reach accepted ?f (release_slot (ie_packetSlot ?e) freed)" using assms(3) by (simp add: max_def split: if_splits)
      have "release_run (Suc n) cursor (flow, freed) = release_run n cursor (?f, release_slot (ie_packetSlot ?e) freed)"
        using True seq acked by (simp only: release_run.simps Let_def simp_thms if_True if_False)
      from Suc.IH [OF rel] Suc.prems(2) this show ?thesis by simp
    qed
  next
    case False
    then have c: "(out_ackBase flow \<noteq> out_nextSeq flow \<and> out_ackBase flow < cursor) = False" by simp
    have "release_run (Suc n) cursor (flow, freed) = (flow, freed)" by (simp only: release_run.simps c if_False)
    then show ?thesis using Suc.prems by simp
  qed
qed

lemma CanSend_free:
  assumes "CanSend w True peer flow"
  shows "ie_seq (out_inFlight flow ! ring_at (out_nextSeq flow) flow) = 0" and "out_unresolved flow < ucast (out_inflightCap flow)"
  using assms by (auto simp: CanSend_def not_le split: if_splits)

lemma stamp_rel:
  assumes rel: "ring_rel reach accepted flow freed" and free: "ie_seq (out_inFlight flow ! ring_at (out_nextSeq flow) flow) = 0"
    and slot: "unat (out_nextSeq flow) \<le> length accepted" "accepted ! (unat (out_nextSeq flow) - 1) = slot"
    and small: "length accepted < 4294967295" and st: "StampFlowPacket slot w flying now header flow peer data = (flow', peer', data')"
  shows "ring_rel reach accepted flow' freed"
proof -
  note F = ring_rel_facts [OF rel]
  let ?b = "unat (out_ackBase flow)" and ?W = "unat (out_inflightCap flow)" and ?n = "unat (out_nextSeq flow)"
  define i where "i = ring_at (out_nextSeq flow) flow"
  define e where "e = \<lparr>ie_sentAtMicros = (if flying then now else 0), ie_seq = out_nextSeq flow, ie_packetSlot = slot,
      ie_wireSize = w, ie_retries = 0, ie_congestionEpoch = congestionEpoch peer, ie_acked = False, ie_lostByAck = False, ie_freeResend = False\<rparr>"
  have e: "ie_seq e = out_nextSeq flow" "ie_packetSlot e = slot" "outstanding e"
    using F(5,6) by (auto simp: e_def outstanding_def)
  have n1: "unat (out_nextSeq flow + 1) = Suc ?n" using slot(1) small by (subst unat_add_small) simp_all
  then have nz: "out_nextSeq flow + 1 \<noteq> 0" by (metis nat.distinct(1) unat_0)
  have f': "flow' = flow\<lparr>out_inFlight := (out_inFlight flow)[i := e], out_unresolved := out_unresolved flow + 1, out_nextSeq := out_nextSeq flow + 1\<rparr>"
    using st nz by (auto simp: StampFlowPacket_def Let_def i_def e_def)
  have im: "i = ?n mod ?W" using ring_at_mod [OF F(2)] by (simp add: i_def)
  have il: "i < length (out_inFlight flow)" using im F(3,11) by simp
  have lt: "?n < ?b + ?W"
  proof (rule ccontr)
    assume "\<not> ?n < ?b + ?W"
    then have eq: "?n = ?b + ?W" using F(7) by simp
    then have "i = ?b mod ?W" "?b < ?n" using im F(11) by simp_all
    then have "ie_seq (out_inFlight flow ! i) = out_ackBase flow" using ring_rel_ids(1) [OF rel le_refl] by simp
    then show False using free F(5) by (simp add: i_def)
  qed
  have "unat (out_unresolved flow) \<le> ?W" using F(3,4) owed_bound [of flow] by (simp add: counted_def)
  then have "unat (out_unresolved flow + 1) = Suc (unat (out_unresolved flow))"
    using unat_u16_less [of "out_inflightCap flow"] by (subst unat_add_small) simp_all
  then have "counted flow'"
    using F(4) owed_update [OF il, of "\<lambda>_. 1" e] e(3) free by (simp add: counted_def f' outstanding_def i_def owed_def)
  moreover have "ring_ids flow' ! (s mod ?W) = (of_nat s, accepted ! (s - 1))" if s: "?b \<le> s" "s < Suc ?n" for s
  proof (cases "s = ?n")
    case True
    then show ?thesis using e slot(2) im il by (simp add: f' entry_ids_update)
  next
    case False
    then have "s mod ?W \<noteq> ?n mod ?W" using same_residue [of s ?W ?n] s lt by auto
    then show ?thesis using F(13) [of s] s False im by (simp add: f' entry_ids_update)
  qed
  moreover have "?b \<le> unat (fst (ring_ids flow' ! j)) \<and> unat (fst (ring_ids flow' ! j)) < Suc ?n \<and> unat (fst (ring_ids flow' ! j)) mod ?W = j"
    if j: "j < ?W" "fst (ring_ids flow' ! j) \<noteq> 0" for j
    using F(6) F(12) [of j] j e(1) im il by (cases "j = i") (auto simp: f' entry_ids_update)
  ultimately show ?thesis using F slot(1) lt n1 by (simp add: ring_rel_def f')
qed

lemma enqueue_rel:
  assumes rel: "wait_rel accepted flow" and room: "out_waitingCount flow < ucast (out_waitingCap flow)" and pos: "1 \<le> unat (out_nextSeq flow)"
  shows "wait_rel (accepted @ [slot]) (EnqueueWaiting slot w now flow)"
proof -
  let ?c = "unat (out_waitingCount flow)"
  have r: "?c < unat (out_waitingCap flow)" using room by (simp add: word_less_nat_alt unat_ucast_up)
  then obtain k where k: "k \<le> 15" "unat (out_waitingCap flow) = 2 ^ k" using rel by (auto simp: wait_rel_def)
  define i where "i = waiting_at (out_waitingHead flow + out_waitingCount flow) flow"
  have i: "i = waiting_at (out_waitingHead flow + of_nat ?c) flow" by (simp add: i_def)
  have "i = (unat (out_waitingHead flow) + ?c) mod 2 ^ k" unfolding i by (rule waiting_at_mod [OF k(2,1)])
  then have il: "i < length (out_waiting flow)" using rel k by (simp add: wait_rel_def)
  have c1: "unat (out_waitingCount flow + 1) = Suc ?c" using r unat_u16_less [of "out_waitingCap flow"] by (subst unat_add_small) simp_all
  let ?f = "EnqueueWaiting slot w now flow"
  have at: "waiting_at x ?f = waiting_at x flow" for x by (simp add: EnqueueWaiting_def waiting_at_def)
  have "we_packetSlot (out_waiting ?f ! waiting_at (out_waitingHead flow + of_nat j) flow) = (accepted @ [slot]) ! (unat (out_nextSeq flow) - 1 + j)"
    if j: "j < Suc ?c" for j
  proof (cases "j = ?c")
    case True
    have "unat (out_nextSeq flow) - 1 + ?c = length accepted" using rel pos by (auto simp: wait_rel_def)
    then show ?thesis using True il by (simp add: EnqueueWaiting_def i_def [symmetric] nth_append)
  next
    case False
    then have "waiting_at (out_waitingHead flow + of_nat j) flow \<noteq> i" using waiting_at_inj [OF k(2,1), of j ?c] j r k(2) i by auto
    moreover have "unat (out_nextSeq flow) - 1 + j < length accepted" using rel j False pos unfolding wait_rel_def by linarith
    ultimately show ?thesis using rel j False by (simp add: EnqueueWaiting_def i_def [symmetric] wait_rel_def nth_append)
  qed
  then show ?thesis using rel r c1 at by (simp add: wait_rel_def) (simp add: EnqueueWaiting_def)
qed

lemma drop_oldest_fields [simp]:
  "out_nextSeq (drop_oldest flow) = out_nextSeq flow" "out_inFlight (drop_oldest flow) = out_inFlight flow"
  "ring_at x (drop_oldest flow) = ring_at x flow"
  by (simp_all add: drop_oldest_def ring_at_def)

lemma ring_rel_waiting [simp]:
  "ring_rel reach accepted (drop_oldest flow) freed = ring_rel reach accepted flow freed"
  "ring_rel reach accepted (EnqueueWaiting slot w now flow) freed = ring_rel reach accepted flow freed"
  by (simp_all add: ring_rel_def drop_oldest_def EnqueueWaiting_def counted_def)

lemma claim_rel:
  assumes rel: "wait_rel accepted flow" and some: "0 < out_waitingCount flow" and pos: "1 \<le> unat (out_nextSeq flow)"
    and small: "length accepted < 4294967295" and st: "StampFlowPacket slot w flying now header (drop_oldest flow) peer data = (flow', peer', data')"
  shows "wait_rel accepted flow'" and "unat (out_nextSeq flow) \<le> length accepted"
    and "we_packetSlot (oldest_waiter flow) = accepted ! (unat (out_nextSeq flow) - 1)"
proof -
  let ?c = "unat (out_waitingCount flow)" and ?n = "unat (out_nextSeq flow)"
  have c: "0 < ?c" using some by (simp add: word_less_nat_alt)
  have r: "?n + ?c = Suc (length accepted)" "?c \<le> unat (out_waitingCap flow)" using rel by (simp_all add: wait_rel_def)
  then obtain k where k: "k \<le> 15" "unat (out_waitingCap flow) = 2 ^ k" using rel c by (auto simp: wait_rel_def)
  have at_waiting: "we_packetSlot (out_waiting flow ! waiting_at (out_waitingHead flow + of_nat j) flow) = accepted ! (?n - 1 + j)"
    if "j < ?c" for j using rel that unfolding wait_rel_def by blast
  show n: "?n \<le> length accepted" using r c by simp
  show "we_packetSlot (oldest_waiter flow) = accepted ! (?n - 1)"
    using at_waiting [OF c] by (simp add: oldest_waiter_def)
  have c1: "unat (out_waitingCount flow - 1) = ?c - 1" using c by (simp add: unat_sub_le word_le_nat_alt)
  have n1: "unat (out_nextSeq flow + 1) = Suc ?n" using n small by (subst unat_add_small) simp_all
  then have nz: "out_nextSeq flow + 1 \<noteq> 0" by (metis nat.distinct(1) unat_0)
  have f': "out_nextSeq flow' = out_nextSeq flow + 1" "out_waitingCount flow' = out_waitingCount flow - 1"
    "out_waitingHead flow' = out_waitingHead flow + 1" "out_waitingCap flow' = out_waitingCap flow"
    "out_waiting flow' = (out_waiting flow)[waiting_at (out_waitingHead flow) flow := no_waiter]"
    using st nz by (auto simp: StampFlowPacket_def Let_def drop_oldest_def)
  have at: "waiting_at x flow' = waiting_at x flow" for x using f'(4) by (simp add: waiting_at_def)
  have "we_packetSlot (out_waiting flow' ! waiting_at (out_waitingHead flow + 1 + of_nat j) flow) = accepted ! (?n + j)" if j: "j < ?c - 1" for j
  proof -
    have h: "out_waitingHead flow + 1 + of_nat j = out_waitingHead flow + of_nat (Suc j)" by simp
    have "waiting_at (out_waitingHead flow + of_nat (Suc j)) flow \<noteq> waiting_at (out_waitingHead flow + of_nat 0) flow"
    proof
      assume eq: "waiting_at (out_waitingHead flow + of_nat (Suc j)) flow = waiting_at (out_waitingHead flow + of_nat 0) flow"
      have "Suc j < 2 ^ k" "0 < (2 :: nat) ^ k" using j r(2) k(2) by simp_all
      from waiting_at_inj [OF k(2,1) this eq] show False by simp
    qed
    moreover have "we_packetSlot (out_waiting flow ! waiting_at (out_waitingHead flow + of_nat (Suc j)) flow) = accepted ! (?n - 1 + Suc j)"
      using j by (intro at_waiting) simp
    ultimately show ?thesis using pos unfolding f'(5) h by (simp del: of_nat_Suc)
  qed
  then show "wait_rel accepted flow'" using rel r c c1 n1 f' at by (simp add: wait_rel_def)
qed

section \<open>Every step\<close>

definition send_rel :: "nat \<Rightarrow> u32 list \<Rightarrow> OutAssociation \<Rightarrow> u32 list \<Rightarrow> bool" where
  "send_rel reach accepted flow freed \<longleftrightarrow> ring_rel reach accepted flow freed \<and> wait_rel accepted flow \<and> INVALID \<notin> set accepted"

definition send_ok :: "nat \<Rightarrow> send_op \<Rightarrow> bool" where
  "send_ok reach op = (case op of Offer _ slot _ _ _ _ _ \<Rightarrow> slot \<noteq> INVALID
     | Claim _ candidate _ _ _ \<Rightarrow> wc_mode candidate \<noteq> UNRELIABLE
     | AckIn _ _ cursor _ _ _ _ \<Rightarrow> unat cursor \<le> reach | _ \<Rightarrow> True)"

lemma send_rel_kept:
  assumes "send_rel reach accepted flow freed" and "kept flow flow'" shows "send_rel reach accepted flow' freed"
  using assms kept_ring kept_wait by (simp add: send_rel_def)

lemma offer_rel:
  assumes rel: "send_rel reach accepted flow freed" and slot: "slot \<noteq> INVALID" and small: "length accepted < 4294967294"
    and st: "AdmitOut (out_flowId flow) slot w flying now header flow peer data = (r, flow', peer', data', out)"
  shows "out = [] \<and> send_rel reach (if r = Sent \<or> r = Queued then accepted @ [slot] else accepted) flow' freed"
proof -
  have R: "ring_rel reach accepted flow freed" "wait_rel accepted flow" "INVALID \<notin> set accepted" using rel by (simp_all add: send_rel_def)
  have rel': "ring_rel reach (accepted @ [slot]) flow freed" by (rule ring_rel_more [OF R(1)])
  have m: "out_mode flow \<noteq> UNRELIABLE" using ring_rel_facts(1) [OF R(1)] by auto
  have pos: "1 \<le> unat (out_nextSeq flow)" using ring_rel_facts(5,6) [OF R(1)] by simp
  define room where "room \<longleftrightarrow> out_waitingCount flow = 0 \<and> CanSend w True peer flow"
  obtain paced p1 where pc: "(if room then PacingAllows now w peer else (False, peer)) = (paced, p1)"
    by (cases "if room then PacingAllows now w peer else (False, peer)")
  obtain f1 p2 d1 where sp: "StampFlowPacket slot w flying now header flow p1 data = (f1, p2, d1)"
    by (cases "StampFlowPacket slot w flying now header flow p1 data")
  have mf: "(out_mode flow = UNRELIABLE) = False" using m by simp
  have a: "AdmitOut (out_flowId flow) slot w flying now header flow peer data =
    (if out_life flow \<noteq> OPEN then (Dead, flow, peer, data, [])
     else if room \<and> paced then (Sent, f1, p2, d1, [])
     else if out_waitingCount flow < ucast (out_waitingCap flow) then (Queued, EnqueueWaiting slot w now flow, p1, data, [])
     else (Rejected, flow, p1, data, []))"
    unfolding AdmitOut_def Let_def mf
    by (simp only: not_False_eq_True room_def [symmetric] pc sp prod.case if_True if_False simp_thms)
  consider (dead) "out_life flow \<noteq> OPEN" | (sent) "out_life flow = OPEN" "room \<and> paced"
    | (queued) "out_life flow = OPEN" "\<not> (room \<and> paced)" "out_waitingCount flow < ucast (out_waitingCap flow)"
    | (rejected) "out_life flow = OPEN" "\<not> (room \<and> paced)" "\<not> out_waitingCount flow < ucast (out_waitingCap flow)" by blast
  then show ?thesis
  proof cases
    case dead
    then have "(r, flow', peer', data', out) = (Dead, flow, peer, data, [])" using st a by (simp only: if_True simp_thms)
    then show ?thesis using rel by simp
  next
    case rejected
    then have "(r, flow', peer', data', out) = (Rejected, flow, p1, data, [])" using st a by (simp only: if_False simp_thms)
    then show ?thesis using rel by simp
  next
    case sent
    then have "(r, flow', peer', data', out) = (Sent, f1, p2, d1, [])" using st a by (simp only: if_True if_False simp_thms)
    then have eq: "r = Sent" "flow' = f1" "out = []" by simp_all
    have free: "ie_seq (out_inFlight flow ! ring_at (out_nextSeq flow) flow) = 0" and c0: "out_waitingCount flow = 0"
      using sent(2) CanSend_free(1) [of w peer flow] by (simp_all add: room_def)
    have n: "unat (out_nextSeq flow) = Suc (length accepted)" using R(2) c0 by (simp add: wait_rel_def)
    have "ring_rel reach (accepted @ [slot]) flow' freed"
      using stamp_rel [OF rel' free _ _ _ sp] n small eq(2) by simp
    moreover have "unat (out_nextSeq flow + 1) = Suc (unat (out_nextSeq flow))" using n small by (subst unat_add_small) simp_all
    then have "out_nextSeq flow + 1 \<noteq> 0" by (metis nat.distinct(1) unat_0)
    then have "wait_rel (accepted @ [slot]) flow'"
      using R(2) c0 n sp eq(2) \<open>unat (out_nextSeq flow + 1) = _\<close> by (auto simp: wait_rel_def StampFlowPacket_def Let_def)
    ultimately show ?thesis using eq R(3) slot by (simp add: send_rel_def)
  next
    case queued
    then have "(r, flow', peer', data', out) = (Queued, EnqueueWaiting slot w now flow, p1, data, [])"
      using st a by (simp only: if_True if_False simp_thms)
    then have eq: "r = Queued" "flow' = EnqueueWaiting slot w now flow" "out = []" by simp_all
    then show ?thesis using enqueue_rel [OF R(2) queued(3) pos, of slot w now] rel' R(3) slot by (simp add: send_rel_def)
  qed
qed

lemma claim_step_rel:
  assumes rel: "send_rel reach accepted flow freed" and mode: "wc_mode candidate \<noteq> UNRELIABLE" and small: "length accepted < 4294967294"
    and st: "ClaimWaiting candidate now header flow peer data = (ok, flow', peer', data')"
  shows "send_rel reach accepted flow' freed"
proof -
  have R: "ring_rel reach accepted flow freed" "wait_rel accepted flow" "INVALID \<notin> set accepted" using rel by (simp_all add: send_rel_def)
  have m: "out_mode flow \<noteq> UNRELIABLE" using ring_rel_facts(1) [OF R(1)] by auto
  let ?w = "we_wireSize (oldest_waiter flow)" and ?slot = "wc_packetSlot candidate"
  define room where "room \<longleftrightarrow> out_epoch flow = wc_epoch candidate \<and> out_life flow = OPEN \<and> 0 < out_waitingCount flow
      \<and> we_packetSlot (oldest_waiter flow) = ?slot \<and> CanSend ?w True peer flow"
  obtain paced p where pc: "(if room then PacingAllows now ?w peer else (False, peer)) = (paced, p)"
    by (cases "if room then PacingAllows now ?w peer else (False, peer)")
  have mf: "(out_mode flow \<noteq> UNRELIABLE) = True" "(wc_mode candidate = UNRELIABLE) = False" using m mode by simp_all
  have a: "ClaimWaiting candidate now header flow peer data =
      (if room \<and> paced then (True, StampFlowPacket ?slot ?w True now header (drop_oldest flow) p data) else (False, flow, p, data))"
    unfolding ClaimWaiting_def Let_def mf by (simp only: room_def [symmetric] pc prod.case if_False)
  show ?thesis
  proof (cases "room \<and> paced")
    case False
    then have "flow' = flow" using st unfolding a by (auto split: if_splits)
    then show ?thesis using rel by simp
  next
    case True
    then have c: "0 < out_waitingCount flow" "we_packetSlot (oldest_waiter flow) = ?slot" "CanSend ?w True peer flow"
      "StampFlowPacket ?slot ?w True now header (drop_oldest flow) p data = (flow', peer', data')"
      using st unfolding a by (simp_all add: room_def)
    have "1 \<le> unat (out_nextSeq flow)" using ring_rel_facts(5,6) [OF R(1)] by simp
    moreover have small': "length accepted < 4294967295" using small by simp
    ultimately have C: "wait_rel accepted flow'" "unat (out_nextSeq flow) \<le> length accepted"
        "we_packetSlot (oldest_waiter flow) = accepted ! (unat (out_nextSeq flow) - 1)"
      using claim_rel [OF R(2) c(1) _ _ c(4)] by blast+
    have "ring_rel reach accepted flow' freed"
      using stamp_rel [OF _ _ _ _ small' c(4), of reach freed] R(1) CanSend_free(1) [OF c(3)] C(2,3) c(2) by simp
    then show ?thesis using C(1) R(3) by (simp add: send_rel_def)
  qed
qed

lemma ack_step_rel:
  assumes rel: "send_rel reach accepted flow freed" and cur: "unat cursor \<le> reach"
    and st: "ApplyAckRanges retry est (out_flowId flow) (out_flowEpoch flow) cursor delay ranges now (flow, delta, freed) = (flow', delta', freed')"
  shows "send_rel reach accepted flow' freed'"
proof -
  have R: "ring_rel reach accepted flow freed" "wait_rel accepted flow" "INVALID \<notin> set accepted" using rel by (simp_all add: send_rel_def)
  obtain largest sample f1 d1 fr1 where s1:
    "fold (ack_entry cursor ranges) [0..<unat (out_inflightCap flow)] ((None, None), flow, delta, freed) = ((largest, sample), f1, d1, fr1)"
    by (cases "fold (ack_entry cursor ranges) [0..<unat (out_inflightCap flow)] ((None, None), flow, delta, freed)") auto
  have k1: "kept flow f1" "fr1 = freed" using ack_fold [OF ring_rel_facts(1) [OF R(1)] _ s1] ring_rel_facts(3) [OF R(1)] by simp_all
  define d2 where "d2 = take_sample delay now sample d1"
  obtain f2 d3 where s2: "(case largest of None \<Rightarrow> (f1, d2)
    | Some l \<Rightarrow> DeclareLostBelow l now (LossDelayMicros retry est) (f1\<lparr>out_lastResolvedMicros := now\<rparr>, d2)) = (f2, d3)"
    by (cases "case largest of None \<Rightarrow> (f1, d2)
    | Some l \<Rightarrow> DeclareLostBelow l now (LossDelayMicros retry est) (f1\<lparr>out_lastResolvedMicros := now\<rparr>, d2)")
  have m: "kept f1 (f1\<lparr>out_lastResolvedMicros := now\<rparr>)" by (simp add: kept_def core_def counted_def)
  have "kept f1 f2"
  proof (cases largest)
    case None
    then show ?thesis using s2 by (simp add: kept_refl)
  next
    case (Some l)
    let ?d = "DeclareLostBelow l now (LossDelayMicros retry est) (f1\<lparr>out_lastResolvedMicros := now\<rparr>, d2)"
    have "kept (f1\<lparr>out_lastResolvedMicros := now\<rparr>) (fst ?d)" by (simp add: DeclareLostBelow_def kept_refl declare_fold)
    then show ?thesis using kept_trans [OF m] s2 Some by simp
  qed
  then have rel2: "send_rel reach accepted f2 freed" using send_rel_kept [OF send_rel_kept [OF rel k1(1)]] by simp
  obtain f3 fr3 where s3: "release_run (unat (out_inflightCap f2)) cursor (f2, freed) = (f3, fr3)"
    by (cases "release_run (unat (out_inflightCap f2)) cursor (f2, freed)")
  have "ApplyAckRanges retry est (out_flowId flow) (out_flowEpoch flow) cursor delay ranges now (flow, delta, freed) = (f3, d3, fr3)"
    unfolding ApplyAckRanges_def Let_def prod.case simp_thms if_True s1 k1(2) d2_def [symmetric] s2 ReleaseAckedRun_def s3 ..
  then have "release_run (unat (out_inflightCap f2)) cursor (f2, freed) = (flow', freed')" using st s3 by simp
  from release_run_rel [OF _ R(3) cur this] rel2 show ?thesis by (simp add: send_rel_def)
qed

lemma tick_step_rel:
  assumes rel: "send_rel reach accepted flow freed"
    and st: "RetransmitPass t now (peer, [], flow, delta, freed) = (dead, peer', resends, flow', delta', freed')"
  shows "send_rel reach accepted flow' freed'"
proof -
  have o: "IsOrdered (out_mode flow)" using rel ring_rel_facts(1) unfolding send_rel_def by blast
  have "kept flow flow' \<and> freed' = freed"
    using st retransmit_fold [OF o, of t _ now] by (auto simp: RetransmitPass_def RetransmitInflight_def kept_refl split: if_splits)
  then show ?thesis using send_rel_kept [OF rel] by simp
qed

lemma send_step_rel:
  assumes rel: "send_rel reach accepted flow freed" and ok: "send_ok reach op" and small: "length accepted < 4294967294"
    and st: "send_step (flow, accepted, freed) op = (flow', accepted', freed')"
  shows "send_rel reach accepted' flow' freed' \<and> length accepted' \<le> Suc (length accepted)"
proof (cases op)
  case (Offer peer slot w flying now header data)
  obtain r f p d out where a: "AdmitOut (out_flowId flow) slot w flying now header flow peer data = (r, f, p, d, out)"
    by (cases "AdmitOut (out_flowId flow) slot w flying now header flow peer data")
  have "slot \<noteq> INVALID" using ok by (simp add: Offer send_ok_def)
  from offer_rel [OF rel this small a] show ?thesis using st by (auto simp: Offer a)
next
  case (Claim peer candidate now header data)
  obtain r f p d where a: "ClaimWaiting candidate now header flow peer data = (r, f, p, d)"
    by (cases "ClaimWaiting candidate now header flow peer data")
  have "wc_mode candidate \<noteq> UNRELIABLE" using ok by (simp add: Claim send_ok_def)
  from claim_step_rel [OF rel this small a] show ?thesis using st by (auto simp: Claim a)
next
  case (AckIn retry est cursor delay ranges now delta)
  obtain f d fr where a: "ApplyAckRanges retry est (out_flowId flow) (out_flowEpoch flow) cursor delay ranges now (flow, delta, freed) = (f, d, fr)"
    by (cases "ApplyAckRanges retry est (out_flowId flow) (out_flowEpoch flow) cursor delay ranges now (flow, delta, freed)")
  have "unat cursor \<le> reach" using ok by (simp add: AckIn send_ok_def)
  from ack_step_rel [OF rel this a] show ?thesis using st by (simp add: AckIn a)
next
  case (Tick peer timers now)
  obtain dead p rs f d fr where a: "RetransmitPass timers now (peer, [], flow, no_delta, freed) = (dead, p, rs, f, d, fr)"
    by (cases "RetransmitPass timers now (peer, [], flow, no_delta, freed)") auto
  from tick_step_rel [OF rel a] show ?thesis using st by (simp add: Tick a)
next
  case (Refund seqs)
  then show ?thesis using st send_rel_kept [OF rel refund_kept] by auto
qed

definition send_run :: "send_op list \<Rightarrow> OutAssociation \<times> u32 list \<times> u32 list \<Rightarrow> OutAssociation \<times> u32 list \<times> u32 list" where
  "send_run ops st = fold (\<lambda>op st. send_step st op) ops st"

lemma send_run_rel:
  assumes "send_rel reach accepted flow freed" and "list_all (send_ok reach) ops" and "length accepted + length ops < 4294967295"
    and "send_run ops (flow, accepted, freed) = (flow', accepted', freed')"
  shows "send_rel reach accepted' flow' freed'"
  using assms
proof (induction ops arbitrary: flow accepted freed)
  case (Cons op ops)
  obtain f a fr where s: "send_step (flow, accepted, freed) op = (f, a, fr)" by (cases "send_step (flow, accepted, freed) op")
  have 1: "send_rel reach a f fr" "length a \<le> Suc (length accepted)"
    using send_step_rel [OF Cons.prems(1) _ _ s] Cons.prems(2,3) by simp_all
  have "send_run ops (f, a, fr) = (flow', accepted', freed')" using Cons.prems(4) s by (simp add: send_run_def)
  then show ?case using Cons.IH [OF 1(1)] Cons.prems(2,3) 1(2) by simp
qed (simp add: send_run_def)

lemma send_rel_fresh:
  assumes "IsOrdered mode" and "wcap = 0 \<or> (\<exists>k\<le>15. unat wcap = 2 ^ k)"
  shows "send_rel reach [] (ResetOutAssoc p pa pid fid mode ep (WindowFor mode) wcap now old) []"
proof -
  let ?f = "ResetOutAssoc p pa pid fid mode ep (WindowFor mode) wcap now old"
  have k: "\<exists>k\<le>15. unat (WindowFor mode) = 2 ^ k"
    by (cases "mode = RELIABLE_ORDERED_BULK") (auto simp: WindowFor_def intro: exI [of _ 10] exI [of _ 8])
  have "counted ?f" by (simp add: counted_def owed_def ResetOutAssoc_def no_entry_def outstanding_def sum_list_replicate)
  then have "ring_rel reach [] ?f []"
    using assms(1) k by (simp add: ring_rel_def ResetOutAssoc_def entry_ids_def no_entry_def)
  moreover have "wait_rel [] ?f" using assms(2) by (auto simp: wait_rel_def ResetOutAssoc_def)
  ultimately show ?thesis by (simp add: send_rel_def)
qed

text \<open>
  C4: A reliable ordered sender numbers what it accepts in order and forgets nothing early. From a fresh
  ordered association, over every sequence of offers, claims of waiting packets, retransmission
  passes, refunds and acknowledgements with arbitrary cursors and ranges: the \<open>n\<close>-th packet accepted carries sequence
  \<open>n\<close>; the copies released are a prefix of the packets accepted, each once and in order, and stop below
  the highest cursor any acknowledgement reported; every stamped packet from there on still sits in the ring
  with its copy; the rest wait in order; and the count the window is checked against is the number
  of packets outstanding, never above the window.\<close>

theorem sender_keeps_until_delivered:
  assumes "IsOrdered mode" and "wcap = 0 \<or> (\<exists>k\<le>15. unat wcap = 2 ^ k)"
    and "list_all (send_ok reach) ops" and "length ops < 4294967295"
    and "send_run ops (ResetOutAssoc p pa pid fid mode ep (WindowFor mode) wcap now old, [], []) = (flow, accepted, freed)"
  shows "freed = take (unat (out_ackBase flow) - 1) accepted \<and> unat (out_ackBase flow) \<le> max 1 reach
    \<and> (\<forall>s. unat (out_ackBase flow) \<le> s \<and> s < unat (out_nextSeq flow) \<longrightarrow>
         (let e = out_inFlight flow ! ring_at (of_nat s) flow in ie_seq e = of_nat s \<and> ie_packetSlot e = accepted ! (s - 1)))
    \<and> map (\<lambda>j. we_packetSlot (out_waiting flow ! waiting_at (out_waitingHead flow + of_nat j) flow)) [0..<unat (out_waitingCount flow)]
        = drop (unat (out_nextSeq flow) - 1) accepted
    \<and> unat (out_unresolved flow) = length (filter outstanding (out_inFlight flow))
    \<and> unat (out_unresolved flow) \<le> unat (out_inflightCap flow)"
proof -
  have "send_rel reach accepted flow freed"
    using send_run_rel [OF send_rel_fresh [OF assms(1,2)] assms(3) _ assms(5)] assms(4) by simp
  then have R: "ring_rel reach accepted flow freed" "wait_rel accepted flow" by (simp_all add: send_rel_def)
  note F = ring_rel_facts [OF R(1)]
  have "ie_seq (out_inFlight flow ! ring_at (of_nat s) flow) = of_nat s \<and> ie_packetSlot (out_inFlight flow ! ring_at (of_nat s) flow) = accepted ! (s - 1)"
    if "unat (out_ackBase flow) \<le> s" "s < unat (out_nextSeq flow)" for s
    using ring_rel_ids [OF R(1) that] ring_at_mod [OF F(2)] by simp
  moreover have "map (\<lambda>j. we_packetSlot (out_waiting flow ! waiting_at (out_waitingHead flow + of_nat j) flow)) [0..<unat (out_waitingCount flow)]
      = drop (unat (out_nextSeq flow) - 1) accepted"
    using R(2) F(5,6) by (intro nth_equalityI) (auto simp: wait_rel_def)
  moreover have "(\<Sum>e\<leftarrow>es. if outstanding e then 1 else 0) = length (filter outstanding es)" for es by (induction es) auto
  then have "owed (\<lambda>_. 1) flow = length (filter outstanding (out_inFlight flow))" unfolding owed_def .
  ultimately show ?thesis using F owed_bound [of flow] by (simp add: counted_def)
qed

definition example_peer :: SendPeer where
  "example_peer = \<lparr>congestionBudget = 12000, bytesInFlight = 0, outstandingToPeer = 0, slowStartThreshold = 0,
     slowStartQueueSinceMicros = 0, wMaxBytes = 0, congestionEpochMicros = 0, congestionEpoch = 0, starvedCandidateSinceMicros = 0,
     starvedSinceMicros = 0, starvedClearSinceMicros = 0, starvedExitedAtMicros = 0, starvedQueueCapMicros = 0, starvedMinRttMicros = 0,
     starvedEpisodes = 0, rtt = Rtt_Reset, delivery = Delivery_Reset, theirGrant = 0, pacingTokens = 0, pacingRefilledAt = 0\<rparr>"

definition blank_out :: OutAssociation where
  "blank_out = ResetOutAssoc 0 no_address [] 0 RELIABLE_ORDERED 0 0 0 0
     \<lparr>out_peerSlot = 0, out_peerAddr = no_address, out_peerId = [], out_flowSlot = 0, out_nextInFlow = 0, out_flowId = 0,
      out_mode = RELIABLE_ORDERED, out_flowEpoch = 0, out_epoch = 0, out_life = OPEN, out_emitting = False, out_nextSeq = 0,
      out_unresolved = 0, out_lastResolvedMicros = 0, out_ackBase = 0, out_inflightCap = 0, out_waitingCap = 0, out_waitingHead = 0,
      out_waitingCount = 0, out_openBatchUsed = 0, out_openBatchHeader = 0, out_openBatchCount = 0, out_openBatchFirstLen = 0,
      out_openBatchInFlight = False, out_inFlight = [], out_waiting = []\<rparr>"

definition example_sends :: "send_op list" where
  "example_sends = [Offer example_peer 40 100 True 5 0 (replicate 9 0), Offer example_peer 41 100 True 6 0 (replicate 9 0),
     Offer (example_peer\<lparr>congestionBudget := 0\<rparr>) 42 100 True 6 0 (replicate 9 0), Refund [1]]"

definition example_sent :: "OutAssociation \<times> u32 list \<times> u32 list" where
  "example_sent = send_run example_sends
     (ResetOutAssoc 1 no_address [] 7 RELIABLE_ORDERED 0 (WindowFor RELIABLE_ORDERED) 4 3 blank_out, [], [])"

lemma example_sent_counts:
  "out_ackBase (fst example_sent) = 1 \<and> out_nextSeq (fst example_sent) = 3 \<and> out_waitingCount (fst example_sent) = 1
   \<and> snd example_sent = ([40, 41, 42], [])"
  by code_simp

theorem sender_keeps_until_delivered_witness:
  "let flow = fst example_sent in
     ie_packetSlot (out_inFlight flow ! ring_at 2 flow) = 41 \<and> unat (out_unresolved flow) \<le> unat (out_inflightCap flow)
     \<and> we_packetSlot (out_waiting flow ! waiting_at (out_waitingHead flow) flow) = 42"
proof -
  obtain flow accepted freed where e: "example_sent = (flow, accepted, freed)" by (cases example_sent)
  have c: "out_ackBase flow = 1" "out_nextSeq flow = 3" "out_waitingCount flow = 1" "accepted = [40, 41, 42]"
    using example_sent_counts by (simp_all add: e)
  have ok: "list_all (send_ok 1) example_sends" by (simp add: example_sends_def send_ok_def)
  have k: "(4 :: u16) = 0 \<or> (\<exists>k\<le>15. unat (4 :: u16) = 2 ^ k)" by (intro disjI2 exI [of _ 2]) simp
  have len: "length example_sends < 4294967295" by (simp add: example_sends_def)
  note T = sender_keeps_until_delivered [OF _ k ok len e [unfolded example_sent_def]]
  have "unat (out_ackBase flow) = 1" "unat (out_nextSeq flow) = 3" using c by simp_all
  then have q: "\<forall>s. 1 \<le> s \<and> s < 3 \<longrightarrow> (let en = out_inFlight flow ! ring_at (of_nat s) flow in ie_packetSlot en = accepted ! (s - 1))"
    using T unfolding Let_def by simp
  have "ie_packetSlot (out_inFlight flow ! ring_at (of_nat 2) flow) = accepted ! 1" using q [THEN spec, of 2] by (simp add: Let_def)
  moreover have "[we_packetSlot (out_waiting flow ! waiting_at (out_waitingHead flow + of_nat 0) flow)] = drop 2 accepted"
    using T c by (simp add: upt_rec)
  ultimately show ?thesis using T c by (simp add: e)
qed

section \<open>What an acknowledgement resolves\<close>

definition named :: "u32 \<Rightarrow> AckRange list \<Rightarrow> InFlightEntry \<Rightarrow> bool" where
  "named cursor ranges e \<longleftrightarrow> ie_seq e < cursor \<or> SeqInRanges (ie_seq e) ranges"

definition resolved :: "u32 \<Rightarrow> AckRange list \<Rightarrow> (InFlightEntry \<Rightarrow> nat) \<Rightarrow> InFlightEntry list \<Rightarrow> nat" where
  "resolved cursor ranges g es = (\<Sum>e\<leftarrow>es. if outstanding e \<and> named cursor ranges e then g e else 0)"

lemma resolved_snoc:
  assumes "n < length es"
  shows "resolved cursor ranges g (take (Suc n) es) = resolved cursor ranges g (take n es) + (if outstanding (es ! n) \<and> named cursor ranges (es ! n) then g (es ! n) else 0)"
  using assms by (simp add: resolved_def take_Suc_conv_app_nth)

lemma resolved_bound: "resolved cursor ranges (\<lambda>e. unat (ie_wireSize e)) es \<le> length es * 65535"
proof (induction es)
  case (Cons e es)
  then show ?case using unat_u16_less [of "ie_wireSize e"] by (simp add: resolved_def)
qed (simp add: resolved_def)

lemma resolved_count: "resolved cursor ranges (\<lambda>_. 1) es \<le> length es"
  by (induction es) (auto simp: resolved_def)

text \<open>The scan over the first \<open>n\<close> entries.\<close>

definition scanned :: "u32 \<Rightarrow> AckRange list \<Rightarrow> InFlightEntry list \<Rightarrow> nat \<Rightarrow> OutAssociation \<Rightarrow> CongestionDelta \<Rightarrow> bool" where
  "scanned cursor ranges es n flow delta \<longleftrightarrow> length (out_inFlight flow) = length es \<and> drop n (out_inFlight flow) = drop n es
     \<and> unat (resolvedBytes delta) = resolved cursor ranges (\<lambda>e. unat (ie_wireSize e)) (take n es)
     \<and> unat (resolvedPackets delta) = resolved cursor ranges (\<lambda>_. 1) (take n es) \<and> ackedBytes delta = resolvedBytes delta
     \<and> (\<forall>e\<in>set (take n (out_inFlight flow)). outstanding e \<longrightarrow> \<not> named cursor ranges e)"

lemma scanned_step:
  assumes sc: "scanned cursor ranges es n flow delta" and n: "n < length es" and small: "length es \<le> 65535"
    and st: "ack_entry cursor ranges n (scan, flow, delta, freed) = (scan', flow', delta', freed')"
  shows "scanned cursor ranges es (Suc n) flow' delta'"
proof -
  have S: "length (out_inFlight flow) = length es" "drop n (out_inFlight flow) = drop n es"
    "\<forall>e\<in>set (take n (out_inFlight flow)). outstanding e \<longrightarrow> \<not> named cursor ranges e" using sc by (simp_all add: scanned_def)
  let ?e = "es ! n"
  have e: "out_inFlight flow ! n = ?e" using S(1,2) n by (metis Cons_nth_drop_Suc list.inject)
  have tk: "take (Suc n) (out_inFlight flow) = take n (out_inFlight flow) @ [?e]" using S(1) n e by (simp add: take_Suc_conv_app_nth)
  have dr: "drop (Suc n) (out_inFlight flow) = drop (Suc n) es" using S(2) by (metis Suc_eq_plus1 add.commute drop_drop)
  show ?thesis
  proof (cases "outstanding ?e \<and> named cursor ranges ?e")
    case False
    have "flow' = flow \<and> delta' = delta"
      using st False e by (auto simp: ack_entry_def Let_def ResolveOutEntry_def outstanding_def named_def split: if_splits)
    then show ?thesis using sc False n tk dr by (auto simp: scanned_def resolved_snoc)
  next
    case True
    define e' where "e' = (if IsOrdered (out_mode flow) then ?e\<lparr>ie_acked := True\<rparr>
      else ?e\<lparr>ie_seq := 0, ie_packetSlot := INVALID, ie_wireSize := 0, ie_acked := False\<rparr>)"
    have r: "out_inFlight flow' = (out_inFlight flow)[n := e']" "ackedBytes delta' = ackedBytes delta + ucast (ie_wireSize ?e)"
      "resolvedBytes delta' = resolvedBytes delta + ucast (ie_wireSize ?e)" "resolvedPackets delta' = resolvedPackets delta + 1"
      using st True e by (auto simp: ack_entry_def Let_def ResolveOutEntry_def outstanding_def named_def e'_def split: if_splits)
    have ne: "\<not> outstanding e'" by (simp add: e'_def outstanding_def)
    have w: "resolved cursor ranges (\<lambda>e. unat (ie_wireSize e)) (take n es) \<le> n * 65535" "resolved cursor ranges (\<lambda>_. 1) (take n es) \<le> n"
      using resolved_bound [of cursor ranges "take n es"] resolved_count [of cursor ranges "take n es"] n by simp_all
    have "unat (resolvedBytes delta') = unat (resolvedBytes delta) + unat (ie_wireSize ?e)"
      unfolding r(3) using sc w(1) n small unat_u16_less [of "ie_wireSize ?e"] by (subst unat_add_small) (simp_all add: scanned_def unat_ucast_up)
    moreover have "unat (resolvedPackets delta') = Suc (unat (resolvedPackets delta))"
      unfolding r(4) using sc w(2) n small by (subst unat_add_small) (simp_all add: scanned_def)
    moreover have "take (Suc n) (out_inFlight flow') = take n (out_inFlight flow) @ [e']" using S(1) n by (simp add: r(1) take_Suc_conv_app_nth)
    moreover have "drop (Suc n) (out_inFlight flow') = drop (Suc n) es" using dr by (simp add: r(1))
    ultimately show ?thesis using sc True n S ne r by (auto simp: scanned_def resolved_snoc)
  qed
qed

lemma scanned_fold:
  assumes "length (out_inFlight flow) \<le> 65535" and "n \<le> length (out_inFlight flow)"
    and "fold (ack_entry cursor ranges) [0..<n] (scan, flow, no_delta, freed) = (scan', flow', delta', freed')"
  shows "scanned cursor ranges (out_inFlight flow) n flow' delta'"
  using assms(2,3)
proof (induction n arbitrary: scan' flow' delta' freed')
  case 0
  then show ?case by (auto simp: scanned_def resolved_def no_delta_def)
next
  case (Suc n)
  obtain sc f d fr where p: "fold (ack_entry cursor ranges) [0..<n] (scan, flow, no_delta, freed) = (sc, f, d, fr)"
    by (cases "fold (ack_entry cursor ranges) [0..<n] (scan, flow, no_delta, freed)") auto
  have "ack_entry cursor ranges n (sc, f, d, fr) = (scan', flow', delta', freed')" using Suc.prems(2) p by simp
  from scanned_step [OF Suc.IH [OF _ p] _ assms(1) this] Suc.prems(1) show ?case by simp
qed

lemma ack_fold_cap:
  assumes "fold (ack_entry cursor ranges) is (scan, flow, delta, freed) = (scan', flow', delta', freed')"
  shows "out_inflightCap flow' = out_inflightCap flow"
  using assms
proof (induction "is" arbitrary: scan flow delta freed)
  case (Cons i "is")
  obtain sc f d fr where p: "ack_entry cursor ranges i (scan, flow, delta, freed) = (sc, f, d, fr)"
    by (cases "ack_entry cursor ranges i (scan, flow, delta, freed)") auto
  have "out_inflightCap f = out_inflightCap flow"
    using p by (auto simp: ack_entry_def ResolveOutEntry_def Let_def split: if_splits)
  then show ?case using Cons.IH [of sc f d fr] Cons.prems p by simp
qed simp

definition all_named_resolved :: "u32 \<Rightarrow> AckRange list \<Rightarrow> OutAssociation \<Rightarrow> bool" where
  "all_named_resolved cursor ranges flow \<longleftrightarrow> (\<forall>e\<in>set (out_inFlight flow). outstanding e \<longrightarrow> \<not> named cursor ranges e)"

lemma named_update:
  assumes "all_named_resolved cursor ranges flow" and "outstanding e \<Longrightarrow> \<not> named cursor ranges e"
  shows "all_named_resolved cursor ranges (flow\<lparr>out_inFlight := (out_inFlight flow)[i := e]\<rparr>)"
  using assms set_update_subset_insert [of "out_inFlight flow" i e] by (auto simp: all_named_resolved_def)

lemma declare_resolves_nothing:
  assumes "all_named_resolved cursor ranges flow" and "length (out_inFlight flow) = unat (out_inflightCap flow)"
    and "DeclareLostBelow l now delay (flow, delta) = (flow', delta')"
  shows "all_named_resolved cursor ranges flow' \<and> resolvedBytes delta' = resolvedBytes delta \<and> resolvedPackets delta' = resolvedPackets delta
    \<and> ackedBytes delta' = ackedBytes delta"
proof -
  let ?P = "\<lambda>(f, d :: CongestionDelta). all_named_resolved cursor ranges f \<and> length (out_inFlight f) = length (out_inFlight flow)
    \<and> resolvedBytes d = resolvedBytes delta \<and> resolvedPackets d = resolvedPackets delta \<and> ackedBytes d = ackedBytes delta"
  have "?P (fold (declare_lost l now delay) [0..<unat (out_inflightCap flow)] (flow, delta))"
  proof (rule fold_invariant [where Q = "\<lambda>i. i < length (out_inFlight flow)"])
    show "?P (flow, delta)" using assms(1) by simp
    fix i st
    assume i: "i < length (out_inFlight flow)" and P: "?P st"
    obtain f d where st: "st = (f, d)" by (cases st)
    let ?e = "out_inFlight f ! i"
    have "?e \<in> set (out_inFlight f)" using P i by (simp add: st)
    then have "outstanding (?e\<lparr>ie_lostByAck := True, ie_freeResend := True, ie_sentAtMicros := 0\<rparr>) \<Longrightarrow>
        \<not> named cursor ranges (?e\<lparr>ie_lostByAck := True, ie_freeResend := True, ie_sentAtMicros := 0\<rparr>)"
      using P by (auto simp: st all_named_resolved_def outstanding_def named_def)
    then show "?P (declare_lost l now delay i st)"
      using P named_update [of cursor ranges f] by (simp add: st declare_lost_def note_loss_def Let_def)
  qed (use assms(2) in simp)
  then show ?thesis using assms(1,3) by (auto simp: DeclareLostBelow_def split: if_splits)
qed

lemma release_run_named:
  assumes "all_named_resolved cursor ranges flow" and "release_run n next (flow, freed) = (flow', freed')"
  shows "all_named_resolved cursor ranges flow'"
  using assms
proof (induction n arbitrary: flow freed)
  case (Suc n)
  let ?i = "ring_at (out_ackBase flow) flow"
  let ?e = "out_inFlight flow ! ?i" and ?base = "if out_ackBase flow + 1 = 0 then 1 else out_ackBase flow + 1"
  let ?e' = "no_entry\<lparr>ie_congestionEpoch := ie_congestionEpoch ?e\<rparr>"
  have "all_named_resolved cursor ranges (flow\<lparr>out_inFlight := (out_inFlight flow)[?i := ?e']\<rparr>)"
    by (rule named_update [OF Suc.prems(1)]) (simp add: outstanding_def no_entry_def)
  then have a: "all_named_resolved cursor ranges (flow\<lparr>out_inFlight := (out_inFlight flow)[?i := ?e'], out_ackBase := ?base\<rparr>)"
    "all_named_resolved cursor ranges (flow\<lparr>out_ackBase := ?base\<rparr>)" using Suc.prems(1) by (simp_all add: all_named_resolved_def)
  show ?case
    using Suc.prems Suc.IH [OF a(1)] Suc.IH [OF a(2)] unfolding release_run.simps Let_def by (metis (no_types, lifting) Pair_inject)
qed simp

text \<open>
  C5: An acknowledgement gives back exactly what it names. For an association of any mode and an
  acknowledgement of its generation, the bytes and packets reported as resolved are those of the
  packets that were outstanding and are below the cursor or in a range, counted once each with no wrap;
  afterwards none of them is outstanding, so a repeated acknowledgement resolves nothing. An
  acknowledgement of another generation changes nothing at all.\<close>

theorem ack_resolves_exactly:
  assumes "length (out_inFlight flow) = unat (out_inflightCap flow)"
    and "ApplyAckRanges retryMicros est flowId flowEpoch cursor delay ranges now (flow, no_delta, freed) = (flow', delta', freed')"
  shows "if out_flowId flow = flowId \<and> out_flowEpoch flow = flowEpoch
    then unat (resolvedBytes delta') = resolved cursor ranges (\<lambda>e. unat (ie_wireSize e)) (out_inFlight flow)
      \<and> unat (resolvedPackets delta') = resolved cursor ranges (\<lambda>_. 1) (out_inFlight flow)
      \<and> ackedBytes delta' = resolvedBytes delta' \<and> all_named_resolved cursor ranges flow'
    else flow' = flow \<and> delta' = no_delta \<and> freed' = freed"
proof (cases "out_flowId flow = flowId \<and> out_flowEpoch flow = flowEpoch")
  case True
  have len: "length (out_inFlight flow) \<le> 65535" using assms(1) unat_u16_less [of "out_inflightCap flow"] by simp
  obtain largest sample f1 d1 fr1 where s1:
    "fold (ack_entry cursor ranges) [0..<unat (out_inflightCap flow)] ((None, None), flow, no_delta, freed) = ((largest, sample), f1, d1, fr1)"
    by (cases "fold (ack_entry cursor ranges) [0..<unat (out_inflightCap flow)] ((None, None), flow, no_delta, freed)") auto
  have sc: "scanned cursor ranges (out_inFlight flow) (length (out_inFlight flow)) f1 d1"
    using scanned_fold [OF len _ s1] assms(1) by simp
  have cap: "out_inflightCap f1 = out_inflightCap flow" using ack_fold_cap [OF s1] .
  define d2 where "d2 = take_sample delay now sample d1"
  have d2: "resolvedBytes d2 = resolvedBytes d1" "resolvedPackets d2 = resolvedPackets d1" "ackedBytes d2 = ackedBytes d1"
    by (auto simp: d2_def take_sample_def Let_def split: option.splits)
  obtain f2 d3 where s2: "(case largest of None \<Rightarrow> (f1, d2)
    | Some l \<Rightarrow> DeclareLostBelow l now (LossDelayMicros retryMicros est) (f1\<lparr>out_lastResolvedMicros := now\<rparr>, d2)) = (f2, d3)"
    by (cases "case largest of None \<Rightarrow> (f1, d2)
    | Some l \<Rightarrow> DeclareLostBelow l now (LossDelayMicros retryMicros est) (f1\<lparr>out_lastResolvedMicros := now\<rparr>, d2)")
  have n1: "all_named_resolved cursor ranges (f1\<lparr>out_lastResolvedMicros := now\<rparr>)" "all_named_resolved cursor ranges f1"
    using sc by (simp_all add: scanned_def all_named_resolved_def)
  have "length (out_inFlight f1) = unat (out_inflightCap f1)" using sc cap assms(1) by (simp add: scanned_def)
  then have n2: "all_named_resolved cursor ranges f2 \<and> resolvedBytes d3 = resolvedBytes d2 \<and> resolvedPackets d3 = resolvedPackets d2 \<and> ackedBytes d3 = ackedBytes d2"
    using s2 n1 declare_resolves_nothing [OF n1(1), of _ now _ d2 f2 d3] by (cases largest) auto
  obtain f3 fr3 where s3: "release_run (unat (out_inflightCap f2)) cursor (f2, fr1) = (f3, fr3)"
    by (cases "release_run (unat (out_inflightCap f2)) cursor (f2, fr1)")
  have "ApplyAckRanges retryMicros est flowId flowEpoch cursor delay ranges now (flow, no_delta, freed) = (f3, d3, fr3)"
    unfolding ApplyAckRanges_def Let_def prod.case True [THEN eqTrueI] if_True s1 d2_def [symmetric] s2 ReleaseAckedRun_def s3 ..
  then have "flow' = f3" "delta' = d3" using assms(2) by simp_all
  then show ?thesis using True n2 d2 sc release_run_named [OF _ s3] by (simp add: scanned_def)
next
  case False
  then show ?thesis using assms(2) by (auto simp: ApplyAckRanges_def)
qed

definition example_two :: OutAssociation where
  "example_two = (ResetOutAssoc 1 no_address [] 7 RELIABLE_UNORDERED 3 2 0 3 blank_out)\<lparr>out_nextSeq := 3, out_unresolved := 2,
     out_inFlight := [no_entry\<lparr>ie_seq := 2, ie_packetSlot := 41, ie_wireSize := 100, ie_sentAtMicros := 5\<rparr>,
                      no_entry\<lparr>ie_seq := 1, ie_packetSlot := 40, ie_wireSize := 50, ie_sentAtMicros := 4\<rparr>]\<rparr>"

theorem ack_resolves_exactly_witness:
  "let (flow, delta, freed) = ApplyAckRanges 1000 Rtt_Reset 7 3 0 0 [\<lparr>ar_first = 2, ar_last = 2\<rparr>] 9 (example_two, no_delta, [])
   in unat (resolvedBytes delta) = 100 \<and> unat (resolvedPackets delta) = 1 \<and> all_named_resolved 0 [\<lparr>ar_first = 2, ar_last = 2\<rparr>] flow"
proof -
  let ?rs = "[\<lparr>ar_first = 2, ar_last = 2\<rparr>]"
  obtain flow delta freed where a: "ApplyAckRanges 1000 Rtt_Reset 7 3 0 0 ?rs 9 (example_two, no_delta, []) = (flow, delta, freed)"
    by (cases "ApplyAckRanges 1000 Rtt_Reset 7 3 0 0 ?rs 9 (example_two, no_delta, [])")
  have x: "length (out_inFlight example_two) = unat (out_inflightCap example_two)" "out_flowId example_two = 7" "out_flowEpoch example_two = 3"
    by (simp_all add: example_two_def ResetOutAssoc_def)
  have r: "resolved 0 ?rs (\<lambda>e. unat (ie_wireSize e)) (out_inFlight example_two) = 100" "resolved 0 ?rs (\<lambda>_. 1) (out_inFlight example_two) = 1"
    by code_simp+
  show ?thesis using ack_resolves_exactly [OF x(1) a] x(2,3) r unfolding a prod.case Let_def by simp
qed

end
