(* ===== verification/Robin_Hood.thy ===== *)
theory Robin_Hood
  imports Flux_Prelude "HOL-Library.Multiset"
begin

text \<open>
  The open-addressed index of the peer table, the probing functions at the head of
  \<^verbatim>\<open>peer_table.cpp\<close>: lookup, Robin Hood insertion and backward-shift removal, over an array of
  buckets whose size is a power of two. The loops have no bound of their own, so they are
  partial functions whose value \<open>None\<close> is a loop that never ends; with one empty bucket they all
  return. A bucket whose hash is 0 is empty. The equality of keys is an argument, as in the
  source.
\<close>

unbundle bit_operations_syntax

section \<open>Definitions\<close>

record 'k IndexEntry =
  ix_hash :: u64
  ix_idx :: u32
  ix_key :: 'k

abbreviation (input) NPOS :: u32 where
  "NPOS \<equiv> 0xFFFFFFFF"

definition Dist :: "u64 \<Rightarrow> u32 \<Rightarrow> u32 \<Rightarrow> u32" where
  "Dist hash pos msk = (pos - (ucast hash AND msk)) AND msk"

partial_function (option) find_from ::
    "'k IndexEntry list \<Rightarrow> u32 \<Rightarrow> u64 \<Rightarrow> ('k IndexEntry \<Rightarrow> bool) \<Rightarrow> u32 \<Rightarrow> u32 \<Rightarrow> u32 option" where
  "find_from entries msk hash eq pos dist =
     (let e = entries ! unat pos
      in if ix_hash e = 0 then Some NPOS
         else if ix_hash e = hash \<and> eq e then Some pos
         else if Dist (ix_hash e) pos msk < dist then Some NPOS
         else find_from entries msk hash eq ((pos + 1) AND msk) (dist + 1))"

definition FindPos :: "'k IndexEntry list \<Rightarrow> u32 \<Rightarrow> u64 \<Rightarrow> ('k IndexEntry \<Rightarrow> bool) \<Rightarrow> u32 option" where
  "FindPos entries msk hash eq = find_from entries msk hash eq (ucast hash AND msk) 0"

partial_function (option) insert_from ::
    "'k IndexEntry list \<Rightarrow> u32 \<Rightarrow> 'k IndexEntry \<Rightarrow> u32 \<Rightarrow> u32 \<Rightarrow> 'k IndexEntry list option" where
  "insert_from entries msk carry pos dist =
     (let e = entries ! unat pos
      in if ix_hash e = 0 then Some (entries[unat pos := carry])
         else let entryDist = Dist (ix_hash e) pos msk
              in if entryDist < dist
                 then insert_from (entries[unat pos := carry]) msk e ((pos + 1) AND msk) (entryDist + 1)
                 else insert_from entries msk carry ((pos + 1) AND msk) (dist + 1))"

definition InsertEntry :: "'k IndexEntry list \<Rightarrow> u32 \<Rightarrow> u64 \<Rightarrow> u32 \<Rightarrow> 'k \<Rightarrow> 'k IndexEntry list option" where
  "InsertEntry entries msk hash slot key =
     insert_from entries msk \<lparr>ix_hash = hash, ix_idx = slot, ix_key = key\<rparr> (ucast hash AND msk) 0"

partial_function (option) RemoveEntryAt :: "'k IndexEntry list \<Rightarrow> u32 \<Rightarrow> u32 \<Rightarrow> 'k IndexEntry list option" where
  "RemoveEntryAt entries msk pos =
     (let nx = (pos + 1) AND msk; nextEntry = entries ! unat nx
      in if ix_hash nextEntry = 0 \<or> Dist (ix_hash nextEntry) nx msk = 0
         then Some (entries[unat pos := (entries ! unat pos)\<lparr>ix_hash := 0\<rparr>])
         else RemoveEntryAt (entries[unat pos := nextEntry]) msk nx)"

declare find_from.simps [code] insert_from.simps [code] RemoveEntryAt.simps [code]

text \<open>
  The siblings for the tag index, whose entries carry no key: the pair of tag and slot is what
  identifies an entry.
\<close>

type_synonym TagIndexEntry = "unit IndexEntry"

definition FindTagPos :: "TagIndexEntry list \<Rightarrow> u32 \<Rightarrow> u64 \<Rightarrow> u32 \<Rightarrow> u32 option" where
  "FindTagPos entries msk hash slot = FindPos entries msk hash (\<lambda>e. ix_idx e = slot)"

definition InsertTagEntry :: "TagIndexEntry list \<Rightarrow> u32 \<Rightarrow> u64 \<Rightarrow> u32 \<Rightarrow> TagIndexEntry list option" where
  "InsertTagEntry entries msk hash slot = InsertEntry entries msk hash slot ()"

definition RemoveTagEntryAt :: "TagIndexEntry list \<Rightarrow> u32 \<Rightarrow> u32 \<Rightarrow> TagIndexEntry list option" where
  "RemoveTagEntryAt = RemoveEntryAt"

section \<open>Distances on a ring of buckets\<close>

definition home :: "nat \<Rightarrow> u64 \<Rightarrow> nat" where
  "home N h = unat h mod N"

definition dst :: "nat \<Rightarrow> u64 \<Rightarrow> nat \<Rightarrow> nat" where
  "dst N h p = (p + (N - home N h)) mod N"

lemma dst_less: "0 < N \<Longrightarrow> dst N h p < N"
  by (simp add: dst_def)

lemma home_less: "0 < N \<Longrightarrow> home N h < N"
  by (simp add: home_def)

lemma dst_probe:
  assumes "0 < N" and "i < N" shows "dst N h ((home N h + i) mod N) = i"
proof -
  have "dst N h ((home N h + i) mod N) = (home N h + i + (N - home N h)) mod N"
    unfolding dst_def by (rule mod_add_left_eq)
  also have "home N h + i + (N - home N h) = i + N" using home_less [OF assms(1), of h] by simp
  finally show ?thesis using assms by simp
qed

lemma probe_dst:
  assumes "p < N" shows "(home N h + dst N h p) mod N = p"
proof -
  have "(home N h + dst N h p) mod N = (home N h + (p + (N - home N h))) mod N"
    unfolding dst_def by (rule mod_add_right_eq)
  also have "home N h + (p + (N - home N h)) = p + N" using home_less [of N h] assms by simp
  finally show ?thesis using assms by simp
qed

lemma dst_home: "0 < N \<Longrightarrow> dst N h (home N h) = 0"
  using dst_probe [of N 0 h] home_less [of N h] by simp

lemma dst_step:
  assumes "p < N" and "Suc (dst N h p) < N" shows "dst N h (Suc p mod N) = Suc (dst N h p)"
proof -
  have "Suc p mod N = (home N h + Suc (dst N h p)) mod N"
    using probe_dst [OF assms(1), of h] by (metis add_Suc_right mod_Suc_eq)
  then show ?thesis using dst_probe [of N "Suc (dst N h p)" h] assms by simp
qed

lemma dst_back:
  assumes "p < N" and "0 < dst N h (Suc p mod N)" shows "dst N h p = dst N h (Suc p mod N) - 1"
proof (cases "Suc (dst N h p) < N")
  case True
  then show ?thesis using dst_step [OF assms(1)] by simp
next
  case False
  then have N: "Suc (dst N h p) = N" using dst_less [of N h p] assms(1) by linarith
  have "Suc p mod N = (home N h + Suc (dst N h p)) mod N"
    using probe_dst [OF assms(1), of h] by (metis add_Suc_right mod_Suc_eq)
  then have "Suc p mod N = home N h" using N home_less [of N h] assms(1) by simp
  then show ?thesis using assms dst_home [of N h] by simp
qed

text \<open>The words the code computes are these numbers.\<close>

lemma unat_home:
  assumes "k \<le> 32" shows "unat (ucast (h :: u64) AND mask k :: u32) = home (2 ^ k) h"
proof -
  have "(2 :: nat) ^ k dvd 2 ^ 32" using assms by (rule le_imp_power_dvd)
  then show ?thesis by (simp add: unat_and_mask unat_ucast home_def mod_mod_cancel)
qed

lemma unat_Dist:
  assumes "k \<le> 32" and "unat pos < 2 ^ k"
  shows "unat (Dist h pos (mask k)) = dst (2 ^ k) h (unat pos)"
proof -
  let ?N = "2 ^ k :: nat" and ?x = "ucast h AND mask k :: u32"
  have x: "unat ?x = home ?N h"
    by (rule unat_home [OF assms(1)])
  have dvd: "?N dvd 4294967296" using le_imp_power_dvd [OF assms(1), of "2 :: nat"] by simp
  have "unat (Dist h pos (mask k)) = unat (pos - ?x) mod ?N" by (simp add: Dist_def unat_and_mask)
  also have "\<dots> = (unat pos + (4294967296 - home ?N h)) mod ?N"
  proof -
    have "unat (pos - ?x) = (if home ?N h \<le> unat pos then unat pos - home ?N h else unat pos + 4294967296 - home ?N h)"
      using x by (simp add: unat_sub_if_size word_size)
    then show ?thesis
    proof (cases "home ?N h \<le> unat pos")
      case True
      obtain c where c: "(4294967296 :: nat) = ?N * c" using dvd by (elim dvdE)
      have "home ?N h \<le> 4294967296" using home_less [of ?N h] dvd_imp_le [OF dvd] by simp
      then have "unat pos + (4294967296 - home ?N h) = unat pos - home ?N h + ?N * c" using True c by linarith
      then have "(unat pos + (4294967296 - home ?N h)) mod ?N = (unat pos - home ?N h) mod ?N" by (simp only: mod_mult_self2)
      then show ?thesis using \<open>unat (pos - ?x) = _\<close> True by (simp only: if_True)
    next
      case False
      have "home ?N h \<le> 4294967296" using home_less [of ?N h] dvd_imp_le [OF dvd] by simp
      then show ?thesis using \<open>unat (pos - ?x) = _\<close> False by simp
    qed
  qed
  also have "\<dots> = dst ?N h (unat pos)"
  proof -
    obtain c where c: "(4294967296 :: nat) = ?N * Suc c" using dvd
      by (metis dvd_def not0_implies_Suc mult_0_right zero_neq_numeral)
    have "home ?N h \<le> ?N" using home_less [of ?N h] by simp
    then have "unat pos + (4294967296 - home ?N h) = unat pos + (?N - home ?N h) + ?N * c" using c by simp
    then show ?thesis unfolding dst_def by (metis mod_mult_self2)
  qed
  finally show ?thesis .
qed

lemma unat_next_pos:
  assumes "k < 32" and "unat pos < 2 ^ k"
  shows "unat ((pos + 1) AND mask k :: u32) = Suc (unat pos) mod 2 ^ k"
proof -
  have "(2 :: nat) ^ k \<le> 2 ^ 31" using assms(1) by (intro power_increasing) simp_all
  then have "unat (pos + 1) = Suc (unat pos)" using assms(2) by (subst unat_add_small) simp_all
  then show ?thesis by (simp add: unat_and_mask)
qed

section \<open>The invariant of the buckets\<close>

abbreviation occ :: "'k IndexEntry list \<Rightarrow> nat \<Rightarrow> bool" where
  "occ t p \<equiv> ix_hash (t ! p) \<noteq> 0"

definition depth :: "'k IndexEntry list \<Rightarrow> nat \<Rightarrow> nat" where
  "depth t p = dst (length t) (ix_hash (t ! p)) p"

text \<open>
  An entry away from its home bucket follows an occupied bucket whose entry is displaced at most
  one step less.
\<close>

definition rh_inv :: "nat \<Rightarrow> 'k IndexEntry list \<Rightarrow> bool" where
  "rh_inv k t \<longleftrightarrow> 1 \<le> k \<and> k \<le> 30 \<and> length t = 2 ^ k
     \<and> (\<forall>p<2 ^ k. occ t (Suc p mod 2 ^ k) \<and> 0 < depth t (Suc p mod 2 ^ k)
          \<longrightarrow> occ t p \<and> depth t (Suc p mod 2 ^ k) \<le> Suc (depth t p))"

definition contents :: "'k IndexEntry list \<Rightarrow> 'k IndexEntry multiset" where
  "contents t = filter_mset (\<lambda>e. ix_hash e \<noteq> 0) (mset t)"

definition spare :: "'k IndexEntry list \<Rightarrow> bool" where
  "spare t \<longleftrightarrow> (\<exists>p<length t. \<not> occ t p)"

lemma rh_shape:
  assumes "rh_inv k t"
  shows "length t = 2 ^ k" "k < 32" "k \<le> 32" "1 < length t" "length t \<le> 2 ^ 30"
proof -
  show "length t = 2 ^ k" "k < 32" "k \<le> 32" using assms by (auto simp: rh_inv_def)
  have "1 \<le> k" "k \<le> 30" using assms by (auto simp: rh_inv_def)
  then have "(2 :: nat) ^ 1 \<le> 2 ^ k" "(2 :: nat) ^ k \<le> 2 ^ 30" by (intro power_increasing; simp)+
  then show "1 < length t" "length t \<le> 2 ^ 30" using \<open>length t = 2 ^ k\<close> by simp_all
qed

lemma rh_pair:
  assumes "rh_inv k t" and "p < length t" and "occ t (Suc p mod length t)" and "0 < depth t (Suc p mod length t)"
  shows "occ t p" "depth t (Suc p mod length t) \<le> Suc (depth t p)"
proof -
  have l: "length t = 2 ^ k"
    and a: "p < 2 ^ k \<Longrightarrow> occ t (Suc p mod 2 ^ k) \<and> 0 < depth t (Suc p mod 2 ^ k)
      \<Longrightarrow> occ t p \<and> depth t (Suc p mod 2 ^ k) \<le> Suc (depth t p)"
    using assms(1) unfolding rh_inv_def by blast+
  show "occ t p" "depth t (Suc p mod length t) \<le> Suc (depth t p)"
    using a assms(2-4) unfolding l by blast+
qed

lemma contents_update:
  assumes "p < length t"
  shows "contents (t[p := e]) =
    (if ix_hash e \<noteq> 0 then {#e#} else {#}) + (contents t - (if occ t p then {#t ! p#} else {#}))"
  using assms by (auto simp: contents_def mset_update filter_diff_mset)

lemma in_contents: "p < length t \<Longrightarrow> occ t p \<Longrightarrow> t ! p \<in># contents t"
  by (simp add: contents_def)

lemma contents_iff: "e \<in># contents t \<longleftrightarrow> (\<exists>p<length t. t ! p = e \<and> occ t p)"
  by (auto simp: contents_def in_set_conv_nth)

lemma spare_size: "spare t \<longleftrightarrow> size (contents t) < length t"
proof -
  have "size (contents t) = length (filter (\<lambda>e. ix_hash e \<noteq> 0) t)" by (simp add: contents_def flip: mset_filter)
  moreover have "length (filter (\<lambda>e. ix_hash e \<noteq> 0) t) < length t \<longleftrightarrow> (\<exists>e\<in>set t. ix_hash e = 0)"
    using length_filter_less [of _ t "\<lambda>e. ix_hash e \<noteq> 0"]
    by (metis (mono_tags, lifting) filter_True less_irrefl)
  moreover have "(\<exists>e\<in>set t. ix_hash e = 0) \<longleftrightarrow> spare t" unfolding spare_def by (metis in_set_conv_nth)
  ultimately show ?thesis by simp
qed

lemma depth_less: "rh_inv k t \<Longrightarrow> depth t p < length t"
  using rh_shape(4) [of k t] by (auto simp: depth_def intro!: dst_less)

text \<open>Every bucket between the home of an entry and the entry is occupied, by entries displaced no less.\<close>

lemma rh_chain:
  assumes rh: "rh_inv k t" and "D \<le> length t"
    and top: "0 < D \<Longrightarrow> occ t ((home (length t) h + (D - 1)) mod length t) \<and> D \<le> Suc (depth t ((home (length t) h + (D - 1)) mod length t))"
    and "i < D"
  shows "occ t ((home (length t) h + i) mod length t) \<and> i \<le> depth t ((home (length t) h + i) mod length t)"
proof -
  let ?N = "length t" and ?p = "\<lambda>i. (home (length t) h + i) mod length t"
  have "occ t (?p (D - Suc j)) \<and> D - Suc j \<le> depth t (?p (D - Suc j))" if "j < D" for j
    using that
  proof (induction j)
    case 0
    then show ?case using top by fastforce
  next
    case (Suc j)
    let ?q = "?p (D - Suc (Suc j))"
    have q: "?q < ?N" using rh_shape(4) [OF rh] by (intro mod_less_divisor) linarith
    have s: "Suc ?q mod ?N = ?p (D - Suc j)" using Suc.prems by (simp add: mod_Suc_eq Suc_diff_Suc)
    have "occ t (Suc ?q mod ?N)" "D - Suc j \<le> depth t (Suc ?q mod ?N)" using Suc s by simp_all
    then show ?case using rh_pair [OF rh q] Suc.prems by fastforce
  qed
  from this [of "D - Suc i"] show ?thesis using assms(4) by simp
qed

lemma entry_chain:
  assumes rh: "rh_inv k t" and "q < length t" and "occ t q" and "i \<le> depth t q"
  shows "occ t ((home (length t) (ix_hash (t ! q)) + i) mod length t)
       \<and> i \<le> depth t ((home (length t) (ix_hash (t ! q)) + i) mod length t)"
proof -
  let ?h = "ix_hash (t ! q)" and ?N = "length t"
  have q: "(home ?N ?h + depth t q) mod ?N = q" unfolding depth_def by (rule probe_dst [OF assms(2)])
  show ?thesis
  proof (cases "i = depth t q")
    case True
    then show ?thesis using q assms(3) by simp
  next
    case False
    let ?p = "(home ?N ?h + (depth t q - 1)) mod ?N"
    have p: "?p < ?N" using assms(2) by (intro mod_less_divisor) linarith
    have "Suc ?p mod ?N = q" if "0 < depth t q"
      using q that by (simp add: mod_Suc_eq)
    then have "0 < depth t q \<Longrightarrow> occ t ?p \<and> depth t q \<le> Suc (depth t ?p)"
      using rh_pair [OF rh p] assms(3) by simp
    then show ?thesis using rh_chain [OF rh _, of "depth t q" ?h i] depth_less [OF rh, of q] False assms(4) by simp
  qed
qed

section \<open>Lookup\<close>

text \<open>Where a probe for a hash stops: an empty bucket, a match, or an entry nearer to its home.\<close>

definition probe :: "nat \<Rightarrow> u64 \<Rightarrow> nat \<Rightarrow> nat" where
  "probe N h i = (home N h + i) mod N"

definition hit :: "'k IndexEntry list \<Rightarrow> u64 \<Rightarrow> ('k IndexEntry \<Rightarrow> bool) \<Rightarrow> nat \<Rightarrow> bool" where
  "hit t h eq p \<longleftrightarrow> ix_hash (t ! p) \<noteq> 0 \<and> ix_hash (t ! p) = h \<and> eq (t ! p)"

definition stops :: "'k IndexEntry list \<Rightarrow> u64 \<Rightarrow> ('k IndexEntry \<Rightarrow> bool) \<Rightarrow> nat \<Rightarrow> bool" where
  "stops t h eq i \<longleftrightarrow> (let p = probe (length t) h i in \<not> occ t p \<or> hit t h eq p \<or> depth t p < i)"

lemma find_run:
  assumes rh: "rh_inv k t" and "\<forall>j<n. \<not> stops t h eq (i + j)" and "stops t h eq (i + n)" and "i + n < length t"
    and "unat pos = probe (length t) h i" and "unat dist = i"
  shows "find_from t (mask k) h eq pos dist =
    Some (if hit t h eq (probe (length t) h (i + n)) then of_nat (probe (length t) h (i + n)) else NPOS)"
  using assms(2-6)
proof (induction n arbitrary: i pos dist)
  case 0
  note S = rh_shape [OF rh]
  have p: "unat pos < 2 ^ k" using 0(4) S(1,4) by (simp add: probe_def)
  have "unat (Dist (ix_hash (t ! unat pos)) pos (mask k)) = depth t (unat pos)"
    unfolding depth_def S(1) by (rule unat_Dist [OF S(3) p])
  then have d: "Dist (ix_hash (t ! unat pos)) pos (mask k) < dist \<longleftrightarrow> depth t (unat pos) < i"
    using 0(5) by (simp add: word_less_nat_alt)
  have "pos = of_nat (probe (length t) h i)" using 0(4) by (metis of_nat_unat ucast_id)
  then show ?case
    using 0(2,4) d by (subst find_from.simps) (auto simp: stops_def hit_def Let_def)
next
  case (Suc n)
  note S = rh_shape [OF rh]
  have p: "unat pos < 2 ^ k" using Suc.prems(4) S(1,4) by (simp add: probe_def)
  have "unat (Dist (ix_hash (t ! unat pos)) pos (mask k)) = depth t (unat pos)"
    unfolding depth_def S(1) by (rule unat_Dist [OF S(3) p])
  then have d: "Dist (ix_hash (t ! unat pos)) pos (mask k) < dist \<longleftrightarrow> depth t (unat pos) < i"
    using Suc.prems(5) by (simp add: word_less_nat_alt)
  have ns: "\<not> stops t h eq i" using Suc.prems(1) by force
  have step: "find_from t (mask k) h eq pos dist = find_from t (mask k) h eq ((pos + 1) AND mask k) (dist + 1)"
    using ns d Suc.prems(4) by (subst find_from.simps) (auto simp: stops_def hit_def Let_def)
  have pos': "unat ((pos + 1) AND mask k) = probe (length t) h (Suc i)"
    using unat_next_pos [OF S(2) p] Suc.prems(4) S(1) by (simp add: probe_def mod_Suc_eq)
  have dist': "unat (dist + 1) = Suc i"
    using Suc.prems(3,5) S(5) by (subst unat_add_small) simp_all
  show ?case
    using Suc.IH [OF _ _ _ pos' dist'] Suc.prems(1-3) unfolding step by force
qed

lemma first_stop:
  assumes rh: "rh_inv k t" and "spare t"
  obtains n where "n < length t" "stops t h eq n" "\<forall>j<n. \<not> stops t h eq j"
proof -
  obtain p where p: "p < length t" "\<not> occ t p" using assms(2) by (auto simp: spare_def)
  obtain i where i: "i < length t" "(home (length t) h + i) mod length t = p"
    using hops_reach_all [OF p(1)] by blast
  then have st: "stops t h eq i" using p(2) by (simp add: stops_def probe_def)
  then obtain n where n: "stops t h eq n" "\<forall>j<n. \<not> stops t h eq j"
    using exists_least_iff [of "stops t h eq"] by blast
  then have "n \<le> i" using st by (meson not_less)
  then show thesis using that [OF le_less_trans [OF _ i(1)] n] by simp
qed

text \<open>A lookup returns, and finds a matching entry exactly if the index holds one.\<close>

lemma FindPos_exact:
  assumes rh: "rh_inv k t" and "spare t"
  obtains r where "FindPos t (mask k) h eq = Some r"
    "r = NPOS \<Longrightarrow> (\<forall>q<length t. \<not> hit t h eq q)"
    "r \<noteq> NPOS \<Longrightarrow> unat r < length t \<and> hit t h eq (unat r)"
proof -
  note S = rh_shape [OF rh]
  obtain n where n: "n < length t" "stops t h eq n" "\<forall>j<n. \<not> stops t h eq j" by (rule first_stop [OF assms])
  let ?p = "probe (length t) h n"
  have r: "FindPos t (mask k) h eq = Some (if hit t h eq ?p then of_nat ?p else NPOS)"
    unfolding FindPos_def using find_run [OF rh, of n h eq 0] n unat_home [OF S(3), of h] S(1,4)
    by (simp add: probe_def home_less)
  have p: "?p < length t" using n(1) unfolding probe_def by (intro mod_less_divisor) linarith
  then have u: "unat (of_nat ?p :: u32) = ?p" using S(5) by (simp add: unat_of_nat)
  have none: "\<not> hit t h eq q" if "\<not> hit t h eq ?p" "q < length t" for q
  proof
    assume q: "hit t h eq q"
    then have qo: "occ t q" "ix_hash (t ! q) = h" unfolding hit_def by blast+
    have c: "occ t (probe (length t) h i) \<and> i \<le> depth t (probe (length t) h i)" if "i \<le> depth t q" for i
      using entry_chain [OF rh \<open>q < length t\<close> qo(1) that] qo(2) by (simp add: probe_def)
    have "probe (length t) h (depth t q) = q"
      using probe_dst [OF \<open>q < length t\<close>, of h] qo(2) by (simp add: probe_def depth_def)
    then have "stops t h eq (depth t q)" using q by (simp add: stops_def)
    then have "n \<le> depth t q" using n(3) by (meson not_less)
    then show False using c [of n] n(2) that(1) by (simp add: stops_def Let_def)
  qed
  show thesis
  proof (cases "hit t h eq ?p")
    case True
    have "(of_nat ?p :: u32) \<noteq> NPOS"
    proof
      assume "(of_nat ?p :: u32) = NPOS"
      then have "?p = 4294967295" using u by simp
      then show False using p S(5) by simp
    qed
    then show thesis using that [of "of_nat ?p"] r u p True by simp
  next
    case False
    then show thesis using that [of NPOS] r none by simp
  qed
qed

section \<open>Insertion\<close>

text \<open>
  What the loop keeps: the entry it carries is at the distance it counts, and the bucket before
  holds an entry displaced at most one step less.
\<close>

definition carried :: "'k IndexEntry list \<Rightarrow> 'k IndexEntry \<Rightarrow> nat \<Rightarrow> bool" where
  "carried t c p \<longleftrightarrow> ix_hash c \<noteq> 0 \<and> (\<forall>q<length t. Suc q mod length t = p \<and> 0 < dst (length t) (ix_hash c) p
     \<longrightarrow> occ t q \<and> dst (length t) (ix_hash c) p \<le> Suc (depth t q))"

lemma carried_pair:
  assumes "carried t c (Suc q mod length t)" and "q < length t" and "0 < dst (length t) (ix_hash c) (Suc q mod length t)"
  shows "occ t q" "dst (length t) (ix_hash c) (Suc q mod length t) \<le> Suc (depth t q)"
  using assms unfolding carried_def by blast+

lemma depth_update:
  "p < length t \<Longrightarrow> depth (t[p := c]) q = (if q = p then dst (length t) (ix_hash c) p else depth t q)"
  by (auto simp: depth_def)

lemma rh_place:
  assumes rh: "rh_inv k t" and "p < length t" and c: "carried t c p"
    and "occ t p \<Longrightarrow> depth t p < dst (length t) (ix_hash c) p"
  shows "rh_inv k (t[p := c])"
proof -
  note S = rh_shape [OF rh]
  have "occ (t[p := c]) q \<and> depth (t[p := c]) (Suc q mod 2 ^ k) \<le> Suc (depth (t[p := c]) q)"
    if q: "q < 2 ^ k" "occ (t[p := c]) (Suc q mod 2 ^ k)" "0 < depth (t[p := c]) (Suc q mod 2 ^ k)" for q
  proof -
    have ne: "Suc q mod 2 ^ k \<noteq> q" using q(1) S(1,4) by (cases "Suc q = 2 ^ k") auto
    consider (at) "Suc q mod 2 ^ k = p" | (after) "q = p" | (off) "Suc q mod 2 ^ k \<noteq> p" "q \<noteq> p" by blast
    then show ?thesis
    proof cases
      case at
      then have cp: "carried t c (Suc q mod length t)" "0 < dst (length t) (ix_hash c) (Suc q mod length t)"
        using c q(3) S(1) depth_update [OF assms(2), of c] by simp_all
      have "q < length t" using q(1) S(1) by simp
      note pair = carried_pair [OF cp(1) \<open>q < length t\<close> cp(2)]
      have sq: "Suc q mod length t = p" using at unfolding S(1) .
      have "q \<noteq> p" using at ne by simp
      then have "(t[p := c]) ! q = t ! q" "depth (t[p := c]) q = depth t q" "depth (t[p := c]) p = dst (length t) (ix_hash c) p"
        using depth_update [OF assms(2), of c] by simp_all
      then show ?thesis using pair unfolding at sq by (simp only: simp_thms)
    next
      case after
      then have "occ t (Suc q mod length t)" "0 < depth t (Suc q mod length t)"
        using q ne S(1) depth_update [OF assms(2), of c] by simp_all
      then have "occ t p" "depth t (Suc q mod length t) \<le> Suc (depth t p)"
        using rh_pair [OF rh assms(2)] after by simp_all
      moreover have "ix_hash c \<noteq> 0" using c by (simp add: carried_def)
      ultimately show ?thesis using after ne S(1) assms(2,4) depth_update [OF assms(2), of c] by simp
    next
      case off
      then have "occ t (Suc q mod length t)" "0 < depth t (Suc q mod length t)"
        using q S(1) depth_update [OF assms(2), of c] by simp_all
      then show ?thesis
        using rh_pair [OF rh, of q] q(1) S(1) off depth_update [OF assms(2), of c] by simp
    qed
  qed
  moreover have "1 \<le> k" "k \<le> 30" using rh unfolding rh_inv_def by blast+
  ultimately show ?thesis unfolding rh_inv_def length_list_update using S(1) by blast
qed

text \<open>While a bucket is empty, a carried entry can always be one step further from home.\<close>

lemma carried_room:
  assumes rh: "rh_inv k t" and "spare t" and "p < length t" and c: "carried t c p" and "occ t p"
  shows "Suc (dst (length t) (ix_hash c) p) < length t"
proof (rule ccontr)
  let ?N = "length t" and ?h = "ix_hash c"
  let ?D = "dst ?N ?h p"
  assume "\<not> ?thesis"
  then have D: "Suc ?D = ?N" using dst_less [of ?N ?h p] assms(3) by linarith
  have q: "(home ?N ?h + (?D - 1)) mod ?N < ?N" using assms(3) by (intro mod_less_divisor) linarith
  have p: "(home ?N ?h + ?D) mod ?N = p" by (rule probe_dst [OF assms(3)])
  then have "Suc ((home ?N ?h + (?D - 1)) mod ?N) mod ?N = p" if "0 < ?D" using that by (simp add: mod_Suc_eq)
  then have chain: "i < ?D \<Longrightarrow> occ t ((home ?N ?h + i) mod ?N)" for i
    using rh_chain [OF rh, of ?D ?h i] c q D by (auto simp: carried_def)
  obtain r where r: "r < ?N" "\<not> occ t r" using assms(2) by (auto simp: spare_def)
  obtain i where i: "i < ?N" "(home ?N ?h + i) mod ?N = r" using hops_reach_all [OF r(1)] by blast
  have "i = ?D" if "\<not> i < ?D" using that i(1) D by linarith
  then show False using chain [of i] p assms(5) r(2) i(2) by metis
qed

lemma carried_next:
  assumes "p < length t" and "1 < length t" and "occ t p" and "ix_hash c \<noteq> 0" and "Suc (dst (length t) (ix_hash c) p) < length t"
    and "dst (length t) (ix_hash c) p \<le> depth t p"
  shows "carried t c (Suc p mod length t)"
proof -
  have "q = p" if "q < length t" "Suc q mod length t = Suc p mod length t" for q
    using that assms(1) by (auto simp: mod_Suc split: if_splits)
  then show ?thesis using assms dst_step [OF assms(1,5)] by (auto simp: carried_def)
qed

lemma insert_run:
  assumes "rh_inv k t" and "carried t c (unat pos)" and "unat pos < length t"
    and "unat dist = dst (length t) (ix_hash c) (unat pos)"
    and "\<not> occ t ((unat pos + n) mod length t)"
  shows "\<exists>t'. insert_from t (mask k) c pos dist = Some t' \<and> rh_inv k t' \<and> contents t' = add_mset c (contents t)"
  using assms
proof (induction n arbitrary: t c pos dist)
  case 0
  then have e: "\<not> occ t (unat pos)" by simp
  have "rh_inv k (t[unat pos := c])" using rh_place [OF 0(1,3,2)] e by blast
  moreover have "contents (t[unat pos := c]) = add_mset c (contents t)"
    using contents_update [OF 0(3)] e 0(2) by (simp add: carried_def)
  ultimately show ?case using e by (subst insert_from.simps) (simp add: Let_def)
next
  case (Suc n)
  note S = rh_shape [OF Suc.prems(1)]
  let ?p = "unat pos" and ?e = "t ! unat pos"
  have p: "?p < 2 ^ k" using Suc.prems(3) S(1) by simp
  have pos': "unat ((pos + 1) AND mask k) = Suc ?p mod length t" using unat_next_pos [OF S(2) p] S(1) by simp
  have lt: "Suc ?p mod length t < length t" using S(4) by (intro mod_less_divisor) linarith
  have em: "(Suc ?p mod length t + n) mod length t = (?p + Suc n) mod length t" by (simp add: mod_simps)
  have sp: "spare t" using Suc.prems(5) S(4) unfolding spare_def by (intro exI [of _ "(?p + Suc n) mod length t"] conjI mod_less_divisor) auto
  show ?case
  proof (cases "occ t ?p")
    case False
    then show ?thesis
      using rh_place [OF Suc.prems(1,3,2)] contents_update [OF Suc.prems(3), of c] Suc.prems(2)
      by (subst insert_from.simps) (simp add: Let_def carried_def)
  next
    case True
    have D: "unat (Dist (ix_hash ?e) pos (mask k)) = depth t ?p" unfolding depth_def S(1) by (rule unat_Dist [OF S(3) p])
    have room: "Suc (dst (length t) (ix_hash c) ?p) < length t"
      by (rule carried_room [OF Suc.prems(1) sp Suc.prems(3,2) True])
    show ?thesis
    proof (cases "Dist (ix_hash ?e) pos (mask k) < dist")
      case swap: True
      let ?t = "t[?p := c]"
      have d: "depth t ?p < dst (length t) (ix_hash c) ?p" using swap D Suc.prems(4) by (simp add: word_less_nat_alt)
      have rh': "rh_inv k ?t" using rh_place [OF Suc.prems(1,3,2)] d by blast
      have c': "carried ?t ?e (Suc ?p mod length t)"
        using carried_next [of ?p ?t ?e] Suc.prems(2,3) S(4) True d room depth_update [OF Suc.prems(3), of c ?p]
        by (simp add: carried_def depth_def)
      have dist': "unat (Dist (ix_hash ?e) pos (mask k) + 1) = dst (length t) (ix_hash ?e) (Suc ?p mod length t)"
        using D d room S(5) dst_step [OF Suc.prems(3), of "ix_hash ?e"] by (subst unat_add_small) (simp_all add: depth_def)
      have ne: "(?p + Suc n) mod length t \<noteq> ?p" using Suc.prems(5) True by auto
      obtain t' where t': "insert_from ?t (mask k) ?e ((pos + 1) AND mask k) (Dist (ix_hash ?e) pos (mask k) + 1) = Some t'"
          "rh_inv k t'" "contents t' = add_mset ?e (contents ?t)"
        using Suc.IH [OF rh', of ?e "(pos + 1) AND mask k"] c' pos' lt dist' em Suc.prems(5) ne by auto
      have "add_mset ?e (contents ?t) = add_mset c (contents t)"
        using contents_update [OF Suc.prems(3), of c] in_contents [OF Suc.prems(3) True] True Suc.prems(2)
        by (simp add: carried_def)
      then show ?thesis using t' True swap by (subst insert_from.simps) (simp add: Let_def)
    next
      case stay: False
      have d: "dst (length t) (ix_hash c) ?p \<le> depth t ?p" using stay D Suc.prems(4) by (simp add: word_less_nat_alt)
      have c': "carried t c (Suc ?p mod length t)"
        using carried_next [OF Suc.prems(3) S(4) True _ room d] Suc.prems(2) by (simp add: carried_def)
      have dist': "unat (dist + 1) = dst (length t) (ix_hash c) (Suc ?p mod length t)"
        using Suc.prems(4) room S(5) dst_step [OF Suc.prems(3) room] by (subst unat_add_small) simp_all
      have "\<exists>t'. insert_from t (mask k) c ((pos + 1) AND mask k) (dist + 1) = Some t' \<and> rh_inv k t' \<and> contents t' = add_mset c (contents t)"
        by (rule Suc.IH) (use Suc.prems(1,5) c' pos' lt dist' em in simp_all)
      then show ?thesis using True stay by (subst insert_from.simps) (simp add: Let_def)
    qed
  qed
qed

text \<open>Insertion returns, keeps the invariant, and adds exactly the new entry.\<close>

lemma InsertEntry_exact:
  assumes rh: "rh_inv k t" and "spare t" and "h \<noteq> 0"
  obtains t' where "InsertEntry t (mask k) h slot key = Some t'" "rh_inv k t'"
    "contents t' = add_mset \<lparr>ix_hash = h, ix_idx = slot, ix_key = key\<rparr> (contents t)"
proof -
  note S = rh_shape [OF rh]
  let ?c = "\<lparr>ix_hash = h, ix_idx = slot, ix_key = key\<rparr>" and ?pos = "ucast h AND mask k :: u32"
  have pos: "unat ?pos = home (length t) h" using unat_home [OF S(3)] S(1) by simp
  have lt: "home (length t) h < length t" using S(4) by (intro home_less) linarith
  have d: "dst (length t) h (home (length t) h) = 0" using S(4) by (intro dst_home) linarith
  obtain r where r: "r < length t" "\<not> occ t r" using assms(2) by (auto simp: spare_def)
  obtain n where n: "(home (length t) h + n) mod length t = r" using hops_reach_all [OF r(1)] by blast
  have "\<exists>t'. insert_from t (mask k) ?c ?pos 0 = Some t' \<and> rh_inv k t' \<and> contents t' = add_mset ?c (contents t)"
    by (rule insert_run [OF rh, where n = n]) (use pos lt d r n assms(3) in \<open>simp_all add: carried_def\<close>)
  then show thesis using that unfolding InsertEntry_def by blast
qed

section \<open>Removal\<close>

lemma rh_shift:
  assumes rh: "rh_inv k t" and p: "p < length t" and "occ t (Suc p mod length t)" and "0 < depth t (Suc p mod length t)"
  shows "rh_inv k (t[p := t ! (Suc p mod length t)])"
proof -
  note S = rh_shape [OF rh]
  let ?n = "Suc p mod length t" and ?t = "t[p := t ! (Suc p mod length t)]"
  have nl: "?n < length t" using p by (intro mod_less_divisor) linarith
  have dp: "dst (length t) (ix_hash (t ! ?n)) p = depth t ?n - 1"
    unfolding depth_def by (rule dst_back [OF p]) (use assms(4) in \<open>simp add: depth_def\<close>)
  have up: "(t[p := t ! ?n]) ! q = (if q = p then t ! ?n else t ! q)" "depth ?t q = (if q = p then depth t ?n - 1 else depth t q)" for q
    using depth_update [OF p, of "t ! ?n" q] dp p by simp_all
  note pair = rh_pair [OF rh p assms(3,4)]
  have "occ ?t q \<and> depth ?t (Suc q mod 2 ^ k) \<le> Suc (depth ?t q)"
    if q: "q < 2 ^ k" "occ ?t (Suc q mod 2 ^ k)" "0 < depth ?t (Suc q mod 2 ^ k)" for q
  proof -
    have ql: "q < length t" "Suc q mod 2 ^ k = Suc q mod length t" using q(1) S(1) by simp_all
    have ne: "Suc q mod 2 ^ k \<noteq> q" using q(1) S(1,4) by (cases "Suc q = 2 ^ k") auto
    consider (at) "Suc q mod 2 ^ k = p" | (after) "q = p" | (off) "Suc q mod 2 ^ k \<noteq> p" "q \<noteq> p" by blast
    then show ?thesis
    proof cases
      case at
      then have qp: "q \<noteq> p" using ne by simp
      have "0 < depth t p" "Suc (depth t p) \<ge> depth t ?n" using q(3) pair(2) at up(2) [of p] by auto
      then have "occ t q \<and> depth t p \<le> Suc (depth t q)"
        using rh_pair [OF rh ql(1)] at ql(2) pair(1) by metis
      then show ?thesis using qp at up(1) [of q] up(2) [of q] up(2) [of p] pair(2) by auto
    next
      case after
      have "?n \<noteq> p" using after ne ql(2) by simp
      then show ?thesis using after ql(2) up(1) [of p] up(2) [of p] up(2) [of ?n] assms(3,4) by simp
    next
      case off
      then have "occ t q \<and> depth t (Suc q mod 2 ^ k) \<le> Suc (depth t q)"
        using rh_pair [OF rh ql(1)] q ql(2) up(1) [of "Suc q mod 2 ^ k"] up(2) [of "Suc q mod 2 ^ k"] by metis
      then show ?thesis using off up(1) [of q] up(2) [of q] up(2) [of "Suc q mod 2 ^ k"] by simp
    qed
  qed
  moreover have "1 \<le> k" "k \<le> 30" using rh unfolding rh_inv_def by blast+
  ultimately show ?thesis unfolding rh_inv_def length_list_update using S(1) by blast
qed

lemma rh_clear:
  assumes rh: "rh_inv k t" and p: "p < length t" and "occ t (Suc p mod length t) \<Longrightarrow> depth t (Suc p mod length t) = 0"
  shows "rh_inv k (t[p := (t ! p)\<lparr>ix_hash := 0\<rparr>])"
proof -
  note S = rh_shape [OF rh]
  let ?c = "(t ! p)\<lparr>ix_hash := 0\<rparr>"
  let ?t = "t[p := ?c]"
  have up: "?t ! q = (if q = p then ?c else t ! q)" "q \<noteq> p \<Longrightarrow> depth ?t q = depth t q" for q
    using depth_update [OF p, of ?c q] p by simp_all
  have "occ ?t q \<and> depth ?t (Suc q mod 2 ^ k) \<le> Suc (depth ?t q)"
    if q: "q < 2 ^ k" "occ ?t (Suc q mod 2 ^ k)" "0 < depth ?t (Suc q mod 2 ^ k)" for q
  proof -
    have ql: "q < length t" "Suc q mod 2 ^ k = Suc q mod length t" using q(1) S(1) by simp_all
    have np: "Suc q mod 2 ^ k \<noteq> p" using q(2) up(1) [of "Suc q mod 2 ^ k"] by auto
    then have o: "occ t (Suc q mod length t)" "0 < depth t (Suc q mod length t)" using q ql(2) up [of "Suc q mod 2 ^ k"] by simp_all
    then have "q \<noteq> p" using assms(3) by auto
    then show ?thesis using rh_pair [OF rh ql(1) o] ql(2) up [of q] up(2) [OF np] by simp
  qed
  moreover have "1 \<le> k" "k \<le> 30" using rh unfolding rh_inv_def by blast+
  ultimately show ?thesis unfolding rh_inv_def length_list_update using S(1) by blast
qed

text \<open>
  Besides what is kept and removed, where the entries are: a bucket that is occupied afterwards
  holds its old entry or the one of the next bucket, the latter only in the stretch from the hole
  to the next empty bucket.
\<close>

lemma remove_run:
  assumes "rh_inv k t" and "unat pos < length t" and "occ t (unat pos)" and "Suc n < length t"
    and "\<not> occ t ((unat pos + Suc n) mod length t)"
  shows "\<exists>t'. RemoveEntryAt t (mask k) pos = Some t' \<and> rh_inv k t' \<and> contents t' = contents t - {#t ! unat pos#}
    \<and> (\<forall>q<length t. occ t' q \<longrightarrow> t' ! q = t ! q \<or> (\<exists>j<n. q = (unat pos + j) mod length t \<and> t' ! q = t ! (Suc q mod length t)))"
  using assms
proof (induction n arbitrary: t pos)
  case 0
  note S = rh_shape [OF 0(1)]
  let ?p = "unat pos" and ?c = "(t ! unat pos)\<lparr>ix_hash := 0\<rparr>"
  have nx: "unat ((pos + 1) AND mask k) = Suc ?p mod length t" using unat_next_pos [OF S(2)] 0(2) S(1) by simp
  have e: "\<not> occ t (Suc ?p mod length t)" using 0(5) by simp
  have "RemoveEntryAt t (mask k) pos = Some (t[?p := ?c])"
    using e nx by (subst RemoveEntryAt.simps) (simp add: Let_def)
  moreover have "rh_inv k (t[?p := ?c])" using rh_clear [OF 0(1,2)] e by blast
  moreover have "contents (t[?p := ?c]) = contents t - {#t ! ?p#}" using contents_update [OF 0(2), of ?c] 0(3) by simp
  moreover have "(t[?p := ?c]) ! q = t ! q" if "occ (t[?p := ?c]) q" for q
    using that 0(2) by (cases "q = ?p") simp_all
  ultimately show ?case by blast
next
  case (Suc n)
  note S = rh_shape [OF Suc.prems(1)]
  let ?p = "unat pos" and ?c = "(t ! unat pos)\<lparr>ix_hash := 0\<rparr>" and ?n = "Suc (unat pos) mod length t" and ?nx = "(pos + 1) AND mask k"
  have nx: "unat ?nx = ?n" using unat_next_pos [OF S(2)] Suc.prems(2) S(1) by simp
  have nl: "?n < length t" using S(4) by (intro mod_less_divisor) linarith
  have D: "unat (Dist (ix_hash (t ! ?n)) ?nx (mask k)) = depth t ?n"
    unfolding depth_def S(1) using unat_Dist [OF S(3), of ?nx] nx nl S(1) by simp
  have keep: "(t[?p := ?c]) ! q = t ! q" if "occ (t[?p := ?c]) q" for q
    using that Suc.prems(2) by (cases "q = ?p") simp_all
  show ?case
  proof (cases "\<not> occ t ?n \<or> depth t ?n = 0")
    case True
    then have "ix_hash (t ! unat ?nx) = 0 \<or> Dist (ix_hash (t ! unat ?nx)) ?nx (mask k) = 0"
      unfolding nx using D by (metis unat_eq_zero)
    then have "RemoveEntryAt t (mask k) pos = Some (t[?p := ?c])" by (subst RemoveEntryAt.simps) (simp add: Let_def)
    moreover have "rh_inv k (t[?p := ?c])" using rh_clear [OF Suc.prems(1,2)] True by blast
    moreover have "contents (t[?p := ?c]) = contents t - {#t ! ?p#}"
      using contents_update [OF Suc.prems(2), of ?c] Suc.prems(3) by simp
    ultimately show ?thesis using keep by blast
  next
    case False
    then have o: "occ t ?n" "0 < depth t ?n" by simp_all
    let ?t = "t[?p := t ! ?n]"
    have "\<not> (ix_hash (t ! unat ?nx) = 0 \<or> Dist (ix_hash (t ! unat ?nx)) ?nx (mask k) = 0)"
      unfolding nx using D o by (metis less_irrefl unat_0)
    then have step: "RemoveEntryAt t (mask k) pos = RemoveEntryAt ?t (mask k) ?nx"
      by (subst RemoveEntryAt.simps) (simp add: Let_def nx)
    have np: "?n \<noteq> ?p" using Suc.prems(2) S(4) by (cases "Suc ?p = length t") auto
    have ep: "(?n + Suc n) mod length t = (?p + Suc (Suc n)) mod length t"
      using mod_add_left_eq [of "Suc ?p" "length t" "Suc n"] by simp
    have "\<not> occ ?t ((?n + Suc n) mod length t)"
      using Suc.prems(2,3,5) o(1) unfolding ep by (cases "(?p + Suc (Suc n)) mod length t = ?p") simp_all
    then obtain t' where t': "RemoveEntryAt ?t (mask k) ?nx = Some t'" "rh_inv k t'" "contents t' = contents ?t - {#t ! ?n#}"
      "\<forall>q<length t. occ t' q \<longrightarrow> t' ! q = ?t ! q \<or> (\<exists>j<n. q = (?n + j) mod length t \<and> t' ! q = ?t ! (Suc q mod length t))"
      using Suc.IH [OF rh_shift [OF Suc.prems(1,2) o], of ?nx] nx nl np o(1) Suc.prems(4) by auto
    have c: "contents t' = contents t - {#t ! ?p#}"
      using t'(3) contents_update [OF Suc.prems(2), of "t ! ?n"] o(1) Suc.prems(3) by simp
    have "t' ! q = t ! q \<or> (\<exists>j<Suc n. q = (?p + j) mod length t \<and> t' ! q = t ! (Suc q mod length t))"
      if q: "q < length t" "occ t' q" for q
    proof -
      consider "t' ! q = ?t ! q" | j where "j < n" "q = (?n + j) mod length t" "t' ! q = ?t ! (Suc q mod length t)"
        using t'(4) q by blast
      then show ?thesis
      proof cases
        case 1
        show ?thesis
        proof (cases "q = ?p")
          case True
          then have "t' ! q = t ! (Suc q mod length t)" "q = (?p + 0) mod length t" using 1 Suc.prems(2) by simp_all
          then show ?thesis by blast
        next
          case False
          then show ?thesis using 1 by simp
        qed
      next
        case 2
        have qj: "q = (?p + Suc j) mod length t" using 2(2) by (simp add: mod_simps)
        have "Suc q mod length t = (?p + Suc (Suc j)) mod length t" using qj by (simp add: mod_Suc_eq)
        moreover have "(?p + Suc (Suc j)) mod length t \<noteq> ?p"
        proof (cases "?p + Suc (Suc j) < length t")
          case False
          then have "(?p + Suc (Suc j)) mod length t = ?p + Suc (Suc j) - length t"
            using 2(1) Suc.prems(2,4) by (subst le_mod_geq) simp_all
          then show ?thesis using False 2(1) Suc.prems(4) by linarith
        qed simp
        ultimately have "t' ! q = t ! (Suc q mod length t)" using 2(3) by simp
        then show ?thesis using qj 2(1) by (intro disjI2 exI [of _ "Suc j"]) simp
      qed
    qed
    then show ?thesis using step t'(1,2) c by auto
  qed
qed

text \<open>Removal returns, keeps the invariant, removes exactly the entry, and moves no entry of a scanned prefix.\<close>

lemma RemoveEntryAt_exact:
  assumes rh: "rh_inv k t" and "spare t" and "unat pos < length t" and "occ t (unat pos)"
  obtains t' where "RemoveEntryAt t (mask k) pos = Some t'" "rh_inv k t'" "contents t' = contents t - {#t ! unat pos#}"
    "\<And>q. q < unat pos \<Longrightarrow> occ t' q \<Longrightarrow> \<exists>r<unat pos. t' ! q = t ! r"
proof -
  let ?p = "unat pos" and ?N = "length t"
  obtain r where r: "r < ?N" "\<not> occ t r" using assms(2) by (auto simp: spare_def)
  obtain m where m: "m < ?N" "(?p + m) mod ?N = r" using hops_reach_all [OF r(1)] by blast
  have "m \<noteq> 0" using m(2) assms(3,4) r(2) by (intro notI) simp
  then obtain n where n: "m = Suc n" by (cases m) auto
  obtain t' where t': "RemoveEntryAt t (mask k) pos = Some t'" "rh_inv k t'" "contents t' = contents t - {#t ! ?p#}"
    "\<forall>q<?N. occ t' q \<longrightarrow> t' ! q = t ! q \<or> (\<exists>j<n. q = (?p + j) mod ?N \<and> t' ! q = t ! (Suc q mod ?N))"
    using remove_run [OF rh assms(3,4), of n] m r(2) n by blast
  have "\<exists>r<?p. t' ! q = t ! r" if q: "q < ?p" "occ t' q" for q
  proof -
    consider "t' ! q = t ! q" | j where "j < n" "q = (?p + j) mod ?N" "t' ! q = t ! (Suc q mod ?N)"
      using t'(4) q assms(3) by (metis less_trans)
    then show ?thesis
    proof cases
      case 2
      have "?N \<le> ?p + j" using 2(2) q(1) by (metis add_leD1 less_irrefl linorder_le_less_linear mod_less not_add_less1 not_less)
      moreover have "?p + j < ?N + ?N" using assms(3) 2(1) m(1) n by linarith
      ultimately have "q = ?p + j - ?N" using 2(2) by (simp add: mod_if)
      then have "Suc q < ?p" using 2(1) m(1) n \<open>?N \<le> ?p + j\<close> by linarith
      then show ?thesis using 2(3) assms(3) by (intro exI [of _ "Suc q"]) simp
    qed (use q in blast)
  qed
  then show thesis using that t' by blast
qed

section \<open>An index as a finite map\<close>

text \<open>
  What a client of the index relies on: keys that compare equal are the same key, a valid key
  equals itself, and no hash is 0. Then the probing functions implement a finite map, as long as
  it is smaller than the array.
\<close>

locale keyed_index =
  fixes hashOf :: "'k \<Rightarrow> u64" and eq :: "'k \<Rightarrow> 'k \<Rightarrow> bool" and valid :: "'k \<Rightarrow> bool"
  assumes eq_same: "eq a b \<Longrightarrow> a = b" and eq_refl: "valid a \<Longrightarrow> eq a a" and hash_nonzero: "hashOf a \<noteq> 0"
begin

definition entry :: "('k \<rightharpoonup> u32) \<Rightarrow> 'k \<Rightarrow> 'k IndexEntry" where
  "entry m a = \<lparr>ix_hash = hashOf a, ix_idx = the (m a), ix_key = a\<rparr>"

definition index_rel :: "nat \<Rightarrow> 'k IndexEntry list \<Rightarrow> ('k \<rightharpoonup> u32) \<Rightarrow> bool" where
  "index_rel k t m \<longleftrightarrow> rh_inv k t \<and> finite (dom m) \<and> Ball (dom m) valid
     \<and> contents t = image_mset (entry m) (mset_set (dom m))"

lemma index_empty:
  assumes "1 \<le> k" and "k \<le> 30" and "\<forall>e\<in>set t. ix_hash e = 0" and "length t = 2 ^ k"
  shows "index_rel k t Map.empty"
proof -
  have "ix_hash (t ! (Suc p mod 2 ^ k)) = 0" for p
    using assms(3,4) by (metis mod_less_divisor nth_mem zero_less_numeral zero_less_power)
  then show ?thesis using assms by (auto simp: index_rel_def rh_inv_def contents_def)
qed

lemma index_spare:
  assumes "index_rel k t m" and "card (dom m) < 2 ^ k" shows "spare t"
  using assms rh_shape(1) [of k t] by (simp add: index_rel_def spare_size)

lemma in_index:
  assumes "index_rel k t m"
  shows "e \<in># contents t \<longleftrightarrow> (\<exists>a s. m a = Some s \<and> e = \<lparr>ix_hash = hashOf a, ix_idx = s, ix_key = a\<rparr>)"
  using assms by (force simp: index_rel_def entry_def dom_def)

lemma index_hit:
  assumes "index_rel k t m" and "q < length t"
  shows "hit t (hashOf a) (\<lambda>e. eq (ix_key e) a) q \<longleftrightarrow>
    (\<exists>s. m a = Some s \<and> t ! q = \<lparr>ix_hash = hashOf a, ix_idx = s, ix_key = a\<rparr>)"
proof
  assume h: "hit t (hashOf a) (\<lambda>e. eq (ix_key e) a) q"
  then have "t ! q \<in># contents t" "ix_key (t ! q) = a"
    using in_contents [OF assms(2)] eq_same unfolding hit_def by blast+
  then show "\<exists>s. m a = Some s \<and> t ! q = \<lparr>ix_hash = hashOf a, ix_idx = s, ix_key = a\<rparr>"
    using in_index [OF assms(1)] by auto
next
  assume "\<exists>s. m a = Some s \<and> t ! q = \<lparr>ix_hash = hashOf a, ix_idx = s, ix_key = a\<rparr>"
  moreover have "eq a a" if "m a = Some s" for s using eq_refl assms(1) that by (auto simp: index_rel_def)
  ultimately show "hit t (hashOf a) (\<lambda>e. eq (ix_key e) a) q" by (auto simp: hit_def hash_nonzero)
qed

lemma index_find:
  assumes "index_rel k t m" and "card (dom m) < 2 ^ k"
  obtains r where "FindPos t (mask k) (hashOf a) (\<lambda>e. eq (ix_key e) a) = Some r" "r = NPOS \<longleftrightarrow> m a = None"
    "r \<noteq> NPOS \<Longrightarrow> unat r < length t \<and> (\<exists>s. m a = Some s \<and> t ! unat r = \<lparr>ix_hash = hashOf a, ix_idx = s, ix_key = a\<rparr>)"
proof -
  have rh: "rh_inv k t" using assms(1) by (simp add: index_rel_def)
  obtain r where r: "FindPos t (mask k) (hashOf a) (\<lambda>e. eq (ix_key e) a) = Some r"
    "r = NPOS \<Longrightarrow> (\<forall>q<length t. \<not> hit t (hashOf a) (\<lambda>e. eq (ix_key e) a) q)"
    "r \<noteq> NPOS \<Longrightarrow> unat r < length t \<and> hit t (hashOf a) (\<lambda>e. eq (ix_key e) a) (unat r)"
    by (rule FindPos_exact [OF rh index_spare [OF assms], of "hashOf a" "\<lambda>e. eq (ix_key e) a"]) blast
  have "m a = None" if "r = NPOS"
  proof (rule ccontr)
    assume "m a \<noteq> None"
    then obtain s where s: "m a = Some s" by blast
    then obtain q where "q < length t" "t ! q = \<lparr>ix_hash = hashOf a, ix_idx = s, ix_key = a\<rparr>"
      using in_index [OF assms(1)] contents_iff [of _ t] by metis
    then show False using r(2) [OF that] index_hit [OF assms(1)] s by blast
  qed
  then show thesis using that r(1,3) index_hit [OF assms(1)] by (metis option.distinct(1))
qed

lemma index_insert:
  assumes "index_rel k t m" and "card (dom m) < 2 ^ k" and "m a = None" and "valid a"
  obtains t' where "InsertEntry t (mask k) (hashOf a) s a = Some t'" "index_rel k t' (m(a \<mapsto> s))"
proof -
  have rh: "rh_inv k t" "finite (dom m)" "Ball (dom m) valid" "contents t = image_mset (entry m) (mset_set (dom m))"
    using assms(1) by (simp_all add: index_rel_def)
  obtain t' where t': "InsertEntry t (mask k) (hashOf a) s a = Some t'" "rh_inv k t'"
    "contents t' = add_mset \<lparr>ix_hash = hashOf a, ix_idx = s, ix_key = a\<rparr> (contents t)"
    by (rule InsertEntry_exact [OF rh(1) index_spare [OF assms(1,2)] hash_nonzero])
  have na: "a \<notin> dom m" using assms(3) by auto
  then have "image_mset (entry (m(a \<mapsto> s))) (mset_set (dom m)) = image_mset (entry m) (mset_set (dom m))"
    by (intro image_mset_cong) (use rh(2) in \<open>auto simp: entry_def\<close>)
  then have "contents t' = image_mset (entry (m(a \<mapsto> s))) (mset_set (dom (m(a \<mapsto> s))))"
    using t'(3) rh(2,4) na by (simp add: entry_def)
  then show thesis using that t'(1,2) rh assms(4) by (simp add: index_rel_def)
qed

lemma index_remove:
  assumes "index_rel k t m" and "card (dom m) < 2 ^ k"
    and "unat r < length t" and "m a = Some s" and "t ! unat r = \<lparr>ix_hash = hashOf a, ix_idx = s, ix_key = a\<rparr>"
  obtains t' where "RemoveEntryAt t (mask k) r = Some t'" "index_rel k t' (m(a := None))"
proof -
  have rh: "rh_inv k t" "finite (dom m)" "Ball (dom m) valid" "contents t = image_mset (entry m) (mset_set (dom m))"
    using assms(1) by (simp_all add: index_rel_def)
  have o: "occ t (unat r)" using assms(5) hash_nonzero by simp
  obtain t' where t': "RemoveEntryAt t (mask k) r = Some t'" "rh_inv k t'" "contents t' = contents t - {#t ! unat r#}"
    by (rule RemoveEntryAt_exact [OF rh(1) index_spare [OF assms(1,2)] assms(3) o])
  have da: "a \<in> dom m" using assms(4) by auto
  have "image_mset (entry (m(a := None))) (mset_set (dom m - {a})) = image_mset (entry m) (mset_set (dom m - {a}))"
    by (intro image_mset_cong) (use rh(2) in \<open>auto simp: entry_def\<close>)
  moreover have "mset_set (dom m) = add_mset a (mset_set (dom m - {a}))"
    using rh(2) da by (metis mset_set.remove)
  moreover have "entry m a = t ! unat r" using assms(4,5) by (simp add: entry_def)
  ultimately have "contents t' = image_mset (entry (m(a := None))) (mset_set (dom (m(a := None))))"
    using t'(3) rh(4) by simp
  then show thesis using that t'(1,2) rh by (simp add: index_rel_def)
qed

end

section \<open>The tag index as a multiset of pairs\<close>

definition tag_rel :: "nat \<Rightarrow> TagIndexEntry list \<Rightarrow> (u64 \<times> u32) multiset \<Rightarrow> bool" where
  "tag_rel k t M \<longleftrightarrow> rh_inv k t \<and> contents t = image_mset (\<lambda>(h, s). \<lparr>ix_hash = h, ix_idx = s, ix_key = ()\<rparr>) M"

lemma tag_pairs: "tag_rel k t M \<Longrightarrow> M = image_mset (\<lambda>e. (ix_hash e, ix_idx e)) (contents t)"
  by (simp add: tag_rel_def image_mset.compositionality comp_def case_prod_beta)

lemma tag_rel_contents:
  assumes "rh_inv k t" shows "tag_rel k t (image_mset (\<lambda>e. (ix_hash e, ix_idx e)) (contents t))"
proof -
  have "(\<lambda>(h, s). \<lparr>ix_hash = h, ix_idx = s, ix_key = ()\<rparr>) \<circ> (\<lambda>e :: TagIndexEntry. (ix_hash e, ix_idx e)) = id"
  proof
    fix e :: TagIndexEntry
    show "((\<lambda>(h, s). \<lparr>ix_hash = h, ix_idx = s, ix_key = ()\<rparr>) \<circ> (\<lambda>e. (ix_hash e, ix_idx e))) e = id e" by (cases e) simp
  qed
  then show ?thesis using assms unfolding tag_rel_def image_mset.compositionality by simp
qed

lemma tag_spare:
  assumes "tag_rel k t M" and "size M < 2 ^ k" shows "spare t"
  using assms rh_shape(1) [of k t] by (simp add: tag_rel_def spare_size)

lemma tag_find:
  assumes "tag_rel k t M" and "size M < 2 ^ k" and "h \<noteq> 0"
  obtains r where "FindTagPos t (mask k) h slot = Some r" "r = NPOS \<longleftrightarrow> (h, slot) \<notin># M"
    "r \<noteq> NPOS \<Longrightarrow> unat r < length t \<and> t ! unat r = \<lparr>ix_hash = h, ix_idx = slot, ix_key = ()\<rparr>"
proof -
  have rh: "rh_inv k t" using assms(1) by (simp add: tag_rel_def)
  obtain r where r: "FindPos t (mask k) h (\<lambda>e. ix_idx e = slot) = Some r"
    "r = NPOS \<Longrightarrow> (\<forall>q<length t. \<not> hit t h (\<lambda>e. ix_idx e = slot) q)"
    "r \<noteq> NPOS \<Longrightarrow> unat r < length t \<and> hit t h (\<lambda>e. ix_idx e = slot) (unat r)"
    by (rule FindPos_exact [OF rh tag_spare [OF assms(1,2)], of h "\<lambda>e. ix_idx e = slot"]) blast
  have hit: "hit t h (\<lambda>e. ix_idx e = slot) q \<longleftrightarrow> t ! q = \<lparr>ix_hash = h, ix_idx = slot, ix_key = ()\<rparr>" for q
    using assms(3) by (cases "t ! q") (auto simp: hit_def)
  have M: "(h, slot) \<in># M \<longleftrightarrow> (\<exists>q<length t. t ! q = \<lparr>ix_hash = h, ix_idx = slot, ix_key = ()\<rparr>)"
  proof -
    have "(h, slot) \<in># M \<longleftrightarrow> (\<exists>e\<in>#contents t. ix_hash e = h \<and> ix_idx e = slot)"
      using tag_pairs [OF assms(1)] by force
    also have "\<dots> \<longleftrightarrow> \<lparr>ix_hash = h, ix_idx = slot, ix_key = ()\<rparr> \<in># contents t"
    proof -
      have "e = \<lparr>ix_hash = h, ix_idx = slot, ix_key = ()\<rparr>" if "ix_hash e = h" "ix_idx e = slot" for e :: TagIndexEntry
        using that by (cases e) simp
      then show ?thesis by (metis IndexEntry.select_convs(1,2))
    qed
    also have "\<dots> \<longleftrightarrow> (\<exists>q<length t. t ! q = \<lparr>ix_hash = h, ix_idx = slot, ix_key = ()\<rparr>)"
      using assms(3) by (auto simp: contents_iff)
    finally show ?thesis .
  qed
  show thesis
    by (rule that [of r]) (use r hit M in \<open>auto simp: FindTagPos_def\<close>)
qed

lemma tag_insert:
  assumes "tag_rel k t M" and "size M < 2 ^ k" and "h \<noteq> 0"
  obtains t' where "InsertTagEntry t (mask k) h slot = Some t'" "tag_rel k t' (add_mset (h, slot) M)"
proof -
  have rh: "rh_inv k t" using assms(1) by (simp add: tag_rel_def)
  obtain t' where "InsertEntry t (mask k) h slot () = Some t'" "rh_inv k t'"
    "contents t' = add_mset \<lparr>ix_hash = h, ix_idx = slot, ix_key = ()\<rparr> (contents t)"
    by (rule InsertEntry_exact [OF rh tag_spare [OF assms(1,2)] assms(3)])
  then show thesis using that assms(1) by (simp add: InsertTagEntry_def tag_rel_def)
qed

lemma tag_remove:
  assumes "tag_rel k t M" and "size M < 2 ^ k" and "unat pos < length t" and "occ t (unat pos)"
  obtains t' where "RemoveTagEntryAt t (mask k) pos = Some t'"
    "tag_rel k t' (M - {#(ix_hash (t ! unat pos), ix_idx (t ! unat pos))#})"
    "(ix_hash (t ! unat pos), ix_idx (t ! unat pos)) \<in># M"
    "\<And>q. q < unat pos \<Longrightarrow> occ t' q \<Longrightarrow> \<exists>r<unat pos. t' ! q = t ! r"
proof -
  have rh: "rh_inv k t" using assms(1) by (simp add: tag_rel_def)
  let ?e = "t ! unat pos"
  obtain t' where t': "RemoveEntryAt t (mask k) pos = Some t'" "rh_inv k t'" "contents t' = contents t - {#?e#}"
    "\<And>q. q < unat pos \<Longrightarrow> occ t' q \<Longrightarrow> \<exists>r<unat pos. t' ! q = t ! r"
    by (rule RemoveEntryAt_exact [OF rh tag_spare [OF assms(1,2)] assms(3,4)]) blast
  have e: "?e \<in># contents t" by (rule in_contents [OF assms(3,4)])
  have M: "M = image_mset (\<lambda>e. (ix_hash e, ix_idx e)) (contents t)" by (rule tag_pairs [OF assms(1)])
  have "image_mset (\<lambda>e. (ix_hash e, ix_idx e)) (contents t') = M - {#(ix_hash ?e, ix_idx ?e)#}"
    unfolding M t'(3) using e by (simp add: image_mset_Diff)
  then have "tag_rel k t' (M - {#(ix_hash ?e, ix_idx ?e)#})" using tag_rel_contents [OF t'(2)] by simp
  moreover have "(ix_hash ?e, ix_idx ?e) \<in># M" unfolding M using e by simp
  ultimately show thesis using that t'(1,4) by (simp add: RemoveTagEntryAt_def)
qed

end
