(* ===== verification/Peer_Table.thy ===== *)
theory Peer_Table
  imports Robin_Hood Slot_Pool Flow_Sender "HOL-Library.Monad_Syntax"
begin

text \<open>
  The peer table, \<^verbatim>\<open>peer_table.cpp\<close>: peers live in a slot pool, and three Robin Hood indexes map
  an address, an identity and a migration tag to the slot. This theory is the table as the writer
  runs it, under its lock, with the sequence counter that readers validate against; the
  interleaving of lock-free readers with a writer is in \<^verbatim>\<open>Peer_Lookup\<close>. An operation returns
  \<open>None\<close> when it would never return.

  The family numbers of the platform are an argument of the address hash, the clock and the stack
  address that picks a shard are arguments of the registration. Integers are read from memory in
  little-endian order. Slot locks taken and dropped within one operation are not modelled here.
\<close>

unbundle bit_operations_syntax

section \<open>Definitions\<close>

datatype HandshakeState = AWAITING_CHALLENGE | AWAITING_FINISH | ESTABLISHED

record Peer = SendPeer +
  pe_addr :: Address
  pe_id :: BcpId
  pe_theirPk :: bytes
  pe_session :: bytes
  pe_headerKey :: bytes
  pe_macKey :: bytes
  pe_sendCounter :: u64
  pe_myTagStep :: u32
  pe_theirTagStep :: u32
  pe_myTag :: bytes
  pe_pathAddr :: Address
  pe_pathChallenge :: bytes
  pe_pathStep :: u32
  pe_hsSalt :: bytes
  pe_announcedTag :: bytes
  pe_hsEphSecret :: bytes
  pe_hsPeerEph :: bytes
  pe_hsEphPub :: bytes
  pe_hsConfirm :: bytes
  pe_pendingHead :: u32
  pe_pendingTail :: u32
  pe_firstSeenAt :: u32
  pe_lastSeenAt :: u32
  pe_theirGrantGeneration :: u32
  pe_ourGrantGeneration :: u32
  pe_grantSendPending :: bool
  pe_grantSentAtMicros :: u64
  pe_state :: HandshakeState
  pe_attempts :: u8
  pe_hasId :: bool
  pe_authenticated :: bool
  pe_confirmed :: bool
  pe_emitting :: bool
  pe_freeWhenRead :: bool

definition IsValid :: "Peer \<Rightarrow> bool" where
  "IsValid p \<longleftrightarrow> pe_state p = ESTABLISHED"

definition SeenStamp :: "u64 \<Rightarrow> u32" where
  "SeenStamp micros = ucast (drop_bit 10 micros)"

definition zero_peer :: Peer where
  "zero_peer = \<lparr>congestionBudget = 0, bytesInFlight = 0, outstandingToPeer = 0,
     slowStartThreshold = 0, slowStartQueueSinceMicros = 0, wMaxBytes = 0,
     congestionEpochMicros = 0, congestionEpoch = 0, starvedCandidateSinceMicros = 0,
     starvedSinceMicros = 0, starvedClearSinceMicros = 0, starvedExitedAtMicros = 0,
     starvedQueueCapMicros = 0, starvedMinRttMicros = 0, starvedEpisodes = 0,
     rtt = Rtt_Reset, delivery = Delivery_Reset, theirGrant = 0, pacingTokens = 0, pacingRefilledAt = 0,
     pe_addr = no_address, pe_id = replicate 32 0, pe_theirPk = replicate 32 0, pe_session = replicate 32 0,
     pe_headerKey = replicate 32 0, pe_macKey = replicate 32 0, pe_sendCounter = 0, pe_myTagStep = 0,
     pe_theirTagStep = 0, pe_myTag = replicate 4 0, pe_pathAddr = no_address, pe_pathChallenge = replicate 16 0,
     pe_pathStep = 0, pe_hsSalt = replicate 16 0, pe_announcedTag = replicate 32 0,
     pe_hsEphSecret = replicate 32 0, pe_hsPeerEph = replicate 32 0, pe_hsEphPub = replicate 32 0,
     pe_hsConfirm = replicate 16 0, pe_pendingHead = 0, pe_pendingTail = 0,
     pe_firstSeenAt = 0, pe_lastSeenAt = 0, pe_theirGrantGeneration = 0,
     pe_ourGrantGeneration = 0, pe_grantSendPending = False, pe_grantSentAtMicros = 0,
     pe_state = AWAITING_CHALLENGE, pe_attempts = 0, pe_hasId = False, pe_authenticated = False,
     pe_confirmed = False, pe_emitting = False, pe_freeWhenRead = False\<rparr>"

definition fresh_peer :: "Address \<Rightarrow> BcpId option \<Rightarrow> u64 \<Rightarrow> Peer" where
  "fresh_peer addr pid now =
     \<lparr>congestionBudget = CC_INITIAL_WINDOW_BYTES, bytesInFlight = 0, outstandingToPeer = 0,
     slowStartThreshold = UINT32_MAX, slowStartQueueSinceMicros = 0, wMaxBytes = 0,
     congestionEpochMicros = 0, congestionEpoch = 0, starvedCandidateSinceMicros = 0,
     starvedSinceMicros = 0, starvedClearSinceMicros = 0, starvedExitedAtMicros = 0,
     starvedQueueCapMicros = 0, starvedMinRttMicros = 0, starvedEpisodes = 0,
     rtt = Rtt_Reset, delivery = Delivery_Reset, theirGrant = 0, pacingTokens = 0, pacingRefilledAt = 0,
     pe_addr = addr, pe_id = (case pid of None \<Rightarrow> replicate 32 0 | Some i \<Rightarrow> i),
     pe_theirPk = replicate 32 0, pe_session = replicate 32 0,
     pe_headerKey = replicate 32 0, pe_macKey = replicate 32 0, pe_sendCounter = 0, pe_myTagStep = 0,
     pe_theirTagStep = 0, pe_myTag = replicate 4 0, pe_pathAddr = no_address, pe_pathChallenge = replicate 16 0,
     pe_pathStep = 0, pe_hsSalt = replicate 16 0, pe_announcedTag = replicate 32 0,
     pe_hsEphSecret = replicate 32 0, pe_hsPeerEph = replicate 32 0, pe_hsEphPub = replicate 32 0,
     pe_hsConfirm = replicate 16 0, pe_pendingHead = INVALID, pe_pendingTail = INVALID,
     pe_firstSeenAt = SeenStamp now, pe_lastSeenAt = SeenStamp now, pe_theirGrantGeneration = 0,
     pe_ourGrantGeneration = 0, pe_grantSendPending = False, pe_grantSentAtMicros = 0,
     pe_state = AWAITING_CHALLENGE, pe_attempts = 0, pe_hasId = (pid \<noteq> None), pe_authenticated = False,
     pe_confirmed = False, pe_emitting = False, pe_freeWhenRead = False\<rparr>"

record PeerTable =
  pt_addrIdx :: "Address IndexEntry list"
  pt_bcpIdx :: "BcpId IndexEntry list"
  pt_idxCapacity :: u32
  pt_idxMask :: u32
  pt_tagIdx :: "TagIndexEntry list"
  pt_tagIdxCapacity :: u32
  pt_tagIdxMask :: u32
  pt_tagCapacity :: u32
  pt_tagCount :: u32
  pt_pool :: SlotPool
  pt_peers :: "Peer list"
  pt_peerCapacity :: u32
  pt_version :: u32
  pt_peerCount :: u32

abbreviation (input) MAX_LOAD_PERCENT :: "'a::numeral" where "MAX_LOAD_PERCENT \<equiv> 85"
abbreviation (input) MAX_TAGS_PER_PEER :: "'a::numeral" where "MAX_TAGS_PER_PEER \<equiv> 4"

definition le_word :: "bytes \<Rightarrow> u64" where
  "le_word bs = foldr (\<lambda>b h. push_bit 8 h OR ucast b) bs 0"

definition HashAddr :: "u16 \<times> u16 \<Rightarrow> Address \<Rightarrow> u64" where
  "HashAddr fam addr = (let h = Address_hash (fst fam) (snd fam) addr in if h \<noteq> 0 then h else 1)"

definition HashId :: "BcpId \<Rightarrow> u64" where
  "HashId pid = (let h = le_word (take 8 pid) in if h \<noteq> 0 then h else 1)"

definition HashTag :: "bytes \<Rightarrow> u64" where
  "HashTag tag = le_word tag"

definition empty_pool :: SlotPool where
  "empty_pool = \<lparr>sp_memory = 0, sp_stride = 0, sp_capacity = 0, sp_ring = [], sp_shards = [],
     sp_shardCount = 0, sp_shardMask = 0, sp_perCap = 0, sp_perMask = 0, sp_locks = []\<rparr>"

definition PeerTable_fresh :: PeerTable where
  "PeerTable_fresh = \<lparr>pt_addrIdx = [], pt_bcpIdx = [], pt_idxCapacity = 0, pt_idxMask = 0, pt_tagIdx = [],
     pt_tagIdxCapacity = 0, pt_tagIdxMask = 0, pt_tagCapacity = 0, pt_tagCount = 0, pt_pool = empty_pool,
     pt_peers = [], pt_peerCapacity = 0, pt_version = 0, pt_peerCount = 0\<rparr>"

definition PeerTable_Shutdown :: "PeerTable \<Rightarrow> PeerTable" where
  "PeerTable_Shutdown pt = pt\<lparr>pt_addrIdx := [], pt_bcpIdx := [], pt_tagIdx := [], pt_pool := SlotPool_Shutdown (pt_pool pt),
     pt_peers := [], pt_idxCapacity := 0, pt_idxMask := 0, pt_tagIdxCapacity := 0, pt_tagIdxMask := 0,
     pt_tagCapacity := 0, pt_tagCount := 0, pt_peerCapacity := 0, pt_version := 0, pt_peerCount := 0\<rparr>"

definition index_need :: "u64 \<Rightarrow> u64" where
  "index_need n = (n * 100 + MAX_LOAD_PERCENT - 1) div MAX_LOAD_PERCENT"

definition PeerTable_Init :: "u32 \<Rightarrow> u32 \<Rightarrow> PeerTable \<Rightarrow> Error \<times> PeerTable" where
  "PeerTable_Init stride capacity pt =
     (if capacity = 0 then (InvalidParam, pt)
      else let need = index_need (ucast capacity)
      in if 0x40000000 < need then (InvalidParam, pt)
      else let tagCapacity = ucast capacity * MAX_TAGS_PER_PEER; tagNeed = index_need tagCapacity
      in if 0x40000000 < tagNeed then (InvalidParam, pt)
      else let idxCapacity = NextPowerOfTwo (ucast need); tagIdxCapacity = NextPowerOfTwo (ucast tagNeed);
               pt = pt\<lparr>pt_idxCapacity := idxCapacity, pt_idxMask := idxCapacity - 1,
                       pt_tagIdxCapacity := tagIdxCapacity, pt_tagIdxMask := tagIdxCapacity - 1,
                       pt_tagCapacity := ucast tagCapacity,
                       pt_addrIdx := replicate (unat idxCapacity) \<lparr>ix_hash = 0, ix_idx = 0, ix_key = no_address\<rparr>,
                       pt_bcpIdx := replicate (unat idxCapacity) \<lparr>ix_hash = 0, ix_idx = 0, ix_key = replicate 32 0\<rparr>,
                       pt_tagIdx := replicate (unat tagIdxCapacity) \<lparr>ix_hash = 0, ix_idx = 0, ix_key = ()\<rparr>\<rparr>
           in case SlotPool_Init capacity stride of
                None \<Rightarrow> (AllocFailed, PeerTable_Shutdown pt)
              | Some pool \<Rightarrow> (Ok, pt\<lparr>pt_pool := pool, pt_peers := replicate (unat (sp_capacity pool)) zero_peer,
                                   pt_peerCapacity := capacity, pt_version := 0, pt_peerCount := 0\<rparr>))"

abbreviation peer_at :: "PeerTable \<Rightarrow> u32 \<Rightarrow> Peer" where
  "peer_at pt slot \<equiv> pt_peers pt ! unat slot"

definition find_addr :: "u16 \<times> u16 \<Rightarrow> PeerTable \<Rightarrow> Address \<Rightarrow> u32 option" where
  "find_addr fam pt addr = FindPos (pt_addrIdx pt) (pt_idxMask pt) (HashAddr fam addr) (\<lambda>e. Address_eq (ix_key e) addr)"

definition find_id :: "PeerTable \<Rightarrow> BcpId \<Rightarrow> u32 option" where
  "find_id pt pid = FindPos (pt_bcpIdx pt) (pt_idxMask pt) (HashId pid) (\<lambda>e. ix_key e = pid)"

definition RegisterPeer ::
    "u16 \<times> u16 \<Rightarrow> u64 \<Rightarrow> u64 \<Rightarrow> Address \<Rightarrow> BcpId option \<Rightarrow> PeerTable \<Rightarrow> ((Error \<times> u32) \<times> PeerTable) option" where
  "RegisterPeer fam now hint addr pid pt =
     (if pt_addrIdx pt = [] then Some ((NotInitialized, INVALID), pt)
      else if \<not> IsSet addr then Some ((InvalidParam, INVALID), pt)
      else if pt_peerCapacity pt \<le> pt_peerCount pt then Some ((LimitReached, INVALID), pt)
      else do {
        apos \<leftarrow> find_addr fam pt addr;
        if apos \<noteq> NPOS then Some ((AlreadyPending, INVALID), pt)
        else do {
          bpos \<leftarrow> (case pid of None \<Rightarrow> Some NPOS | Some i \<Rightarrow> find_id pt i);
          if bpos \<noteq> NPOS then Some ((AlreadyPending, INVALID), pt)
          else do {
            (slot, pool) \<leftarrow> SlotPool_Acquire hint (pt_pool pt);
            if slot = INVALID then Some ((LimitReached, INVALID), pt\<lparr>pt_pool := pool\<rparr>)
            else do {
              addrIdx \<leftarrow> InsertEntry (pt_addrIdx pt) (pt_idxMask pt) (HashAddr fam addr) slot addr;
              bcpIdx \<leftarrow> (case pid of None \<Rightarrow> Some (pt_bcpIdx pt)
                         | Some i \<Rightarrow> InsertEntry (pt_bcpIdx pt) (pt_idxMask pt) (HashId i) slot i);
              Some ((Ok, slot), pt\<lparr>pt_pool := pool, pt_peers := (pt_peers pt)[unat slot := fresh_peer addr pid now],
                pt_addrIdx := addrIdx, pt_bcpIdx := bcpIdx, pt_version := pt_version pt + 2,
                pt_peerCount := pt_peerCount pt + 1\<rparr>)
            }
          }
        }
      })"

definition BindId :: "u16 \<times> u16 \<Rightarrow> u32 \<Rightarrow> BcpId \<Rightarrow> PeerTable \<Rightarrow> (Error \<times> PeerTable) option" where
  "BindId fam slot pid pt =
     (if pt_addrIdx pt = [] then Some (NotInitialized, pt)
      else if sp_capacity (pt_pool pt) \<le> slot then Some (InvalidParam, pt)
      else let p = peer_at pt slot
      in do {
        apos \<leftarrow> find_addr fam pt (pe_addr p);
        if apos = NPOS \<or> ix_idx (pt_addrIdx pt ! unat apos) \<noteq> slot then Some (NotFound, pt)
        else if pe_hasId p then Some (AlreadyPending, pt)
        else do {
          bpos \<leftarrow> find_id pt pid;
          if bpos \<noteq> NPOS then Some (AlreadyPending, pt)
          else do {
            bcpIdx \<leftarrow> InsertEntry (pt_bcpIdx pt) (pt_idxMask pt) (HashId pid) slot pid;
            Some (Ok, pt\<lparr>pt_peers := (pt_peers pt)[unat slot := p\<lparr>pe_id := pid, pe_hasId := True\<rparr>],
              pt_bcpIdx := bcpIdx, pt_version := pt_version pt + 2\<rparr>)
          }
        }
      })"

partial_function (option) clear_at :: "u32 \<Rightarrow> u32 \<Rightarrow> u32 \<Rightarrow> TagIndexEntry list \<Rightarrow> u32 \<Rightarrow> (TagIndexEntry list \<times> u32) option" where
  "clear_at msk slot pos tagIdx tagCount =
     (if ix_hash (tagIdx ! unat pos) \<noteq> 0 \<and> ix_idx (tagIdx ! unat pos) = slot
      then do { tagIdx \<leftarrow> RemoveTagEntryAt tagIdx msk pos; clear_at msk slot pos tagIdx (tagCount - 1) }
      else Some (tagIdx, tagCount))"

declare clear_at.simps [code]

fun clear_buckets :: "u32 \<Rightarrow> u32 \<Rightarrow> nat list \<Rightarrow> TagIndexEntry list \<Rightarrow> u32 \<Rightarrow> (TagIndexEntry list \<times> u32) option" where
  "clear_buckets msk slot [] tagIdx tagCount = Some (tagIdx, tagCount)"
| "clear_buckets msk slot (pos # ps) tagIdx tagCount = do {
     (tagIdx, tagCount) \<leftarrow> clear_at msk slot (of_nat pos) tagIdx tagCount;
     clear_buckets msk slot ps tagIdx tagCount }"

definition ClearTagsLocked :: "u32 \<Rightarrow> PeerTable \<Rightarrow> PeerTable option" where
  "ClearTagsLocked slot pt =
     (if pt_tagIdx pt = [] then Some pt
      else do {
        (tagIdx, tagCount) \<leftarrow> clear_buckets (pt_tagIdxMask pt) slot [0..<unat (pt_tagIdxCapacity pt)] (pt_tagIdx pt) (pt_tagCount pt);
        Some (pt\<lparr>pt_tagIdx := tagIdx, pt_tagCount := tagCount\<rparr>) })"

definition DrainAndFree :: "u32 \<Rightarrow> PeerTable \<Rightarrow> PeerTable option" where
  "DrainAndFree slot pt =
     (let p = peer_at pt slot
      in if pe_emitting p
         then Some (pt\<lparr>pt_peers := (pt_peers pt)[unat slot := p\<lparr>pe_freeWhenRead := True\<rparr>]\<rparr>)
         else do { pool \<leftarrow> SlotPool_Release slot (pt_pool pt); Some (pt\<lparr>pt_pool := pool\<rparr>) })"

definition ClearEmitting :: "u32 \<Rightarrow> PeerTable \<Rightarrow> PeerTable option" where
  "ClearEmitting slot pt =
     (if sp_capacity (pt_pool pt) \<le> slot then Some pt
      else let p = peer_at pt slot;
               pt = pt\<lparr>pt_peers := (pt_peers pt)[unat slot := p\<lparr>pe_emitting := False, pe_freeWhenRead := False\<rparr>]\<rparr>
           in if pe_freeWhenRead p
              then do { pool \<leftarrow> SlotPool_Release slot (pt_pool pt); Some (pt\<lparr>pt_pool := pool\<rparr>) }
              else Some pt)"

definition RemovePeer_addr :: "u16 \<times> u16 \<Rightarrow> Address \<Rightarrow> PeerTable \<Rightarrow> (Error \<times> PeerTable) option" where
  "RemovePeer_addr fam addr pt =
     (if pt_addrIdx pt = [] then Some (NotInitialized, pt)
      else do {
        apos \<leftarrow> find_addr fam pt addr;
        if apos = NPOS then Some (NotFound, pt)
        else let slot = ix_idx (pt_addrIdx pt ! unat apos); p = peer_at pt slot
        in do {
          bpos \<leftarrow> (if pe_hasId p then find_id pt (pe_id p) else Some NPOS);
          addrIdx \<leftarrow> RemoveEntryAt (pt_addrIdx pt) (pt_idxMask pt) apos;
          bcpIdx \<leftarrow> (if bpos \<noteq> NPOS then RemoveEntryAt (pt_bcpIdx pt) (pt_idxMask pt) bpos else Some (pt_bcpIdx pt));
          pt \<leftarrow> ClearTagsLocked slot (pt\<lparr>pt_addrIdx := addrIdx, pt_bcpIdx := bcpIdx\<rparr>);
          pt \<leftarrow> DrainAndFree slot (pt\<lparr>pt_version := pt_version pt + 2, pt_peerCount := pt_peerCount pt - 1\<rparr>);
          Some (Ok, pt)
        }
      })"

definition RemovePeer_id :: "u16 \<times> u16 \<Rightarrow> BcpId \<Rightarrow> PeerTable \<Rightarrow> (Error \<times> PeerTable) option" where
  "RemovePeer_id fam pid pt =
     (if pt_addrIdx pt = [] then Some (NotInitialized, pt)
      else do {
        bpos \<leftarrow> find_id pt pid;
        if bpos = NPOS then Some (NotFound, pt)
        else let slot = ix_idx (pt_bcpIdx pt ! unat bpos)
        in do {
          apos \<leftarrow> find_addr fam pt (pe_addr (peer_at pt slot));
          addrIdx \<leftarrow> (if apos \<noteq> NPOS then RemoveEntryAt (pt_addrIdx pt) (pt_idxMask pt) apos else Some (pt_addrIdx pt));
          bcpIdx \<leftarrow> RemoveEntryAt (pt_bcpIdx pt) (pt_idxMask pt) bpos;
          pt \<leftarrow> ClearTagsLocked slot (pt\<lparr>pt_addrIdx := addrIdx, pt_bcpIdx := bcpIdx\<rparr>);
          pt \<leftarrow> DrainAndFree slot (pt\<lparr>pt_version := pt_version pt + 2, pt_peerCount := pt_peerCount pt - 1\<rparr>);
          Some (Ok, pt)
        }
      })"

definition UpdateAddress :: "u16 \<times> u16 \<Rightarrow> u32 \<Rightarrow> Address \<Rightarrow> PeerTable \<Rightarrow> (Error \<times> PeerTable) option" where
  "UpdateAddress fam slot newAddr pt =
     (if pt_addrIdx pt = [] then Some (NotInitialized, pt)
      else if sp_capacity (pt_pool pt) \<le> slot \<or> \<not> IsSet newAddr then Some (InvalidParam, pt)
      else let p = peer_at pt slot
      in do {
        apos \<leftarrow> find_addr fam pt (pe_addr p);
        if apos = NPOS \<or> ix_idx (pt_addrIdx pt ! unat apos) \<noteq> slot then Some (NotFound, pt)
        else if Address_eq newAddr (pe_addr p) then Some (Ok, pt)
        else do {
          npos \<leftarrow> find_addr fam pt newAddr;
          if npos \<noteq> NPOS then Some (AlreadyPending, pt)
          else do {
            addrIdx \<leftarrow> RemoveEntryAt (pt_addrIdx pt) (pt_idxMask pt) apos;
            addrIdx \<leftarrow> InsertEntry addrIdx (pt_idxMask pt) (HashAddr fam newAddr) slot newAddr;
            Some (Ok, pt\<lparr>pt_peers := (pt_peers pt)[unat slot := p\<lparr>pe_addr := newAddr\<rparr>],
              pt_addrIdx := addrIdx, pt_version := pt_version pt + 2\<rparr>)
          }
        }
      })"

definition BindTag :: "u16 \<times> u16 \<Rightarrow> u32 \<Rightarrow> bytes \<Rightarrow> PeerTable \<Rightarrow> (Error \<times> PeerTable) option" where
  "BindTag fam slot tag pt =
     (if pt_addrIdx pt = [] then Some (NotInitialized, pt)
      else if sp_capacity (pt_pool pt) \<le> slot then Some (InvalidParam, pt)
      else let th = HashTag tag
      in if th = 0 then Some (InvalidParam, pt)
      else if pt_tagCapacity pt \<le> pt_tagCount pt then Some (LimitReached, pt)
      else do {
        apos \<leftarrow> find_addr fam pt (pe_addr (peer_at pt slot));
        if apos = NPOS \<or> ix_idx (pt_addrIdx pt ! unat apos) \<noteq> slot then Some (NotFound, pt)
        else do {
          tagIdx \<leftarrow> InsertTagEntry (pt_tagIdx pt) (pt_tagIdxMask pt) th slot;
          Some (Ok, pt\<lparr>pt_tagIdx := tagIdx, pt_version := pt_version pt + 2, pt_tagCount := pt_tagCount pt + 1\<rparr>)
        }
      })"

definition UnbindTag :: "u32 \<Rightarrow> bytes \<Rightarrow> PeerTable \<Rightarrow> (Error \<times> PeerTable) option" where
  "UnbindTag slot tag pt =
     (if pt_addrIdx pt = [] then Some (NotInitialized, pt)
      else let th = HashTag tag
      in if th = 0 then Some (InvalidParam, pt)
      else do {
        tpos \<leftarrow> FindTagPos (pt_tagIdx pt) (pt_tagIdxMask pt) th slot;
        if tpos = NPOS then Some (NotFound, pt)
        else do {
          tagIdx \<leftarrow> RemoveTagEntryAt (pt_tagIdx pt) (pt_tagIdxMask pt) tpos;
          Some (Ok, pt\<lparr>pt_tagIdx := tagIdx, pt_version := pt_version pt + 2, pt_tagCount := pt_tagCount pt - 1\<rparr>)
        }
      })"

definition UnbindTags :: "u32 \<Rightarrow> PeerTable \<Rightarrow> (Error \<times> PeerTable) option" where
  "UnbindTags slot pt =
     (if pt_addrIdx pt = [] then Some (NotInitialized, pt)
      else do { pt \<leftarrow> ClearTagsLocked slot pt; Some (Ok, pt\<lparr>pt_version := pt_version pt + 2\<rparr>) })"

text \<open>
  The bounded probes of the readers: one peer by a key verified against the peer itself, and all
  holders of a tag, of which at most \<open>maxOut\<close> are pinned. A pinned peer is given by its slot.
\<close>

fun lookup_probe :: "'k IndexEntry list \<Rightarrow> u32 \<Rightarrow> u64 \<Rightarrow> (u32 \<Rightarrow> bool) \<Rightarrow> nat \<Rightarrow> u32 \<Rightarrow> u32 \<Rightarrow> u32 option" where
  "lookup_probe entries msk hash verify 0 pos dist = None"
| "lookup_probe entries msk hash verify (Suc n) pos dist =
     (let e = entries ! unat pos
      in if ix_hash e = 0 then None
         else if ix_hash e = hash
              then if verify (ix_idx e) then Some (ix_idx e)
                   else lookup_probe entries msk hash verify n ((pos + 1) AND msk) (dist + 1)
         else if Dist (ix_hash e) pos msk < dist then None
         else lookup_probe entries msk hash verify n ((pos + 1) AND msk) (dist + 1))"

definition Lookup :: "'k IndexEntry list \<Rightarrow> u32 \<Rightarrow> u32 \<Rightarrow> u64 \<Rightarrow> (u32 \<Rightarrow> bool) \<Rightarrow> Error + u32" where
  "Lookup entries msk capacity hash verify =
     (case lookup_probe entries msk hash verify (unat capacity) (ucast hash AND msk) 0 of
        None \<Rightarrow> Inl NotFound | Some slot \<Rightarrow> Inr slot)"

definition GetPeer_addr :: "u16 \<times> u16 \<Rightarrow> Address \<Rightarrow> PeerTable \<Rightarrow> Error + u32" where
  "GetPeer_addr fam addr pt =
     (if pt_addrIdx pt = [] then Inl NotInitialized
      else Lookup (pt_addrIdx pt) (pt_idxMask pt) (pt_idxCapacity pt) (HashAddr fam addr)
             (\<lambda>slot. Address_eq (pe_addr (peer_at pt slot)) addr))"

definition GetPeer_id :: "BcpId \<Rightarrow> PeerTable \<Rightarrow> Error + u32" where
  "GetPeer_id pid pt =
     (if pt_addrIdx pt = [] then Inl NotInitialized
      else Lookup (pt_bcpIdx pt) (pt_idxMask pt) (pt_idxCapacity pt) (HashId pid)
             (\<lambda>slot. pe_hasId (peer_at pt slot) \<and> pe_id (peer_at pt slot) = pid))"

fun tag_probe :: "TagIndexEntry list \<Rightarrow> u32 \<Rightarrow> u64 \<Rightarrow> u32 \<Rightarrow> nat \<Rightarrow> u32 \<Rightarrow> u32 \<Rightarrow> u32 \<Rightarrow> u32 list \<Rightarrow> u32 \<times> u32 list" where
  "tag_probe entries msk th maxOut 0 pos dist found out = (found, out)"
| "tag_probe entries msk th maxOut (Suc n) pos dist found out =
     (let e = entries ! unat pos
      in if ix_hash e = 0 then (found, out)
         else if ix_hash e = th
              then tag_probe entries msk th maxOut n ((pos + 1) AND msk) (dist + 1) (found + 1)
                     (if found < maxOut then out @ [ix_idx e] else out)
         else if Dist (ix_hash e) pos msk < dist then (found, out)
         else tag_probe entries msk th maxOut n ((pos + 1) AND msk) (dist + 1) found out)"

definition GetPeersByTag :: "bytes \<Rightarrow> u32 \<Rightarrow> PeerTable \<Rightarrow> u32 \<times> u32 list" where
  "GetPeersByTag tag maxOut pt =
     (if pt_addrIdx pt = [] \<or> maxOut = 0 then (0, [])
      else let th = HashTag tag
      in if th = 0 then (0, [])
         else tag_probe (pt_tagIdx pt) (pt_tagIdxMask pt) th maxOut (unat (pt_tagIdxCapacity pt))
                (ucast th AND pt_tagIdxMask pt) 0 0 [])"

fun collect_from :: "Address IndexEntry list \<Rightarrow> u32 \<Rightarrow> nat \<Rightarrow> u32 \<Rightarrow> Address list \<Rightarrow> u32 \<times> Address list" where
  "collect_from entries maxOut 0 pos out = (pos, out)"
| "collect_from entries maxOut (Suc n) pos out =
     (if unat maxOut \<le> length out then (pos, out)
      else collect_from entries maxOut n (pos + 1)
             (if ix_hash (entries ! unat pos) = 0 then out else out @ [ix_key (entries ! unat pos)]))"

definition CollectAddresses :: "u32 \<Rightarrow> u32 \<Rightarrow> PeerTable \<Rightarrow> u32 \<times> Address list" where
  "CollectAddresses cursor maxOut pt =
     (if pt_addrIdx pt = [] \<or> maxOut = 0 then (cursor, [])
      else collect_from (pt_addrIdx pt) maxOut (unat (pt_idxCapacity pt) - unat cursor) cursor [])"

section \<open>The contract: three finite maps over the leased slots\<close>

record peer_map =
  pm_addr :: "Address \<rightharpoonup> u32"
  pm_id :: "BcpId \<rightharpoonup> u32"
  pm_tags :: "(u64 \<times> u32) multiset"
  pm_parked :: "u32 set"
  pm_emitting :: "u32 set"

abbreviation pm_live :: "peer_map \<Rightarrow> u32 set" where
  "pm_live m \<equiv> ran (pm_addr m)"

datatype pt_op =
    Register Address "BcpId option" u64 u64
  | BindPeerId u32 BcpId
  | RemoveByAddr Address
  | RemoveById BcpId
  | Move u32 Address
  | BindPeerTag u32 bytes
  | UnbindPeerTag u32 bytes
  | UnbindPeerTags u32
  | Emit Address
  | EventRead u32
  | FindByAddr Address
  | FindById BcpId
  | FindByTag bytes u32

datatype pt_result = Done Error | Got Error u32 | Peered "Error + u32" | Holders u32 "u32 list"

text \<open>The table as its clients drive it; \<open>Emit\<close> is a client recording an event about a peer it found.\<close>

definition mark_emitting :: "u32 \<Rightarrow> PeerTable \<Rightarrow> PeerTable" where
  "mark_emitting slot pt = pt\<lparr>pt_peers := (pt_peers pt)[unat slot := (peer_at pt slot)\<lparr>pe_emitting := True\<rparr>]\<rparr>"

fun pt_step :: "u16 \<times> u16 \<Rightarrow> PeerTable \<Rightarrow> pt_op \<Rightarrow> (pt_result \<times> PeerTable) option" where
  "pt_step fam pt (Register addr pid now hint) =
     map_option (\<lambda>((e, s), pt). (Got e s, pt)) (RegisterPeer fam now hint addr pid pt)"
| "pt_step fam pt (BindPeerId slot pid) = map_option (\<lambda>(e, pt). (Done e, pt)) (BindId fam slot pid pt)"
| "pt_step fam pt (RemoveByAddr addr) = map_option (\<lambda>(e, pt). (Done e, pt)) (RemovePeer_addr fam addr pt)"
| "pt_step fam pt (RemoveById pid) = map_option (\<lambda>(e, pt). (Done e, pt)) (RemovePeer_id fam pid pt)"
| "pt_step fam pt (Move slot addr) = map_option (\<lambda>(e, pt). (Done e, pt)) (UpdateAddress fam slot addr pt)"
| "pt_step fam pt (BindPeerTag slot tag) = map_option (\<lambda>(e, pt). (Done e, pt)) (BindTag fam slot tag pt)"
| "pt_step fam pt (UnbindPeerTag slot tag) = map_option (\<lambda>(e, pt). (Done e, pt)) (UnbindTag slot tag pt)"
| "pt_step fam pt (UnbindPeerTags slot) = map_option (\<lambda>(e, pt). (Done e, pt)) (UnbindTags slot pt)"
| "pt_step fam pt (Emit addr) =
     (case GetPeer_addr fam addr pt of Inl e \<Rightarrow> Some (Done e, pt) | Inr s \<Rightarrow> Some (Done Ok, mark_emitting s pt))"
| "pt_step fam pt (EventRead slot) = map_option (\<lambda>pt. (Done Ok, pt)) (ClearEmitting slot pt)"
| "pt_step fam pt (FindByAddr addr) = Some (Peered (GetPeer_addr fam addr pt), pt)"
| "pt_step fam pt (FindById pid) = Some (Peered (GetPeer_id pid pt), pt)"
| "pt_step fam pt (FindByTag tag n) = (let (found, out) = GetPeersByTag tag n pt in Some (Holders found out, pt))"

definition drop_peer :: "u32 \<Rightarrow> peer_map \<Rightarrow> peer_map" where
  "drop_peer s m = m\<lparr>pm_addr := (\<lambda>a. if pm_addr m a = Some s then None else pm_addr m a),
     pm_id := (\<lambda>i. if pm_id m i = Some s then None else pm_id m i),
     pm_tags := filter_mset (\<lambda>x. snd x \<noteq> s) (pm_tags m),
     pm_parked := (if s \<in> pm_emitting m then insert s (pm_parked m) else pm_parked m)\<rparr>"

text \<open>What each call answers and does, given the slots of the pool and the limits of peers and tags.\<close>

fun pt_spec :: "u32 set \<Rightarrow> nat \<Rightarrow> nat \<Rightarrow> peer_map \<Rightarrow> pt_op \<Rightarrow> pt_result \<Rightarrow> peer_map \<Rightarrow> bool" where
  "pt_spec S cap tcap m (Register addr pid now hint) r m' \<longleftrightarrow>
     (if cap \<le> card (dom (pm_addr m)) then r = Got LimitReached INVALID \<and> m' = m
      else if pm_addr m addr \<noteq> None \<or> (\<exists>i. pid = Some i \<and> pm_id m i \<noteq> None) then r = Got AlreadyPending INVALID \<and> m' = m
      else if S \<subseteq> pm_live m \<union> pm_parked m then r = Got LimitReached INVALID \<and> m' = m
      else \<exists>s \<in> S - pm_live m - pm_parked m. r = Got Ok s \<and>
        m' = m\<lparr>pm_addr := (pm_addr m)(addr \<mapsto> s),
               pm_id := (case pid of None \<Rightarrow> pm_id m | Some i \<Rightarrow> (pm_id m)(i \<mapsto> s)),
               pm_emitting := pm_emitting m - {s}\<rparr>)"
| "pt_spec S cap tcap m (BindPeerId s i) r m' \<longleftrightarrow>
     (if s \<notin> S then r = Done InvalidParam \<and> m' = m
      else if s \<notin> pm_live m then r = Done NotFound \<and> m' = m
      else if s \<in> ran (pm_id m) \<or> pm_id m i \<noteq> None then r = Done AlreadyPending \<and> m' = m
      else r = Done Ok \<and> m' = m\<lparr>pm_id := (pm_id m)(i \<mapsto> s)\<rparr>)"
| "pt_spec S cap tcap m (RemoveByAddr addr) r m' \<longleftrightarrow>
     (case pm_addr m addr of None \<Rightarrow> r = Done NotFound \<and> m' = m | Some s \<Rightarrow> r = Done Ok \<and> m' = drop_peer s m)"
| "pt_spec S cap tcap m (RemoveById i) r m' \<longleftrightarrow>
     (case pm_id m i of None \<Rightarrow> r = Done NotFound \<and> m' = m | Some s \<Rightarrow> r = Done Ok \<and> m' = drop_peer s m)"
| "pt_spec S cap tcap m (Move s addr) r m' \<longleftrightarrow>
     (if s \<notin> S then r = Done InvalidParam \<and> m' = m
      else if s \<notin> pm_live m then r = Done NotFound \<and> m' = m
      else if pm_addr m addr = Some s then r = Done Ok \<and> m' = m
      else if pm_addr m addr \<noteq> None then r = Done AlreadyPending \<and> m' = m
      else r = Done Ok \<and> m' = m\<lparr>pm_addr := (\<lambda>a. if pm_addr m a = Some s then None else pm_addr m a)(addr \<mapsto> s)\<rparr>)"
| "pt_spec S cap tcap m (BindPeerTag s tag) r m' \<longleftrightarrow>
     (if s \<notin> S \<or> HashTag tag = 0 then r = Done InvalidParam \<and> m' = m
      else if tcap \<le> size (pm_tags m) then r = Done LimitReached \<and> m' = m
      else if s \<notin> pm_live m then r = Done NotFound \<and> m' = m
      else r = Done Ok \<and> m' = m\<lparr>pm_tags := add_mset (HashTag tag, s) (pm_tags m)\<rparr>)"
| "pt_spec S cap tcap m (UnbindPeerTag s tag) r m' \<longleftrightarrow>
     (if HashTag tag = 0 then r = Done InvalidParam \<and> m' = m
      else if (HashTag tag, s) \<notin># pm_tags m then r = Done NotFound \<and> m' = m
      else r = Done Ok \<and> m' = m\<lparr>pm_tags := pm_tags m - {#(HashTag tag, s)#}\<rparr>)"
| "pt_spec S cap tcap m (UnbindPeerTags s) r m' \<longleftrightarrow>
     r = Done Ok \<and> m' = m\<lparr>pm_tags := filter_mset (\<lambda>x. snd x \<noteq> s) (pm_tags m)\<rparr>"
| "pt_spec S cap tcap m (Emit addr) r m' \<longleftrightarrow>
     (case pm_addr m addr of None \<Rightarrow> r = Done NotFound \<and> m' = m
      | Some s \<Rightarrow> r = Done Ok \<and> m' = m\<lparr>pm_emitting := insert s (pm_emitting m)\<rparr>)"
| "pt_spec S cap tcap m (EventRead s) r m' \<longleftrightarrow>
     r = Done Ok \<and> m' = m\<lparr>pm_emitting := pm_emitting m - {s}, pm_parked := pm_parked m - {s}\<rparr>"
| "pt_spec S cap tcap m (FindByAddr addr) r m' \<longleftrightarrow>
     r = Peered (case pm_addr m addr of None \<Rightarrow> Inl NotFound | Some s \<Rightarrow> Inr s) \<and> m' = m"
| "pt_spec S cap tcap m (FindById i) r m' \<longleftrightarrow>
     r = Peered (case pm_id m i of None \<Rightarrow> Inl NotFound | Some s \<Rightarrow> Inr s) \<and> m' = m"
| "pt_spec S cap tcap m (FindByTag tag n) r m' \<longleftrightarrow> m' = m \<and>
     (if n = 0 \<or> HashTag tag = 0 then r = Holders 0 []
      else \<exists>found out. r = Holders found out
        \<and> unat found = size (filter_mset (\<lambda>x. fst x = HashTag tag) (pm_tags m))
        \<and> length out = min (unat n) (unat found)
        \<and> mset out \<subseteq># image_mset snd (filter_mset (\<lambda>x. fst x = HashTag tag) (pm_tags m)))"

fun pt_spec_run :: "u32 set \<Rightarrow> nat \<Rightarrow> nat \<Rightarrow> peer_map \<Rightarrow> pt_op list \<Rightarrow> pt_result list \<Rightarrow> peer_map \<Rightarrow> bool" where
  "pt_spec_run S cap tcap m [] [] m' \<longleftrightarrow> m' = m"
| "pt_spec_run S cap tcap m (op # ops) (r # rs) m' \<longleftrightarrow>
     (\<exists>m1. pt_spec S cap tcap m op r m1 \<and> pt_spec_run S cap tcap m1 ops rs m')"
| "pt_spec_run S cap tcap m _ _ m' \<longleftrightarrow> False"

definition no_peers :: peer_map where
  "no_peers = \<lparr>pm_addr = Map.empty, pm_id = Map.empty, pm_tags = {#}, pm_parked = {}, pm_emitting = {}\<rparr>"

section \<open>The indexes\<close>

lemma HashAddr_nonzero: "HashAddr fam a \<noteq> 0"
  by (simp add: HashAddr_def Let_def)

lemma HashId_nonzero: "HashId i \<noteq> 0"
  by (simp add: HashId_def Let_def)

lemma Address_eq_same: "Address_eq a b \<Longrightarrow> a = b"
  by (induction a b rule: Address_eq.induct) auto

definition comparable :: "Address \<Rightarrow> bool" where
  "comparable a = Address_eq a a"

lemma comparable_IsSet: "comparable a \<Longrightarrow> IsSet a"
  by (cases a) (auto simp: comparable_def IsSet_def)

interpretation addr_index: keyed_index "HashAddr fam" Address_eq comparable for fam
  by unfold_locales (auto simp: HashAddr_nonzero comparable_def dest: Address_eq_same)

interpretation id_index: keyed_index HashId "(=)" "\<lambda>_. True"
  by unfold_locales (auto simp: HashId_nonzero)

section \<open>The table implements the maps\<close>

definition idx_ok :: "u16 \<times> u16 \<Rightarrow> nat \<Rightarrow> PeerTable \<Rightarrow> peer_map \<Rightarrow> bool" where
  "idx_ok fam k pt m \<longleftrightarrow> addr_index.index_rel fam k (pt_addrIdx pt) (pm_addr m) \<and> id_index.index_rel k (pt_bcpIdx pt) (pm_id m)
     \<and> pt_idxMask pt = mask k \<and> pt_idxCapacity pt = 2 ^ k \<and> card (dom (pm_addr m)) = unat (pt_peerCount pt)
     \<and> unat (pt_peerCount pt) \<le> unat (pt_peerCapacity pt) \<and> unat (pt_peerCapacity pt) < 2 ^ k"

definition tags_ok :: "nat \<Rightarrow> PeerTable \<Rightarrow> peer_map \<Rightarrow> bool" where
  "tags_ok j pt m \<longleftrightarrow> tag_rel j (pt_tagIdx pt) (pm_tags m) \<and> pt_tagIdxMask pt = mask j \<and> pt_tagIdxCapacity pt = 2 ^ j
     \<and> size (pm_tags m) = unat (pt_tagCount pt) \<and> unat (pt_tagCount pt) \<le> unat (pt_tagCapacity pt)
     \<and> unat (pt_tagCapacity pt) < 2 ^ j"

abbreviation pt_slots :: "PeerTable \<Rightarrow> u32 set" where
  "pt_slots pt \<equiv> {i. i < sp_capacity (pt_pool pt)}"

definition slots_ok :: "PeerTable \<Rightarrow> peer_map \<Rightarrow> bool" where
  "slots_ok pt m \<longleftrightarrow> (\<exists>s k. pool_inv s k (pt_pool pt)) \<and> length (pt_peers pt) = unat (sp_capacity (pt_pool pt))
     \<and> pm_live m \<subseteq> pt_slots pt \<and> pm_parked m \<subseteq> pt_slots pt \<and> pm_live m \<inter> pm_parked m = {}
     \<and> free_slots (pt_pool pt) = pt_slots pt - pm_live m - pm_parked m"

definition peers_ok :: "PeerTable \<Rightarrow> peer_map \<Rightarrow> bool" where
  "peers_ok pt m \<longleftrightarrow> (\<forall>a s. pm_addr m a = Some s \<longrightarrow> pe_addr (peer_at pt s) = a)
     \<and> (\<forall>i s. pm_id m i = Some s \<longleftrightarrow> s \<in> pm_live m \<and> pe_hasId (peer_at pt s) \<and> pe_id (peer_at pt s) = i)
     \<and> (\<forall>x\<in>#pm_tags m. snd x \<in> pm_live m)
     \<and> (\<forall>s\<in>pt_slots pt. (pe_freeWhenRead (peer_at pt s) \<longleftrightarrow> s \<in> pm_parked m)
                          \<and> (pe_emitting (peer_at pt s) \<longleftrightarrow> s \<in> pm_emitting m))"

definition pt_rel :: "u16 \<times> u16 \<Rightarrow> nat \<Rightarrow> nat \<Rightarrow> PeerTable \<Rightarrow> peer_map \<Rightarrow> bool" where
  "pt_rel fam k j pt m \<longleftrightarrow> idx_ok fam k pt m \<and> tags_ok j pt m \<and> slots_ok pt m \<and> peers_ok pt m \<and> pm_emitting m \<subseteq> pt_slots pt"

lemma peers_okD:
  assumes "peers_ok pt m"
  shows "pm_addr m a = Some s \<Longrightarrow> pe_addr (peer_at pt s) = a"
    "pm_id m i = Some s \<longleftrightarrow> s \<in> pm_live m \<and> pe_hasId (peer_at pt s) \<and> pe_id (peer_at pt s) = i"
    "x \<in># pm_tags m \<Longrightarrow> snd x \<in> pm_live m"
    "s \<in> pt_slots pt \<Longrightarrow> (pe_freeWhenRead (peer_at pt s) \<longleftrightarrow> s \<in> pm_parked m) \<and> (pe_emitting (peer_at pt s) \<longleftrightarrow> s \<in> pm_emitting m)"
  using assms unfolding peers_ok_def by blast+

lemma live_iff:
  assumes "peers_ok pt m" shows "s \<in> pm_live m \<longleftrightarrow> pm_addr m (pe_addr (peer_at pt s)) = Some s"
  using peers_okD(1) [OF assms] unfolding ran_def by blast

lemma one_addr:
  assumes "peers_ok pt m" and "pm_addr m a = Some s" and "pm_addr m b = Some s" shows "a = b"
  using peers_okD(1) [OF assms(1)] assms(2,3) by metis

lemma one_id:
  assumes "peers_ok pt m" and "pm_id m a = Some s" and "pm_id m b = Some s" shows "a = b"
  using peers_okD(2) [OF assms(1)] assms(2,3) by metis

lemma ids_fewer:
  assumes "idx_ok fam k pt m" and "peers_ok pt m" shows "card (dom (pm_id m)) \<le> card (dom (pm_addr m))" "card (dom (pm_addr m)) < 2 ^ k"
proof -
  have f: "finite (dom (pm_addr m))" "finite (dom (pm_id m))"
    using assms(1) by (simp_all add: idx_ok_def addr_index.index_rel_def id_index.index_rel_def)
  have "inj_on (\<lambda>i. pe_addr (peer_at pt (the (pm_id m i)))) (dom (pm_id m))"
  proof (rule inj_onI)
    fix i i' assume i: "i \<in> dom (pm_id m)" "i' \<in> dom (pm_id m)"
      "pe_addr (peer_at pt (the (pm_id m i))) = pe_addr (peer_at pt (the (pm_id m i')))"
    obtain s s' where s: "pm_id m i = Some s" "pm_id m i' = Some s'" using i(1,2) by blast
    then have "s \<in> pm_live m" "s' \<in> pm_live m" using peers_okD(2) [OF assms(2)] by blast+
    moreover have "pe_addr (peer_at pt s) = pe_addr (peer_at pt s')" using i(3) unfolding s option.sel .
    ultimately have "s = s'" using live_iff [OF assms(2)] by (metis option.inject)
    then show "i = i'" using one_id [OF assms(2)] s by blast
  qed
  moreover have "(\<lambda>i. pe_addr (peer_at pt (the (pm_id m i)))) ` dom (pm_id m) \<subseteq> dom (pm_addr m)"
  proof
    fix a assume "a \<in> (\<lambda>i. pe_addr (peer_at pt (the (pm_id m i)))) ` dom (pm_id m)"
    then obtain i where i: "i \<in> dom (pm_id m)" "a = pe_addr (peer_at pt (the (pm_id m i)))" by blast
    then obtain s where s: "pm_id m i = Some s" by blast
    then have "s \<in> pm_live m" using peers_okD(2) [OF assms(2)] by blast
    then have "pm_addr m a = Some s" using live_iff [OF assms(2), of s] i(2) unfolding s option.sel by simp
    then show "a \<in> dom (pm_addr m)" by blast
  qed
  ultimately show "card (dom (pm_id m)) \<le> card (dom (pm_addr m))" using f by (metis card_inj_on_le)
  show "card (dom (pm_addr m)) < 2 ^ k" using assms(1) by (simp add: idx_ok_def)
qed

lemma find_addr_exact:
  assumes "idx_ok fam k pt m"
  obtains r where "find_addr fam pt a = Some r" "r = NPOS \<longleftrightarrow> pm_addr m a = None"
    "r \<noteq> NPOS \<longrightarrow> unat r < length (pt_addrIdx pt) \<and> (\<exists>s. pm_addr m a = Some s
       \<and> pt_addrIdx pt ! unat r = \<lparr>ix_hash = HashAddr fam a, ix_idx = s, ix_key = a\<rparr>)"
proof -
  have i: "addr_index.index_rel fam k (pt_addrIdx pt) (pm_addr m)" "card (dom (pm_addr m)) < 2 ^ k" "pt_idxMask pt = mask k"
    using assms by (auto simp: idx_ok_def)
  show thesis using addr_index.index_find [OF i(1,2), of a] that i(3) unfolding find_addr_def by metis
qed

lemma find_id_exact:
  assumes "idx_ok fam k pt m" and "peers_ok pt m"
  obtains r where "find_id pt i = Some r" "r = NPOS \<longleftrightarrow> pm_id m i = None"
    "r \<noteq> NPOS \<longrightarrow> unat r < length (pt_bcpIdx pt) \<and> (\<exists>s. pm_id m i = Some s
       \<and> pt_bcpIdx pt ! unat r = \<lparr>ix_hash = HashId i, ix_idx = s, ix_key = i\<rparr>)"
proof -
  have i: "id_index.index_rel k (pt_bcpIdx pt) (pm_id m)" "card (dom (pm_id m)) < 2 ^ k" "pt_idxMask pt = mask k"
    using assms(1) ids_fewer [OF assms] by (auto simp: idx_ok_def)
  show thesis using id_index.index_find [OF i(1,2), of i] that i(3) unfolding find_id_def by metis
qed

lemma table_up:
  assumes "idx_ok fam k pt m" shows "pt_addrIdx pt \<noteq> []"
  using assms rh_shape(4) [of k "pt_addrIdx pt"] by (auto simp: idx_ok_def addr_index.index_rel_def)

definition keeps :: "PeerTable \<Rightarrow> PeerTable \<Rightarrow> bool" where
  "keeps pt pt' \<longleftrightarrow> sp_capacity (pt_pool pt') = sp_capacity (pt_pool pt) \<and> pt_peerCapacity pt' = pt_peerCapacity pt
     \<and> pt_tagCapacity pt' = pt_tagCapacity pt"

definition step_ok :: "u16 \<times> u16 \<Rightarrow> nat \<Rightarrow> nat \<Rightarrow> PeerTable \<Rightarrow> peer_map \<Rightarrow> pt_op \<Rightarrow> bool" where
  "step_ok fam k j pt m op \<longleftrightarrow> (\<exists>r pt' m'. pt_step fam pt op = Some (r, pt')
     \<and> pt_spec (pt_slots pt) (unat (pt_peerCapacity pt)) (unat (pt_tagCapacity pt)) m op r m'
     \<and> pt_rel fam k j pt' m' \<and> keeps pt pt')"

lemma keeps_same [simp]: "keeps pt pt"
  by (simp add: keeps_def)

lemma step_stays:
  assumes "pt_rel fam k j pt m" and "pt_step fam pt op = Some (r, pt)"
    and "pt_spec (pt_slots pt) (unat (pt_peerCapacity pt)) (unat (pt_tagCapacity pt)) m op r m"
  shows "step_ok fam k j pt m op"
  unfolding step_ok_def using assms keeps_same by blast

lemma pt_relD:
  assumes "pt_rel fam k j pt m"
  shows "idx_ok fam k pt m" "tags_ok j pt m" "slots_ok pt m" "peers_ok pt m" "pm_emitting m \<subseteq> pt_slots pt"
  using assms unfolding pt_rel_def by blast+

lemma slots_okD:
  assumes "slots_ok pt m"
  shows "\<exists>s k. pool_inv s k (pt_pool pt)" "length (pt_peers pt) = unat (sp_capacity (pt_pool pt))"
    "pm_live m \<subseteq> pt_slots pt" "pm_parked m \<subseteq> pt_slots pt" "pm_live m \<inter> pm_parked m = {}"
    "free_slots (pt_pool pt) = pt_slots pt - pm_live m - pm_parked m"
  using assms unfolding slots_ok_def by blast+

lemma idx_okD:
  assumes "idx_ok fam k pt m"
  shows "addr_index.index_rel fam k (pt_addrIdx pt) (pm_addr m)" "id_index.index_rel k (pt_bcpIdx pt) (pm_id m)"
    "pt_idxMask pt = mask k" "pt_idxCapacity pt = 2 ^ k" "card (dom (pm_addr m)) = unat (pt_peerCount pt)"
    "unat (pt_peerCount pt) \<le> unat (pt_peerCapacity pt)" "unat (pt_peerCapacity pt) < 2 ^ k" "finite (dom (pm_addr m))"
  using assms unfolding idx_ok_def addr_index.index_rel_def by blast+

lemma peer_at_upd:
  "unat s < length ps \<Longrightarrow> ps[unat s := p] ! unat s' = (if s' = s then p else ps ! unat s')"
  by (auto simp: nth_list_update word_unat_eq_iff)

lemma slot_in_peers:
  assumes "slots_ok pt m" and "s \<in> pt_slots pt" shows "unat s < length (pt_peers pt)"
  using slots_okD(2) [OF assms(1)] assms(2) by (simp add: word_less_nat_alt)

text \<open>A registration.\<close>

lemma Register_new:
  assumes rel: "pt_rel fam k j pt m" and c: "comparable addr"
    and room: "pt_peerCount pt < pt_peerCapacity pt" and new: "pm_addr m addr = None" "\<And>i. pid = Some i \<Longrightarrow> pm_id m i = None"
    and acq: "SlotPool_Acquire hint (pt_pool pt) = Some (s, pool)" "s \<in> free_slots (pt_pool pt)" "\<exists>a b. pool_inv a b pool"
      "sp_capacity pool = sp_capacity (pt_pool pt)" "free_slots pool = free_slots (pt_pool pt) - {s}" "s \<noteq> INVALID"
  shows "step_ok fam k j pt m (Register addr pid now hint)"
proof -
  note R = pt_relD [OF rel] note I = idx_okD [OF R(1)] note S = slots_okD [OF R(3)] note P = peers_okD [OF R(4)]
  obtain ap where ap: "find_addr fam pt addr = Some ap" "ap = NPOS \<longleftrightarrow> pm_addr m addr = None" by (rule find_addr_exact [OF R(1)])
  have apN: "find_addr fam pt addr = Some NPOS" using ap new(1) by simp
  have bpN: "(case pid of None \<Rightarrow> Some NPOS | Some i \<Rightarrow> find_id pt i) = Some NPOS"
  proof (cases pid)
    case (Some i)
    obtain bp where "find_id pt i = Some bp" "bp = NPOS \<longleftrightarrow> pm_id m i = None" by (rule find_id_exact [OF R(1,4)])
    then show ?thesis using Some new(2) by simp
  qed simp
  have cd: "card (dom (pm_addr m)) < 2 ^ k" "card (dom (pm_id m)) < 2 ^ k" using ids_fewer [OF R(1,4)] by simp_all
  obtain ai where ai: "InsertEntry (pt_addrIdx pt) (mask k) (HashAddr fam addr) s addr = Some ai"
      "addr_index.index_rel fam k ai ((pm_addr m)(addr \<mapsto> s))"
    by (rule addr_index.index_insert [OF I(1) cd(1) new(1) c])
  let ?B = "case pid of None \<Rightarrow> pm_id m | Some i \<Rightarrow> (pm_id m)(i \<mapsto> s)"
  obtain bi where bi: "(case pid of None \<Rightarrow> Some (pt_bcpIdx pt) | Some i \<Rightarrow> InsertEntry (pt_bcpIdx pt) (pt_idxMask pt) (HashId i) s i) = Some bi"
      "id_index.index_rel k bi ?B"
  proof (cases pid)
    case None
    then show thesis using that I(2) by simp
  next
    case (Some i)
    obtain bi where "InsertEntry (pt_bcpIdx pt) (mask k) (HashId i) s i = Some bi" "id_index.index_rel k bi ((pm_id m)(i \<mapsto> s))"
      by (rule id_index.index_insert [OF I(2) cd(2) new(2) [OF Some] TrueI])
    then show thesis using that Some I(3) by simp
  qed
  let ?p = "fresh_peer addr pid now"
  let ?pt = "pt\<lparr>pt_pool := pool, pt_peers := (pt_peers pt)[unat s := ?p], pt_addrIdx := ai, pt_bcpIdx := bi,
      pt_version := pt_version pt + 2, pt_peerCount := pt_peerCount pt + 1\<rparr>"
  let ?m = "m\<lparr>pm_addr := (pm_addr m)(addr \<mapsto> s), pm_id := ?B, pm_emitting := pm_emitting m - {s}\<rparr>"
  have step: "pt_step fam pt (Register addr pid now hint) = Some (Got Ok s, ?pt)"
    using apN bpN ai(1) bi(1) acq(1,6) room table_up [OF R(1)] comparable_IsSet [OF c] I(3)
    by (simp add: RegisterPeer_def not_le [symmetric])
  have sl: "s \<in> pt_slots pt" "s \<notin> pm_live m" "s \<notin> pm_parked m" using acq(2) S(6) by auto
  have ul: "unat s < length (pt_peers pt)" by (rule slot_in_peers [OF R(3) sl(1)])
  have live: "pm_live ?m = insert s (pm_live m)" using new(1) by simp
  have spec: "pt_spec (pt_slots pt) (unat (pt_peerCapacity pt)) (unat (pt_tagCapacity pt)) m (Register addr pid now hint) (Got Ok s) ?m"
  proof -
    have "\<not> unat (pt_peerCapacity pt) \<le> card (dom (pm_addr m))" using I(5) room by (simp add: word_less_nat_alt)
    moreover have "\<not> pt_slots pt \<subseteq> pm_live m \<union> pm_parked m" using sl by blast
    ultimately show ?thesis using new sl by auto
  qed
  have "unat (pt_peerCount pt + 1) = Suc (unat (pt_peerCount pt))" by (rule unat_Suc_small [OF room])
  moreover have "card (dom ((pm_addr m)(addr \<mapsto> s))) = Suc (card (dom (pm_addr m)))" using new(1) I(8) by (simp add: domIff)
  moreover have "unat (pt_peerCount pt) < unat (pt_peerCapacity pt)" using room by (simp add: word_less_nat_alt)
  ultimately have "idx_ok fam k ?pt ?m" using ai(2) bi(2) I unfolding idx_ok_def by simp
  moreover have "tags_ok j ?pt ?m" using R(2) unfolding tags_ok_def by simp
  moreover have "slots_ok ?pt ?m"
    using S acq(3,4,5) sl live unfolding slots_ok_def by simp blast
  moreover have "peers_ok ?pt ?m"
  proof -
    have pa: "peer_at ?pt s' = (if s' = s then ?p else peer_at pt s')" for s' using peer_at_upd [OF ul] by simp
    have nl: "pm_addr m a \<noteq> Some s" for a using sl(2) unfolding ran_def by blast
    have ni: "pm_id m i \<noteq> Some s" for i using P(2) sl(2) by blast
    have f: "pe_addr ?p = addr" "pe_hasId ?p = (pid \<noteq> None)" "pid = Some i \<Longrightarrow> pe_id ?p = i" "\<not> pe_freeWhenRead ?p" "\<not> pe_emitting ?p" for i
      by (simp_all add: fresh_peer_def)
    have 1: "pe_addr (peer_at ?pt s') = a" if "pm_addr ?m a = Some s'" for a s'
      using that P(1) [of a s'] nl [of a] f(1) unfolding pa by (auto split: if_splits)
    have 2: "pm_id ?m i = Some s' \<longleftrightarrow> s' \<in> pm_live ?m \<and> pe_hasId (peer_at ?pt s') \<and> pe_id (peer_at ?pt s') = i" for i s'
    proof (cases pid)
      case None
      then show ?thesis unfolding live pa using P(2) [of i s'] ni f(2) sl(2) by auto
    next
      case (Some i0)
      then show ?thesis unfolding live pa using P(2) [of i s'] ni new(2) [OF Some] f(2) f(3) [OF Some] sl(2) by auto
    qed
    have 3: "snd x \<in> pm_live ?m" if "x \<in># pm_tags ?m" for x unfolding live using P(3) [of x] that by simp
    have 4: "(pe_freeWhenRead (peer_at ?pt s') \<longleftrightarrow> s' \<in> pm_parked ?m) \<and> (pe_emitting (peer_at ?pt s') \<longleftrightarrow> s' \<in> pm_emitting ?m)"
      if "s' \<in> pt_slots ?pt" for s' unfolding pa using P(4) [of s'] that f(4,5) sl(3) acq(4) by auto
    show ?thesis unfolding peers_ok_def using 1 2 3 4 by blast
  qed
  moreover have "pm_emitting ?m \<subseteq> pt_slots ?pt" using R(5) acq(4) by auto
  ultimately have "pt_rel fam k j ?pt ?m" unfolding pt_rel_def by blast
  moreover have "keeps pt ?pt" using acq(4) by (simp add: keeps_def)
  ultimately show ?thesis unfolding step_ok_def using step spec by blast
qed

lemma Register_step:
  assumes rel: "pt_rel fam k j pt m" and c: "comparable addr"
  shows "step_ok fam k j pt m (Register addr pid now hint)"
proof -
  note R = pt_relD [OF rel] note I = idx_okD [OF R(1)] note S = slots_okD [OF R(3)]
  note up = table_up [OF R(1)] comparable_IsSet [OF c]
  obtain ap where ap: "find_addr fam pt addr = Some ap" "ap = NPOS \<longleftrightarrow> pm_addr m addr = None" by (rule find_addr_exact [OF R(1)])
  obtain bp where bp: "(case pid of None \<Rightarrow> Some NPOS | Some i \<Rightarrow> find_id pt i) = Some bp" "bp \<noteq> NPOS \<longleftrightarrow> (\<exists>i. pid = Some i \<and> pm_id m i \<noteq> None)"
  proof (cases pid)
    case (Some i)
    obtain bp where "find_id pt i = Some bp" "bp = NPOS \<longleftrightarrow> pm_id m i = None" by (rule find_id_exact [OF R(1,4)])
    then show thesis using that Some by simp
  qed (use that in simp)
  consider (full) "pt_peerCapacity pt \<le> pt_peerCount pt"
    | (dup) "pt_peerCount pt < pt_peerCapacity pt" "ap \<noteq> NPOS \<or> bp \<noteq> NPOS"
    | (none) "pt_peerCount pt < pt_peerCapacity pt" "ap = NPOS" "bp = NPOS" "free_slots (pt_pool pt) = {}"
    | (new) "pt_peerCount pt < pt_peerCapacity pt" "ap = NPOS" "bp = NPOS" "free_slots (pt_pool pt) \<noteq> {}"
    by force
  then show ?thesis
  proof cases
    case full
    then show ?thesis using up I(5) by (intro step_stays [OF rel]) (simp_all add: RegisterPeer_def word_le_nat_alt)
  next
    case dup
    then have "\<not> unat (pt_peerCapacity pt) \<le> card (dom (pm_addr m))" using I(5) by (simp add: word_less_nat_alt)
    moreover have "pm_addr m addr \<noteq> None \<or> (\<exists>i. pid = Some i \<and> pm_id m i \<noteq> None)" using dup(2) ap(2) bp(2) by blast
    moreover have "RegisterPeer fam now hint addr pid pt = Some ((AlreadyPending, INVALID), pt)"
      using up dup ap(1) bp(1) by (cases "ap = NPOS") (simp_all add: RegisterPeer_def)
    ultimately show ?thesis by (intro step_stays [OF rel]) simp_all
  next
    case none
    then have "\<not> unat (pt_peerCapacity pt) \<le> card (dom (pm_addr m))" using I(5) by (simp add: word_less_nat_alt)
    moreover have "SlotPool_Acquire hint (pt_pool pt) = Some (INVALID, pt_pool pt)" using slot_pool.acquire_none [OF S(1)] none(4) by simp
    then have "RegisterPeer fam now hint addr pid pt = Some ((LimitReached, INVALID), pt)"
      using up none ap(1) bp(1) by (simp add: RegisterPeer_def)
    moreover have "pm_addr m addr = None" "\<nexists>i. pid = Some i \<and> pm_id m i \<noteq> None" using none(2,3) ap(2) bp(2) by blast+
    moreover have "pt_slots pt \<subseteq> pm_live m \<union> pm_parked m" using S(6) none(4) by blast
    ultimately show ?thesis by (intro step_stays [OF rel]) auto
  next
    case new
    obtain s pool where a: "SlotPool_Acquire hint (pt_pool pt) = Some (s, pool)" "s \<in> free_slots (pt_pool pt)" "\<exists>a b. pool_inv a b pool"
      "{i. i < sp_capacity pool} = pt_slots pt" "free_slots pool = free_slots (pt_pool pt) - {s}"
      using slot_pool.acquire_some [OF S(1), of hint] new(4) by auto
    have "s \<noteq> INVALID" using a(2) S(6) slot_pool.no_invalid [OF S(1)] by auto
    moreover have "sp_capacity pool = sp_capacity (pt_pool pt)"
      using a(4) by (metis mem_Collect_eq not_less_iff_gr_or_eq)
    ultimately show ?thesis using Register_new [OF rel c new(1)] new(2,3) ap(2) bp(2) a by blast
  qed
qed

end
