(* ===== verification/Peer_Probe.thy ===== *)
theory Peer_Probe
  imports Peer_Table
begin

text \<open>
  The bounded probes of the readers, on a table no writer is changing: a lookup finds the peer a
  key maps to, and the walk over a tag finds all of its holders.
\<close>

unbundle bit_operations_syntax

section \<open>Lookup of one peer\<close>

lemma probe_step:
  assumes rh: "rh_inv k t" and "unat pos = probe (length t) h i" and "unat dist = i" and "Suc i < length t"
  shows "unat ((pos + 1) AND mask k) = probe (length t) h (Suc i)" "unat (dist + 1) = Suc i"
    "Dist (ix_hash (t ! unat pos)) pos (mask k) < dist \<longleftrightarrow> depth t (unat pos) < i"
proof -
  note S = rh_shape [OF rh]
  have p: "unat pos < 2 ^ k" using assms(2) S(1,4) by (simp add: probe_def)
  show "unat ((pos + 1) AND mask k) = probe (length t) h (Suc i)"
    using unat_next_pos [OF S(2) p] assms(2) S(1) by (simp add: probe_def mod_Suc_eq)
  show "unat (dist + 1) = Suc i" using assms(3,4) S(5) by (subst unat_add_small) simp_all
  have "unat (Dist (ix_hash (t ! unat pos)) pos (mask k)) = depth t (unat pos)"
    unfolding depth_def S(1) by (rule unat_Dist [OF S(3) p])
  then show "Dist (ix_hash (t ! unat pos)) pos (mask k) < dist \<longleftrightarrow> depth t (unat pos) < i"
    using assms(3) by (simp add: word_less_nat_alt)
qed

lemma probe_dist:
  assumes rh: "rh_inv k t" and "unat pos = probe (length t) h i" and "unat dist = i"
  shows "Dist (ix_hash (t ! unat pos)) pos (mask k) < dist \<longleftrightarrow> depth t (unat pos) < i"
proof -
  note S = rh_shape [OF rh]
  have p: "unat pos < 2 ^ k" using assms(2) S(1,4) by (simp add: probe_def)
  have "unat (Dist (ix_hash (t ! unat pos)) pos (mask k)) = depth t (unat pos)"
    unfolding depth_def S(1) by (rule unat_Dist [OF S(3) p])
  then show ?thesis using assms(3) by (simp add: word_less_nat_alt)
qed

lemma same_hash_depth:
  assumes "rh_inv k t" and "i < length t" and "ix_hash (t ! probe (length t) h i) = h"
  shows "depth t (probe (length t) h i) = i"
proof -
  have "0 < length t" using assms(2) by linarith
  then show ?thesis using dst_probe [OF _ assms(2), of h] assms(3) by (simp add: depth_def probe_def)
qed

lemma lookup_run:
  assumes rh: "rh_inv k t" and v: "\<And>q. q < length t \<Longrightarrow> ix_hash (t ! q) = h \<Longrightarrow> verify (ix_idx (t ! q)) = eq (t ! q)" and h: "h \<noteq> 0"
    and "\<forall>j<n. \<not> stops t h eq (i + j)" and "stops t h eq (i + n)" and "i + n < length t" and "n < fuel"
    and "unat pos = probe (length t) h i" and "unat dist = i"
  shows "lookup_probe t (mask k) h verify fuel pos dist =
    (if hit t h eq (probe (length t) h (i + n)) then Some (ix_idx (t ! probe (length t) h (i + n))) else None)"
  using assms(4-)
proof (induction n arbitrary: i pos dist fuel)
  case 0
  obtain f where f: "fuel = Suc f" using 0(4) by (cases fuel) auto
  have pl: "unat pos < length t" using 0(3,5) unfolding probe_def by (metis add_0_right mod_less_divisor not_less_zero neq0_conv)
  note d = probe_dist [OF rh 0(5,6)]
  have sd: "ix_hash (t ! unat pos) = h \<Longrightarrow> \<not> depth t (unat pos) < i" using same_hash_depth [OF rh, of i h] 0(3,5) by simp
  show ?case using 0(2,5) d v [OF pl] h sd unfolding f by (auto simp: stops_def hit_def Let_def)
next
  case (Suc n)
  obtain f where f: "fuel = Suc f" using Suc.prems(4) by (cases fuel) auto
  have il: "Suc i < length t" using Suc.prems(3) by linarith
  have pl: "unat pos < length t" using il Suc.prems(5) unfolding probe_def by (metis mod_less_divisor not_less_zero neq0_conv)
  note st = probe_step [OF rh Suc.prems(5,6) il]
  have ns: "\<not> stops t h eq i" using Suc.prems(1) by force
  have step: "lookup_probe t (mask k) h verify fuel pos dist = lookup_probe t (mask k) h verify f ((pos + 1) AND mask k) (dist + 1)"
    using ns st(3) v [OF pl] h Suc.prems(5) unfolding f by (auto simp: stops_def hit_def Let_def)
  have nx: "\<forall>j<n. \<not> stops t h eq (Suc i + j)" "stops t h eq (Suc i + n)" "Suc i + n < length t" "n < f"
  proof -
    show "\<forall>j<n. \<not> stops t h eq (Suc i + j)"
    proof (intro allI impI)
      fix j assume "j < n"
      then have "\<not> stops t h eq (i + Suc j)" using Suc.prems(1) by blast
      then show "\<not> stops t h eq (Suc i + j)" by simp
    qed
  qed (use Suc.prems(2-4) f in simp_all)
  show ?case using Suc.IH [OF nx st(1,2)] unfolding step by simp
qed

lemma Lookup_exact:
  assumes rh: "rh_inv k t" and "spare t" and h: "h \<noteq> 0"
    and v: "\<And>q. q < length t \<Longrightarrow> ix_hash (t ! q) = h \<Longrightarrow> verify (ix_idx (t ! q)) = eq (t ! q)"
  shows "(\<exists>q<length t. hit t h eq q \<and> Lookup t (mask k) (2 ^ k) h verify = Inr (ix_idx (t ! q)))
    \<or> (\<forall>q<length t. \<not> hit t h eq q) \<and> Lookup t (mask k) (2 ^ k) h verify = Inl NotFound"
proof -
  note S = rh_shape [OF rh]
  obtain n where n: "n < length t" "stops t h eq n" "\<forall>j<n. \<not> stops t h eq j" by (rule first_stop [OF assms(1,2)])
  let ?p = "probe (length t) h n"
  have pl: "?p < length t" using n(1) unfolding probe_def by (intro mod_less_divisor) linarith
  have u: "unat (2 ^ k :: u32) = length t" using S(1,2) by (simp add: unat_exp)
  have "lookup_probe t (mask k) h verify (length t) (ucast h AND mask k) 0 = (if hit t h eq ?p then Some (ix_idx (t ! ?p)) else None)"
    using lookup_run [where verify = verify and eq = eq, OF rh v h, of n 0 "length t"] n unat_home [OF S(3), of h] S(1,4) by (simp add: probe_def home_less)
  then have L: "Lookup t (mask k) (2 ^ k) h verify = (if hit t h eq ?p then Inr (ix_idx (t ! ?p)) else Inl NotFound)"
    by (simp add: Lookup_def u)
  show ?thesis
  proof (cases "hit t h eq ?p")
    case True
    then show ?thesis using L pl by (intro disjI1 exI [of _ ?p]) simp
  next
    case False
    have "FindPos t (mask k) h eq = Some (if hit t h eq ?p then of_nat ?p else NPOS)"
      unfolding FindPos_def using find_run [OF rh, of n h eq 0] n unat_home [OF S(3), of h] S(1,4) by (simp add: probe_def home_less)
    then have "FindPos t (mask k) h eq = Some NPOS" using False by simp
    then have "\<forall>q<length t. \<not> hit t h eq q" using FindPos_exact [OF assms(1,2), of h eq] by (metis option.inject)
    then show ?thesis using L False by simp
  qed
qed

context keyed_index
begin

lemma index_lookup:
  assumes r: "index_rel k t m" "card (dom m) < 2 ^ k" and ok: "\<And>b s. m b = Some s \<Longrightarrow> verify s = eq b a"
  shows "Lookup t (mask k) (2 ^ k) (hashOf a) verify = (case m a of None \<Rightarrow> Inl NotFound | Some s \<Rightarrow> Inr s)"
proof -
  let ?eq = "\<lambda>e. eq (ix_key e) a"
  have rh: "rh_inv k t" using r(1) by (simp add: index_rel_def)
  have v: "verify (ix_idx (t ! q)) = ?eq (t ! q)" if "q < length t" "ix_hash (t ! q) = hashOf a" for q
  proof -
    have "t ! q \<in># contents t" by (rule in_contents [OF that(1)]) (use that(2) hash_nonzero in simp)
    then obtain b s where "m b = Some s" "t ! q = \<lparr>ix_hash = hashOf b, ix_idx = s, ix_key = b\<rparr>" using in_index [OF r(1)] by blast
    then show ?thesis using ok by simp
  qed
  consider (found) q where "q < length t" "hit t (hashOf a) ?eq q" "Lookup t (mask k) (2 ^ k) (hashOf a) verify = Inr (ix_idx (t ! q))"
    | (none) "\<forall>q<length t. \<not> hit t (hashOf a) ?eq q" "Lookup t (mask k) (2 ^ k) (hashOf a) verify = Inl NotFound"
    using Lookup_exact [where verify = verify and eq = ?eq, OF rh index_spare [OF r] hash_nonzero v] by blast
  then show ?thesis
  proof cases
    case found
    then obtain s where "m a = Some s" "t ! q = \<lparr>ix_hash = hashOf a, ix_idx = s, ix_key = a\<rparr>" using index_hit [OF r(1)] by blast
    then show ?thesis using found(3) by simp
  next
    case none
    have "m a = None"
    proof (rule ccontr)
      assume "m a \<noteq> None"
      then obtain s where s: "m a = Some s" by blast
      then obtain q where "q < length t" "t ! q = \<lparr>ix_hash = hashOf a, ix_idx = s, ix_key = a\<rparr>"
        using in_index [OF r(1)] contents_iff [of _ t] by metis
      then show False using none(1) index_hit [OF r(1)] s by blast
    qed
    then show ?thesis using none(2) by simp
  qed
qed

end

section \<open>All holders of a tag\<close>

lemma mset_rotated: "mset (map (\<lambda>i. t ! ((c + i) mod length t)) [0..<length t]) = mset t"
proof -
  have "map (\<lambda>i. t ! ((c + i) mod length t)) [0..<length t] = rotate c t"
    by (intro nth_equalityI) (simp_all add: nth_rotate)
  then show ?thesis by (simp add: rotate_drop_take) (metis append_take_drop_id mset_append union_commute)
qed

definition holders :: "TagIndexEntry list \<Rightarrow> u64 \<Rightarrow> nat list \<Rightarrow> u32 list" where
  "holders t h is = map ix_idx (filter (\<lambda>e. ix_hash e = h) (map (\<lambda>i. t ! probe (length t) h i) is))"

abbreviation walk_ends :: "TagIndexEntry list \<Rightarrow> u64 \<Rightarrow> nat \<Rightarrow> bool" where
  "walk_ends t h \<equiv> stops t h (\<lambda>_. False)"

lemma tag_run:
  assumes rh: "rh_inv k t" and h: "h \<noteq> 0"
    and "\<forall>j<n. \<not> walk_ends t h (i + j)" and "walk_ends t h (i + n)" and "i + n < length t" and "n < fuel"
    and "unat pos = probe (length t) h i" and "unat dist = i" and "unat found \<le> i" and "length out = min (unat maxOut) (unat found)"
  shows "\<exists>found' out'. tag_probe t (mask k) h maxOut fuel pos dist found out = (found', out')
    \<and> unat found' = unat found + length (holders t h [i..<i + n])
    \<and> out' = out @ take (unat maxOut - unat found) (holders t h [i..<i + n])"
  using assms(3-)
proof (induction n arbitrary: i pos dist fuel found out)
  case 0
  obtain f where f: "fuel = Suc f" using 0(4) by (cases fuel) auto
  note d = probe_dist [OF rh 0(5,6)]
  have sd: "ix_hash (t ! unat pos) = h \<Longrightarrow> \<not> depth t (unat pos) < i" using same_hash_depth [OF rh, of i h] 0(3,5) by simp
  have "tag_probe t (mask k) h maxOut fuel pos dist found out = (found, out)"
    using 0(2,5) d h sd unfolding f by (auto simp: stops_def hit_def Let_def)
  then show ?case by (simp add: holders_def)
next
  case (Suc n)
  obtain f where f: "fuel = Suc f" using Suc.prems(4) by (cases fuel) auto
  have il: "Suc i < length t" using Suc.prems(3) by linarith
  note st = probe_step [OF rh Suc.prems(5,6) il]
  have ns: "\<not> walk_ends t h i" using Suc.prems(1) by (metis add_0_right zero_less_Suc)
  have nx: "\<forall>j<n. \<not> walk_ends t h (Suc i + j)" "walk_ends t h (Suc i + n)" "Suc i + n < length t" "n < f"
  proof -
    show "\<forall>j<n. \<not> walk_ends t h (Suc i + j)"
    proof (intro allI impI)
      fix j assume "j < n"
      then have "\<not> walk_ends t h (i + Suc j)" using Suc.prems(1) by blast
      then show "\<not> walk_ends t h (Suc i + j)" by simp
    qed
  qed (use Suc.prems(2-4) f in simp_all)
  have o: "occ t (unat pos)" "\<not> depth t (unat pos) < i" using ns Suc.prems(5) by (auto simp: stops_def hit_def Let_def)
  let ?e = "t ! unat pos"
  have hd: "holders t h [i..<i + Suc n] = (if ix_hash ?e = h then [ix_idx ?e] else []) @ holders t h [Suc i..<Suc i + n]"
    using Suc.prems(5) by (simp add: holders_def upt_conv_Cons del: upt_Suc)
  show ?case
  proof (cases "ix_hash ?e = h")
    case True
    let ?out = "if found < maxOut then out @ [ix_idx ?e] else out"
    have fs: "unat (found + 1) = Suc (unat found)"
      using Suc.prems(7) il rh_shape(5) [OF rh] by (subst unat_add_small) simp_all
    have lo: "length ?out = min (unat maxOut) (unat (found + 1))" using Suc.prems(8) fs by (auto simp: word_less_nat_alt)
    have step: "tag_probe t (mask k) h maxOut fuel pos dist found out = tag_probe t (mask k) h maxOut f ((pos + 1) AND mask k) (dist + 1) (found + 1) ?out"
      using True o h unfolding f by (simp add: Let_def)
    obtain found' out' where r: "tag_probe t (mask k) h maxOut f ((pos + 1) AND mask k) (dist + 1) (found + 1) ?out = (found', out')"
      "unat found' = unat (found + 1) + length (holders t h [Suc i..<Suc i + n])"
      "out' = ?out @ take (unat maxOut - unat (found + 1)) (holders t h [Suc i..<Suc i + n])"
      using Suc.IH [OF nx st(1,2) _ lo] Suc.prems(7) fs by (metis Suc_le_mono)
    have "out' = out @ take (unat maxOut - unat found) (holders t h [i..<i + Suc n])"
      unfolding r(3) hd fs using True by (cases "unat maxOut - unat found") (auto simp: word_less_nat_alt Suc_diff_Suc diff_Suc)
    then show ?thesis using r(1,2) fs True unfolding step hd by simp
  next
    case False
    have step: "tag_probe t (mask k) h maxOut fuel pos dist found out = tag_probe t (mask k) h maxOut f ((pos + 1) AND mask k) (dist + 1) found out"
      using False o st(3) unfolding f by (simp add: Let_def)
    show ?thesis
      using Suc.IH [OF nx st(1,2) le_SucI [OF Suc.prems(7)] Suc.prems(8)] False unfolding step hd by simp
  qed
qed

lemma tag_walk_complete:
  assumes rh: "rh_inv k t" and h: "h \<noteq> 0" and n: "n < length t" "walk_ends t h n"
  shows "mset (holders t h [0..<n]) = image_mset ix_idx (filter_mset (\<lambda>e. ix_hash e = h) (contents t))"
proof -
  have none: "ix_hash (t ! probe (length t) h i) \<noteq> h" if i: "n \<le> i" "i < length t" for i
  proof
    let ?q = "probe (length t) h i"
    assume e: "ix_hash (t ! ?q) = h"
    have q: "?q < length t" using i(2) unfolding probe_def by (intro mod_less_divisor) linarith
    have "occ t (probe (length t) h n) \<and> n \<le> depth t (probe (length t) h n)"
      using entry_chain [OF rh q, of n] same_hash_depth [OF rh i(2) e] e h i(1) by (simp add: probe_def)
    then show False using n(2) by (simp add: stops_def hit_def Let_def)
  qed
  have "[0..<length t] = [0..<n] @ [n..<length t]" using n(1) upt_add_eq_append [of 0 n "length t - n"] by simp
  moreover have "filter (\<lambda>e. ix_hash e = h) (map (\<lambda>i. t ! probe (length t) h i) [n..<length t]) = []"
    using none by (auto simp: filter_empty_conv)
  ultimately have "holders t h [0..<n] = holders t h [0..<length t]" by (simp add: holders_def)
  moreover have "mset (holders t h [0..<length t]) = image_mset ix_idx (filter_mset (\<lambda>e. ix_hash e = h) (mset t))"
    unfolding holders_def mset_map mset_filter probe_def using mset_rotated [of t "home (length t) h"] by (simp add: mset_map)
  moreover have "filter_mset (\<lambda>e. ix_hash e = h) (contents t) = filter_mset (\<lambda>e. ix_hash e = h) (mset t)"
    unfolding contents_def filter_filter_mset using h by (intro filter_mset_cong) auto
  ultimately show ?thesis by simp
qed

lemma tag_probe_exact:
  assumes rh: "rh_inv k t" and "spare t" and h: "h \<noteq> 0"
  shows "\<exists>found out. tag_probe t (mask k) h maxOut (unat (2 ^ k :: u32)) (ucast h AND mask k) 0 0 [] = (found, out)
    \<and> unat found = size (filter_mset (\<lambda>e. ix_hash e = h) (contents t)) \<and> length out = min (unat maxOut) (unat found)
    \<and> mset out \<subseteq># image_mset ix_idx (filter_mset (\<lambda>e. ix_hash e = h) (contents t))"
proof -
  note S = rh_shape [OF rh]
  obtain n where n: "n < length t" "walk_ends t h n" "\<forall>j<n. \<not> walk_ends t h j" by (rule first_stop [OF assms(1,2)])
  have u: "unat (2 ^ k :: u32) = length t" using S(1,2) by (simp add: unat_exp)
  obtain found out where r: "tag_probe t (mask k) h maxOut (length t) (ucast h AND mask k) 0 0 [] = (found, out)"
    "unat found = length (holders t h [0..<n])" "out = take (unat maxOut) (holders t h [0..<n])"
    using tag_run [OF rh h, of n 0 "length t" "ucast h AND mask k" 0 0 "[]" maxOut] n unat_home [OF S(3), of h] S(1,4)
    by (auto simp: probe_def home_less)
  note M = tag_walk_complete [OF rh h n(1,2)]
  have "size (image_mset ix_idx (filter_mset (\<lambda>e. ix_hash e = h) (contents t))) = length (holders t h [0..<n])"
    unfolding M [symmetric] by simp
  moreover have "mset (take (unat maxOut) (holders t h [0..<n])) \<subseteq># mset (holders t h [0..<n])"
    by (metis append_take_drop_id mset_append mset_subset_eq_add_left)
  ultimately show ?thesis using r M unfolding u by (intro exI [of _ found] exI [of _ out]) simp
qed

end
