(* ===== verification/Peer_Map.thy ===== *)
theory Peer_Map
  imports Peer_Probe
begin

text \<open>
  The peer table implements three finite maps: every operation of \<^verbatim>\<open>peer_table.cpp\<close> returns,
  answers what the maps of addresses, identities and tags prescribe, and keeps the indexes, the
  slot pool and the peers in step, over every sequence of calls.
\<close>

text \<open>Proof of liveness through the address index, as the operations that name a slot do it.\<close>

lemma live_check:
  assumes R: "idx_ok fam k pt m" "peers_ok pt m"
  obtains ap where "find_addr fam pt (pe_addr (peer_at pt s)) = Some ap"
    "ap = NPOS \<or> ix_idx (pt_addrIdx pt ! unat ap) \<noteq> s \<longleftrightarrow> s \<notin> pm_live m"
    "s \<in> pm_live m \<longrightarrow> unat ap < length (pt_addrIdx pt) \<and> pm_addr m (pe_addr (peer_at pt s)) = Some s
       \<and> pt_addrIdx pt ! unat ap = \<lparr>ix_hash = HashAddr fam (pe_addr (peer_at pt s)), ix_idx = s, ix_key = pe_addr (peer_at pt s)\<rparr>"
proof -
  let ?a = "pe_addr (peer_at pt s)"
  obtain ap where ap: "find_addr fam pt ?a = Some ap" "ap = NPOS \<longleftrightarrow> pm_addr m ?a = None"
    "ap \<noteq> NPOS \<longrightarrow> unat ap < length (pt_addrIdx pt) \<and> (\<exists>s. pm_addr m ?a = Some s
       \<and> pt_addrIdx pt ! unat ap = \<lparr>ix_hash = HashAddr fam ?a, ix_idx = s, ix_key = ?a\<rparr>)"
    by (rule find_addr_exact [OF R(1), of ?a])
  have li: "s \<in> pm_live m \<longleftrightarrow> pm_addr m ?a = Some s" by (rule live_iff [OF R(2)])
  show thesis
  proof (cases "ap = NPOS")
    case True
    then have "pm_addr m ?a = None" using ap(2) by blast
    then have nl: "s \<notin> pm_live m" unfolding li by simp
    show thesis
      by (rule that [OF ap(1)]) (simp_all only: True nl simp_thms)
  next
    case False
    then obtain s' where s': "unat ap < length (pt_addrIdx pt)" "pm_addr m ?a = Some s'"
      "pt_addrIdx pt ! unat ap = \<lparr>ix_hash = HashAddr fam ?a, ix_idx = s', ix_key = ?a\<rparr>" using ap(3) by blast
    have ls: "s \<in> pm_live m \<longleftrightarrow> s' = s" unfolding li s'(2) by simp
    have "ix_idx (pt_addrIdx pt ! unat ap) = s'" unfolding s'(3) by simp
    then have 1: "ap = NPOS \<or> ix_idx (pt_addrIdx pt ! unat ap) \<noteq> s \<longleftrightarrow> s \<notin> pm_live m" using False ls by simp
    show thesis
    proof (rule that [OF ap(1) 1], rule impI)
      assume "s \<in> pm_live m"
      then have "s' = s" using ls by blast
      then show "unat ap < length (pt_addrIdx pt) \<and> pm_addr m ?a = Some s
        \<and> pt_addrIdx pt ! unat ap = \<lparr>ix_hash = HashAddr fam ?a, ix_idx = s, ix_key = ?a\<rparr>" using s' by simp
    qed
  qed
qed

lemma in_slots: "sp_capacity (pt_pool pt) \<le> s \<longleftrightarrow> s \<notin> pt_slots pt"
  by (simp add: not_less)

lemma ran_id:
  assumes "peers_ok pt m" and "s \<in> pm_live m" shows "s \<in> ran (pm_id m) \<longleftrightarrow> pe_hasId (peer_at pt s)"
  using peers_okD(2) [OF assms(1)] assms(2) unfolding ran_def by blast

lemma BindId_step:
  assumes rel: "pt_rel fam k j pt m"
  shows "step_ok fam k j pt m (BindPeerId s pid)"
proof -
  note R = pt_relD [OF rel] note I = idx_okD [OF R(1)] note S = slots_okD [OF R(3)] note P = peers_okD [OF R(4)]
  note up = table_up [OF R(1)] in_slots
  let ?p = "peer_at pt s"
  obtain ap where ap: "find_addr fam pt (pe_addr ?p) = Some ap"
    "ap = NPOS \<or> ix_idx (pt_addrIdx pt ! unat ap) \<noteq> s \<longleftrightarrow> s \<notin> pm_live m" by (rule live_check [OF R(1,4)])
  obtain bp where bp: "find_id pt pid = Some bp" "bp = NPOS \<longleftrightarrow> pm_id m pid = None" by (rule find_id_exact [OF R(1,4)])
  consider (bad) "s \<notin> pt_slots pt" | (dead) "s \<in> pt_slots pt" "s \<notin> pm_live m"
    | (dup) "s \<in> pt_slots pt" "s \<in> pm_live m" "pe_hasId ?p \<or> bp \<noteq> NPOS"
    | (new) "s \<in> pt_slots pt" "s \<in> pm_live m" "\<not> pe_hasId ?p" "bp = NPOS" by blast
  then show ?thesis
  proof cases
    case bad
    then show ?thesis using up by (intro step_stays [OF rel]) (simp_all add: BindId_def)
  next
    case dead
    then have "BindId fam s pid pt = Some (NotFound, pt)"
      using up ap(2) by (simp add: BindId_def ap(1) Let_def)
    then show ?thesis using dead by (intro step_stays [OF rel]) simp_all
  next
    case dup
    have "\<not> (ap = NPOS \<or> ix_idx (pt_addrIdx pt ! unat ap) \<noteq> s)" using dup(2) ap(2) by blast
    then have "BindId fam s pid pt = Some (AlreadyPending, pt)"
      using up dup(1,3) by (auto simp: BindId_def ap(1) bp(1) Let_def)
    moreover have "s \<in> ran (pm_id m) \<or> pm_id m pid \<noteq> None" using dup(3) ran_id [OF R(4) dup(2)] bp(2) by blast
    ultimately show ?thesis using dup(1,2) by (intro step_stays [OF rel]) simp_all
  next
    case new
    have cd: "card (dom (pm_id m)) < 2 ^ k" using ids_fewer [OF R(1,4)] by simp
    have none: "pm_id m pid = None" using bp(2) new(4) by blast
    obtain bi where bi: "InsertEntry (pt_bcpIdx pt) (mask k) (HashId pid) s pid = Some bi" "id_index.index_rel k bi ((pm_id m)(pid \<mapsto> s))"
      by (rule id_index.index_insert [OF I(2) cd none TrueI])
    let ?pt = "pt\<lparr>pt_peers := (pt_peers pt)[unat s := ?p\<lparr>pe_id := pid, pe_hasId := True\<rparr>], pt_bcpIdx := bi, pt_version := pt_version pt + 2\<rparr>"
    let ?m = "m\<lparr>pm_id := (pm_id m)(pid \<mapsto> s)\<rparr>"
    have nap: "\<not> (ap = NPOS \<or> ix_idx (pt_addrIdx pt ! unat ap) \<noteq> s)" using new(2) ap(2) by blast
    have step: "BindId fam s pid pt = Some (Ok, ?pt)"
      using up nap new(1,3,4) bi(1) I(3) by (simp add: BindId_def ap(1) bp(1) Let_def)
    have ul: "unat s < length (pt_peers pt)" by (rule slot_in_peers [OF R(3) new(1)])
    have spec: "pt_spec (pt_slots pt) (unat (pt_peerCapacity pt)) (unat (pt_tagCapacity pt)) m (BindPeerId s pid) (Done Ok) ?m"
      using new none ran_id [OF R(4) new(2)] by simp
    have "idx_ok fam k ?pt ?m" using bi(2) I unfolding idx_ok_def by simp
    moreover have "tags_ok j ?pt ?m" using R(2) unfolding tags_ok_def by simp
    moreover have "slots_ok ?pt ?m" using S unfolding slots_ok_def by simp
    moreover have "peers_ok ?pt ?m"
    proof -
      have pa: "peer_at ?pt s' = (if s' = s then ?p\<lparr>pe_id := pid, pe_hasId := True\<rparr> else peer_at pt s')" for s'
        using peer_at_upd [OF ul] by simp
      have ni: "pm_id m i \<noteq> Some s" for i using P(2) new(3) by blast
      have 1: "pe_addr (peer_at ?pt s') = a" if "pm_addr ?m a = Some s'" for a s' using that P(1) [of a s'] unfolding pa by auto
      have 2: "pm_id ?m i = Some s' \<longleftrightarrow> s' \<in> pm_live ?m \<and> pe_hasId (peer_at ?pt s') \<and> pe_id (peer_at ?pt s') = i" for i s'
        using P(2) [of i s'] ni none new(2) unfolding pa by auto
      have 3: "snd x \<in> pm_live ?m" if "x \<in># pm_tags ?m" for x using P(3) [of x] that by simp
      have 4: "(pe_freeWhenRead (peer_at ?pt s') \<longleftrightarrow> s' \<in> pm_parked ?m) \<and> (pe_emitting (peer_at ?pt s') \<longleftrightarrow> s' \<in> pm_emitting ?m)"
        if "s' \<in> pt_slots ?pt" for s' unfolding pa using P(4) [of s'] that by auto
      show ?thesis unfolding peers_ok_def using 1 2 3 4 by blast
    qed
    moreover have "pm_emitting ?m \<subseteq> pt_slots ?pt" using R(5) by simp
    ultimately have "pt_rel fam k j ?pt ?m" unfolding pt_rel_def by blast
    moreover have "keeps pt ?pt" by (simp add: keeps_def)
    moreover have "pt_step fam pt (BindPeerId s pid) = Some (Done Ok, ?pt)" by (simp add: step)
    ultimately show ?thesis unfolding step_ok_def using spec by blast
  qed
qed

lemma Move_step:
  assumes rel: "pt_rel fam k j pt m" and c: "comparable addr"
  shows "step_ok fam k j pt m (Move s addr)"
proof -
  note R = pt_relD [OF rel] note I = idx_okD [OF R(1)] note S = slots_okD [OF R(3)] note P = peers_okD [OF R(4)]
  note up = table_up [OF R(1)] in_slots comparable_IsSet [OF c]
  let ?p = "peer_at pt s" and ?old = "pe_addr (peer_at pt s)"
  obtain ap where ap: "find_addr fam pt ?old = Some ap"
    "ap = NPOS \<or> ix_idx (pt_addrIdx pt ! unat ap) \<noteq> s \<longleftrightarrow> s \<notin> pm_live m"
    "s \<in> pm_live m \<longrightarrow> unat ap < length (pt_addrIdx pt) \<and> pm_addr m ?old = Some s
       \<and> pt_addrIdx pt ! unat ap = \<lparr>ix_hash = HashAddr fam ?old, ix_idx = s, ix_key = ?old\<rparr>" by (rule live_check [OF R(1,4)])
  obtain np where np: "find_addr fam pt addr = Some np" "np = NPOS \<longleftrightarrow> pm_addr m addr = None" by (rule find_addr_exact [OF R(1)])
  have same: "Address_eq addr ?old \<longleftrightarrow> pm_addr m addr = Some s" if "s \<in> pm_live m"
    using ap(3) that Address_eq_same c one_addr [OF R(4)] unfolding comparable_def by metis
  consider (bad) "s \<notin> pt_slots pt" | (dead) "s \<in> pt_slots pt" "s \<notin> pm_live m"
    | (same) "s \<in> pt_slots pt" "s \<in> pm_live m" "pm_addr m addr = Some s"
    | (dup) "s \<in> pt_slots pt" "s \<in> pm_live m" "pm_addr m addr \<noteq> Some s" "pm_addr m addr \<noteq> None"
    | (new) "s \<in> pt_slots pt" "s \<in> pm_live m" "pm_addr m addr = None" by blast
  then show ?thesis
  proof cases
    case bad
    then show ?thesis using up by (intro step_stays [OF rel]) (simp_all add: UpdateAddress_def)
  next
    case dead
    then have "UpdateAddress fam s addr pt = Some (NotFound, pt)" using up ap(2) by (simp add: UpdateAddress_def ap(1) Let_def)
    then show ?thesis using dead by (intro step_stays [OF rel]) simp_all
  next
    case same
    have "\<not> (ap = NPOS \<or> ix_idx (pt_addrIdx pt ! unat ap) \<noteq> s)" using same(2) ap(2) by blast
    then have "UpdateAddress fam s addr pt = Some (Ok, pt)"
      using up same(1,3) \<open>s \<in> pm_live m \<Longrightarrow> Address_eq addr ?old \<longleftrightarrow> _\<close> [OF same(2)] by (simp add: UpdateAddress_def ap(1) Let_def)
    then show ?thesis using same by (intro step_stays [OF rel]) simp_all
  next
    case dup
    have "\<not> (ap = NPOS \<or> ix_idx (pt_addrIdx pt ! unat ap) \<noteq> s)" using dup(2) ap(2) by blast
    then have "UpdateAddress fam s addr pt = Some (AlreadyPending, pt)"
      using up dup(1,3,4) same [OF dup(2)] np by (simp add: UpdateAddress_def ap(1) Let_def)
    then show ?thesis using dup by (intro step_stays [OF rel]) simp_all
  next
    case new
    note A = ap(3) [rule_format, OF new(2)]
    have cd: "card (dom (pm_addr m)) < 2 ^ k" using ids_fewer [OF R(1,4)] by simp
    obtain t1 where t1: "RemoveEntryAt (pt_addrIdx pt) (mask k) ap = Some t1" "addr_index.index_rel fam k t1 ((pm_addr m)(?old := None))"
      by (rule addr_index.index_remove [OF I(1) cd]) (use A in blast)+
    have c1: "card (dom ((pm_addr m)(?old := None))) < 2 ^ k"
      using cd card_mono [of "dom (pm_addr m)" "dom (pm_addr m) - {?old}"] I(8) by (simp add: order_le_less_trans)
    have n1: "((pm_addr m)(?old := None)) addr = None" using new(3) by simp
    obtain t2 where t2: "InsertEntry t1 (mask k) (HashAddr fam addr) s addr = Some t2"
      "addr_index.index_rel fam k t2 ((pm_addr m)(?old := None, addr \<mapsto> s))"
      by (rule addr_index.index_insert [OF t1(2) c1 n1 c])
    let ?pt = "pt\<lparr>pt_peers := (pt_peers pt)[unat s := ?p\<lparr>pe_addr := addr\<rparr>], pt_addrIdx := t2, pt_version := pt_version pt + 2\<rparr>"
    let ?m = "m\<lparr>pm_addr := (\<lambda>a. if pm_addr m a = Some s then None else pm_addr m a)(addr \<mapsto> s)\<rparr>"
    have old: "pm_addr m a = Some s \<longleftrightarrow> a = ?old" for a using A one_addr [OF R(4)] by blast
    have mm: "pm_addr ?m = (pm_addr m)(?old := None, addr \<mapsto> s)" using old by (auto simp: fun_eq_iff)
    have nap: "\<not> (ap = NPOS \<or> ix_idx (pt_addrIdx pt ! unat ap) \<noteq> s)" using new(2) ap(2) by blast
    have step: "UpdateAddress fam s addr pt = Some (Ok, ?pt)"
      using up nap new(1,3) same [OF new(2)] np t1(1) t2(1) I(3) by (simp add: UpdateAddress_def ap(1) Let_def)
    have ul: "unat s < length (pt_peers pt)" by (rule slot_in_peers [OF R(3) new(1)])
    have spec: "pt_spec (pt_slots pt) (unat (pt_peerCapacity pt)) (unat (pt_tagCapacity pt)) m (Move s addr) (Done Ok) ?m"
      using new by simp
    have live: "pm_live ?m = pm_live m"
    proof -
      have "x \<in> pm_live ?m \<longleftrightarrow> x \<in> pm_live m" for x
      proof (cases "x = s")
        case True
        then show ?thesis using new(2) unfolding ran_def by auto
      next
        case False
        show ?thesis
        proof
          assume "x \<in> pm_live ?m"
          then show "x \<in> pm_live m" using False by (auto simp: ran_def split: if_splits)
        next
          assume "x \<in> pm_live m"
          then obtain a where a: "pm_addr m a = Some x" unfolding ran_def by blast
          then have "a \<noteq> addr" using new(3) by auto
          then have "pm_addr ?m a = Some x" using a False by simp
          then show "x \<in> pm_live ?m" unfolding ran_def by blast
        qed
      qed
      then show ?thesis by blast
    qed
    have oa: "?old \<noteq> addr" using A new(3) by auto
    have "dom (pm_addr ?m) = insert addr (dom (pm_addr m) - {?old})" unfolding mm using oa by auto
    moreover have "card (insert addr (dom (pm_addr m) - {?old})) = card (dom (pm_addr m))"
    proof -
      have "?old \<in> dom (pm_addr m)" "addr \<notin> dom (pm_addr m) - {?old}" using A new(3) by auto
      then show ?thesis using I(8) by (simp add: card.insert_remove card_Suc_Diff1 del: card_Diff_insert)
    qed
    ultimately have cm: "card (dom (pm_addr ?m)) = card (dom (pm_addr m))" by simp
    have "idx_ok fam k ?pt ?m"
    proof -
      have "addr_index.index_rel fam k (pt_addrIdx ?pt) (pm_addr ?m)" unfolding mm using t2(2) by simp
      moreover have "card (dom (pm_addr ?m)) = unat (pt_peerCount ?pt)" unfolding cm using I(5) by simp
      ultimately show ?thesis using I unfolding idx_ok_def by simp
    qed
    moreover have "tags_ok j ?pt ?m" using R(2) unfolding tags_ok_def by simp
    moreover have "slots_ok ?pt ?m" unfolding slots_ok_def live using S by simp
    moreover have "peers_ok ?pt ?m"
    proof -
      have pa: "peer_at ?pt s' = (if s' = s then ?p\<lparr>pe_addr := addr\<rparr> else peer_at pt s')" for s'
        using peer_at_upd [OF ul] by simp
      have 1: "pe_addr (peer_at ?pt s') = a" if "pm_addr ?m a = Some s'" for a s'
        using that P(1) [of a s'] old [of a] unfolding pa by (auto split: if_splits)
      have 2: "pm_id ?m i = Some s' \<longleftrightarrow> s' \<in> pm_live ?m \<and> pe_hasId (peer_at ?pt s') \<and> pe_id (peer_at ?pt s') = i" for i s'
        using P(2) [of i s'] unfolding live pa by simp
      have 3: "snd x \<in> pm_live ?m" if "x \<in># pm_tags ?m" for x unfolding live using P(3) [of x] that by simp
      have 4: "(pe_freeWhenRead (peer_at ?pt s') \<longleftrightarrow> s' \<in> pm_parked ?m) \<and> (pe_emitting (peer_at ?pt s') \<longleftrightarrow> s' \<in> pm_emitting ?m)"
        if "s' \<in> pt_slots ?pt" for s' unfolding pa using P(4) [of s'] that by auto
      show ?thesis unfolding peers_ok_def using 1 2 3 4 by blast
    qed
    moreover have "pm_emitting ?m \<subseteq> pt_slots ?pt" using R(5) by simp
    ultimately have "pt_rel fam k j ?pt ?m" unfolding pt_rel_def by blast
    moreover have "keeps pt ?pt" by (simp add: keeps_def)
    moreover have "pt_step fam pt (Move s addr) = Some (Done Ok, ?pt)" by (simp add: step)
    ultimately show ?thesis unfolding step_ok_def using spec by blast
  qed
qed

text \<open>Clearing the tags of a slot.\<close>

definition no_holder :: "u32 \<Rightarrow> TagIndexEntry list \<Rightarrow> nat \<Rightarrow> bool" where
  "no_holder slot t n \<longleftrightarrow> (\<forall>q<n. occ t q \<longrightarrow> ix_idx (t ! q) \<noteq> slot)"

lemma clear_at_exact:
  assumes "tag_rel j t M" and "size M < 2 ^ j" and "p < 2 ^ j" and "no_holder slot t p" and "size M = unat cnt"
  shows "\<exists>t' cnt' M'. clear_at (mask j) slot (of_nat p) t cnt = Some (t', cnt') \<and> tag_rel j t' M' \<and> M' \<subseteq># M
    \<and> filter_mset (\<lambda>x. snd x \<noteq> slot) M' = filter_mset (\<lambda>x. snd x \<noteq> slot) M \<and> size M' = unat cnt' \<and> no_holder slot t' (Suc p)"
  using assms
proof (induction "size M" arbitrary: t M cnt rule: less_induct)
  case less
  have rh: "rh_inv j t" using less.prems(1) by (simp add: tag_rel_def)
  note S = rh_shape [OF rh]
  have up: "unat (of_nat p :: u32) = p" using less.prems(3) S(1,5) by (simp add: unat_of_nat)
  show ?case
  proof (cases "occ t p \<and> ix_idx (t ! p) = slot")
    case False
    then have "clear_at (mask j) slot (of_nat p) t cnt = Some (t, cnt)"
      by (subst clear_at.simps) (auto simp: up)
    moreover have "no_holder slot t (Suc p)" using less.prems(4) False unfolding no_holder_def by (metis less_Suc_eq)
    ultimately show ?thesis using less.prems(1,5) by blast
  next
    case True
    obtain t1 where t1: "RemoveTagEntryAt t (mask j) (of_nat p) = Some t1"
      "tag_rel j t1 (M - {#(ix_hash (t ! p), slot)#})" "(ix_hash (t ! p), slot) \<in># M"
      "\<And>q. q < p \<Longrightarrow> occ t1 q \<Longrightarrow> \<exists>r<p. t1 ! q = t ! r"
      using tag_remove [OF less.prems(1,2), of "of_nat p"] less.prems(3) S(1) True unfolding up by metis
    let ?M = "M - {#(ix_hash (t ! p), slot)#}"
    have sz: "size ?M < size M" "Suc (size ?M) = size M" using t1(3) by (simp_all add: size_Diff1_less size_Suc_Diff1)
    have nh: "no_holder slot t1 p" using t1(4) less.prems(4) unfolding no_holder_def by metis
    have "cnt \<noteq> 0" using sz(1) less.prems(5) by (intro notI) simp
    then have "unat (cnt - 1) = unat cnt - 1" by (simp add: unat_minus_one)
    then have cm: "size ?M = unat (cnt - 1)" using sz(2) less.prems(5) by linarith
    have "size ?M < 2 ^ j" using sz(1) less.prems(2) by linarith
    then obtain t' cnt' M' where r: "clear_at (mask j) slot (of_nat p) t1 (cnt - 1) = Some (t', cnt')" "tag_rel j t' M'" "M' \<subseteq># ?M"
        "filter_mset (\<lambda>x. snd x \<noteq> slot) M' = filter_mset (\<lambda>x. snd x \<noteq> slot) ?M" "size M' = unat cnt'" "no_holder slot t' (Suc p)"
      using less.hyps [OF sz(1) t1(2) _ less.prems(3) nh cm] by blast
    have "clear_at (mask j) slot (of_nat p) t cnt = Some (t', cnt')"
      using True t1(1) r(1) by (subst clear_at.simps) (simp add: up)
    moreover have "M' \<subseteq># M" using r(3) by (meson diff_subset_eq_self subset_mset.order_trans)
    moreover have "filter_mset (\<lambda>x. snd x \<noteq> slot) M' = filter_mset (\<lambda>x. snd x \<noteq> slot) M" using r(4) by (simp add: filter_diff_mset)
    ultimately show ?thesis using r(2,5,6) by blast
  qed
qed

lemma clear_buckets_exact:
  assumes "tag_rel j t M" and "size M < 2 ^ j" and "p \<le> 2 ^ j" and "no_holder slot t p" and "size M = unat cnt"
  shows "\<exists>t' cnt'. clear_buckets (mask j) slot [p..<2 ^ j] t cnt = Some (t', cnt')
    \<and> tag_rel j t' (filter_mset (\<lambda>x. snd x \<noteq> slot) M) \<and> size (filter_mset (\<lambda>x. snd x \<noteq> slot) M) = unat cnt'"
  using assms
proof (induction "2 ^ j - p" arbitrary: p t M cnt)
  case 0
  then have "p = 2 ^ j" by simp
  moreover have "filter_mset (\<lambda>x. snd x \<noteq> slot) M = M"
  proof -
    have "snd x \<noteq> slot" if "x \<in># M" for x
    proof -
      have "x \<in># image_mset (\<lambda>e. (ix_hash e, ix_idx e)) (contents t)" using that tag_pairs [OF 0(2)] by simp
      then obtain e where e: "e \<in># contents t" "x = (ix_hash e, ix_idx e)" by auto
      then obtain q where "q < length t" "t ! q = e" "occ t q" unfolding contents_iff by blast
      then show ?thesis
        using 0(5) e(2) \<open>p = 2 ^ j\<close> 0(2) rh_shape(1) [of j t] unfolding no_holder_def tag_rel_def by auto
    qed
    then show ?thesis by (auto intro!: filter_mset_cong [of M M _ "\<lambda>_. True", simplified])
  qed
  ultimately show ?case using 0(2,6) by simp
next
  case (Suc d)
  then have p: "p < 2 ^ j" by simp
  obtain t1 c1 M1 where r: "clear_at (mask j) slot (of_nat p) t cnt = Some (t1, c1)" "tag_rel j t1 M1" "M1 \<subseteq># M"
    "filter_mset (\<lambda>x. snd x \<noteq> slot) M1 = filter_mset (\<lambda>x. snd x \<noteq> slot) M" "size M1 = unat c1" "no_holder slot t1 (Suc p)"
    using clear_at_exact [OF Suc.prems(1,2) p Suc.prems(4,5)] by blast
  have "size M1 < 2 ^ j" using size_mset_mono [OF r(3)] Suc.prems(2) by linarith
  moreover have "d = 2 ^ j - Suc p" "Suc p \<le> 2 ^ j" using Suc.hyps(2) p by linarith+
  ultimately have IH: "\<exists>t' cnt'. clear_buckets (mask j) slot [Suc p..<2 ^ j] t1 c1 = Some (t', cnt')
    \<and> tag_rel j t' (filter_mset (\<lambda>x. snd x \<noteq> slot) M1) \<and> size (filter_mset (\<lambda>x. snd x \<noteq> slot) M1) = unat cnt'"
    using Suc.hyps(1) [of "Suc p" t1 M1 c1] r(2,5,6) by blast
  have "[p..<2 ^ j] = p # [Suc p..<2 ^ j]" using p by (rule upt_conv_Cons)
  then show ?case using IH r(1,4) by simp
qed

lemma tags_okD:
  assumes "tags_ok j pt m"
  shows "tag_rel j (pt_tagIdx pt) (pm_tags m)" "pt_tagIdxMask pt = mask j" "pt_tagIdxCapacity pt = 2 ^ j"
    "size (pm_tags m) = unat (pt_tagCount pt)" "unat (pt_tagCount pt) \<le> unat (pt_tagCapacity pt)"
    "unat (pt_tagCapacity pt) < 2 ^ j" "size (pm_tags m) < 2 ^ j" "unat (2 ^ j :: u32) = 2 ^ j" "pt_tagIdx pt \<noteq> []"
proof -
  show T: "tag_rel j (pt_tagIdx pt) (pm_tags m)" "pt_tagIdxMask pt = mask j" "pt_tagIdxCapacity pt = 2 ^ j"
    "size (pm_tags m) = unat (pt_tagCount pt)" "unat (pt_tagCount pt) \<le> unat (pt_tagCapacity pt)"
    "unat (pt_tagCapacity pt) < 2 ^ j" using assms unfolding tags_ok_def by blast+
  then show "size (pm_tags m) < 2 ^ j" by simp
  have rh: "rh_inv j (pt_tagIdx pt)" using T(1) by (simp add: tag_rel_def)
  show "unat (2 ^ j :: u32) = 2 ^ j" using rh_shape(2) [OF rh] by (simp add: unat_exp)
  show "pt_tagIdx pt \<noteq> []" using rh_shape(4) [OF rh] by auto
qed

lemma ClearTags_exact:
  assumes T: "tags_ok j pt m"
  obtains tagIdx tagCount where "ClearTagsLocked slot pt = Some (pt\<lparr>pt_tagIdx := tagIdx, pt_tagCount := tagCount\<rparr>)"
    "tag_rel j tagIdx (filter_mset (\<lambda>x. snd x \<noteq> slot) (pm_tags m))"
    "size (filter_mset (\<lambda>x. snd x \<noteq> slot) (pm_tags m)) = unat tagCount"
proof -
  note T' = tags_okD [OF T]
  have "no_holder slot (pt_tagIdx pt) 0" by (simp add: no_holder_def)
  then obtain t c where "clear_buckets (mask j) slot [0..<2 ^ j] (pt_tagIdx pt) (pt_tagCount pt) = Some (t, c)"
      "tag_rel j t (filter_mset (\<lambda>x. snd x \<noteq> slot) (pm_tags m))"
      "size (filter_mset (\<lambda>x. snd x \<noteq> slot) (pm_tags m)) = unat c"
    using clear_buckets_exact [OF T'(1,7), of 0 slot "pt_tagCount pt"] T'(4) by auto
  then show thesis using that T'(2,3,8,9) by (simp add: ClearTagsLocked_def)
qed

lemma tags_change:
  assumes rel: "pt_rel fam k j pt m" and live: "\<And>x. x \<in># M \<Longrightarrow> snd x \<in> pm_live m"
    and t: "tag_rel j ti M" "size M = unat tc" "unat tc \<le> unat (pt_tagCapacity pt)"
  shows "pt_rel fam k j (pt\<lparr>pt_tagIdx := ti, pt_version := v, pt_tagCount := tc\<rparr>) (m\<lparr>pm_tags := M\<rparr>)"
    "keeps pt (pt\<lparr>pt_tagIdx := ti, pt_version := v, pt_tagCount := tc\<rparr>)"
proof -
  note R = pt_relD [OF rel] note T = tags_okD [OF R(2)] note P = peers_okD [OF R(4)]
  let ?pt = "pt\<lparr>pt_tagIdx := ti, pt_version := v, pt_tagCount := tc\<rparr>" and ?m = "m\<lparr>pm_tags := M\<rparr>"
  have "idx_ok fam k ?pt ?m" using R(1) unfolding idx_ok_def by simp
  moreover have "tags_ok j ?pt ?m" using T t unfolding tags_ok_def by simp
  moreover have "slots_ok ?pt ?m" using R(3) unfolding slots_ok_def by simp
  moreover have "peers_ok ?pt ?m"
  proof -
    have e: "pt_peers ?pt = pt_peers pt" "pt_slots ?pt = pt_slots pt" "pm_addr ?m = pm_addr m" "pm_id ?m = pm_id m"
      "pm_parked ?m = pm_parked m" "pm_emitting ?m = pm_emitting m" "pm_tags ?m = M" by simp_all
    show ?thesis unfolding peers_ok_def e using P(1,2,4) live by blast
  qed
  ultimately show "pt_rel fam k j ?pt ?m" using R(5) unfolding pt_rel_def by simp
  show "keeps pt ?pt" by (simp add: keeps_def)
qed

lemma UnbindTags_step:
  assumes rel: "pt_rel fam k j pt m"
  shows "step_ok fam k j pt m (UnbindPeerTags s)"
proof -
  note R = pt_relD [OF rel] note T = tags_okD [OF R(2)]
  obtain ti tc where t: "ClearTagsLocked s pt = Some (pt\<lparr>pt_tagIdx := ti, pt_tagCount := tc\<rparr>)"
    "tag_rel j ti (filter_mset (\<lambda>x. snd x \<noteq> s) (pm_tags m))" "size (filter_mset (\<lambda>x. snd x \<noteq> s) (pm_tags m)) = unat tc"
    by (rule ClearTags_exact [OF R(2)])
  let ?pt = "pt\<lparr>pt_tagIdx := ti, pt_version := pt_version pt + 2, pt_tagCount := tc\<rparr>"
  let ?m = "m\<lparr>pm_tags := filter_mset (\<lambda>x. snd x \<noteq> s) (pm_tags m)\<rparr>"
  have le: "unat tc \<le> unat (pt_tagCapacity pt)"
    using size_filter_mset_lesseq [of "\<lambda>x. snd x \<noteq> s" "pm_tags m"] t(3) T(4,5) by simp
  have "snd x \<in> pm_live m" if "x \<in># filter_mset (\<lambda>x. snd x \<noteq> s) (pm_tags m)" for x
    using that peers_okD(3) [OF R(4), of x] by simp
  note ch = tags_change [OF rel this t(2,3) le]
  have "pt_step fam pt (UnbindPeerTags s) = Some (Done Ok, ?pt)"
    using table_up [OF R(1)] t(1) by (simp add: UnbindTags_def)
  moreover have "pt_spec (pt_slots pt) (unat (pt_peerCapacity pt)) (unat (pt_tagCapacity pt)) m (UnbindPeerTags s) (Done Ok) ?m" by simp
  ultimately show ?thesis unfolding step_ok_def using ch by blast
qed

lemma BindTag_step:
  assumes rel: "pt_rel fam k j pt m"
  shows "step_ok fam k j pt m (BindPeerTag s tag)"
proof -
  note R = pt_relD [OF rel] note T = tags_okD [OF R(2)] note up = table_up [OF R(1)] in_slots
  obtain ap where ap: "find_addr fam pt (pe_addr (peer_at pt s)) = Some ap"
    "ap = NPOS \<or> ix_idx (pt_addrIdx pt ! unat ap) \<noteq> s \<longleftrightarrow> s \<notin> pm_live m" by (rule live_check [OF R(1,4)])
  let ?h = "HashTag tag"
  consider (bad) "s \<notin> pt_slots pt \<or> ?h = 0" | (full) "s \<in> pt_slots pt" "?h \<noteq> 0" "pt_tagCapacity pt \<le> pt_tagCount pt"
    | (dead) "s \<in> pt_slots pt" "?h \<noteq> 0" "pt_tagCount pt < pt_tagCapacity pt" "s \<notin> pm_live m"
    | (new) "s \<in> pt_slots pt" "?h \<noteq> 0" "pt_tagCount pt < pt_tagCapacity pt" "s \<in> pm_live m" using not_less [of "pt_tagCount pt" "pt_tagCapacity pt"] by blast
  then show ?thesis
  proof cases
    case bad
    then have "BindTag fam s tag pt = Some (InvalidParam, pt)"
      using up by (cases "s \<in> pt_slots pt") (simp_all add: BindTag_def)
    then have "pt_step fam pt (BindPeerTag s tag) = Some (Done InvalidParam, pt)" by simp
    then show ?thesis by (rule step_stays [OF rel]) (simp only: pt_spec.simps bad if_True simp_thms)
  next
    case full
    then have "BindTag fam s tag pt = Some (LimitReached, pt)" using up by (simp add: BindTag_def)
    then show ?thesis using full T(4) by (intro step_stays [OF rel]) (simp_all add: word_le_nat_alt)
  next
    case dead
    then have "BindTag fam s tag pt = Some (NotFound, pt)" using up ap(2) by (simp add: BindTag_def ap(1))
    then show ?thesis using dead T(4) by (intro step_stays [OF rel]) (simp_all add: word_less_nat_alt)
  next
    case new
    obtain ti where ti: "InsertTagEntry (pt_tagIdx pt) (mask j) ?h s = Some ti" "tag_rel j ti (add_mset (?h, s) (pm_tags m))"
      by (rule tag_insert [OF T(1,7) new(2)])
    let ?pt = "pt\<lparr>pt_tagIdx := ti, pt_version := pt_version pt + 2, pt_tagCount := pt_tagCount pt + 1\<rparr>"
    let ?m = "m\<lparr>pm_tags := add_mset (?h, s) (pm_tags m)\<rparr>"
    have nap: "\<not> (ap = NPOS \<or> ix_idx (pt_addrIdx pt ! unat ap) \<noteq> s)" using new(4) ap(2) by blast
    have step: "BindTag fam s tag pt = Some (Ok, ?pt)"
      using up nap new(1,2,3) ti(1) T(2) by (simp add: BindTag_def ap(1) Let_def)
    have c: "unat (pt_tagCount pt + 1) = Suc (unat (pt_tagCount pt))" by (rule unat_Suc_small [OF new(3)])
    have lt: "unat (pt_tagCount pt) < unat (pt_tagCapacity pt)" using new(3) by (simp add: word_less_nat_alt)
    have lv: "snd x \<in> pm_live m" if "x \<in># add_mset (?h, s) (pm_tags m)" for x
      using that peers_okD(3) [OF R(4), of x] new(4) by auto
    have sz: "size (add_mset (?h, s) (pm_tags m)) = unat (pt_tagCount pt + 1)" "unat (pt_tagCount pt + 1) \<le> unat (pt_tagCapacity pt)"
      using c lt T(4) by simp_all
    note ch = tags_change [OF rel lv ti(2) sz]
    have "pt_step fam pt (BindPeerTag s tag) = Some (Done Ok, ?pt)" by (simp add: step)
    moreover have "pt_spec (pt_slots pt) (unat (pt_peerCapacity pt)) (unat (pt_tagCapacity pt)) m (BindPeerTag s tag) (Done Ok) ?m"
      using new T(4) lt by simp
    ultimately show ?thesis unfolding step_ok_def using ch by blast
  qed
qed

lemma UnbindTag_step:
  assumes rel: "pt_rel fam k j pt m"
  shows "step_ok fam k j pt m (UnbindPeerTag s tag)"
proof -
  note R = pt_relD [OF rel] note T = tags_okD [OF R(2)] note up = table_up [OF R(1)]
  let ?h = "HashTag tag"
  show ?thesis
  proof (cases "?h = 0")
    case True
    then show ?thesis using up by (intro step_stays [OF rel]) (simp_all add: UnbindTag_def)
  next
    case h: False
    obtain r where r: "FindTagPos (pt_tagIdx pt) (mask j) ?h s = Some r" "r = NPOS \<longleftrightarrow> (?h, s) \<notin># pm_tags m"
      "r \<noteq> NPOS \<Longrightarrow> unat r < length (pt_tagIdx pt) \<and> pt_tagIdx pt ! unat r = \<lparr>ix_hash = ?h, ix_idx = s, ix_key = ()\<rparr>"
      by (rule tag_find [OF T(1,7) h, of s]) (rule that)
    show ?thesis
    proof (cases "r = NPOS")
      case True
      have "(?h, s) \<notin># pm_tags m" using True r(2) by blast
      moreover have "UnbindTag s tag pt = Some (NotFound, pt)" using True up h r(1) T(2) by (simp add: UnbindTag_def Let_def)
      ultimately show ?thesis using h by (intro step_stays [OF rel]) simp_all
    next
      case False
      then have e: "unat r < length (pt_tagIdx pt)" "ix_hash (pt_tagIdx pt ! unat r) = ?h" "ix_idx (pt_tagIdx pt ! unat r) = s"
        using r(3) by simp_all
      have mem: "(?h, s) \<in># pm_tags m" using r(2) False by blast
      obtain ti where ti: "RemoveTagEntryAt (pt_tagIdx pt) (mask j) r = Some ti" "tag_rel j ti (pm_tags m - {#(?h, s)#})"
        using tag_remove [OF T(1,7) e(1)] e(2,3) h by metis
      let ?pt = "pt\<lparr>pt_tagIdx := ti, pt_version := pt_version pt + 2, pt_tagCount := pt_tagCount pt - 1\<rparr>"
      let ?m = "m\<lparr>pm_tags := pm_tags m - {#(?h, s)#}\<rparr>"
      have "size (pm_tags m) = Suc (size (pm_tags m - {#(?h, s)#}))" using mem by (metis size_Suc_Diff1)
      moreover have "pt_tagCount pt \<noteq> 0" using calculation T(4) by (intro notI) simp
      ultimately have c: "size (pm_tags m - {#(?h, s)#}) = unat (pt_tagCount pt - 1)" "unat (pt_tagCount pt - 1) \<le> unat (pt_tagCapacity pt)"
        using T(4,5) by (simp_all add: unat_minus_one)
      have "snd x \<in> pm_live m" if "x \<in># pm_tags m - {#(?h, s)#}" for x
        using in_diffD [OF that] peers_okD(3) [OF R(4), of x] by simp
      note ch = tags_change [OF rel this ti(2) c]
      have "pt_step fam pt (UnbindPeerTag s tag) = Some (Done Ok, ?pt)"
        using False up h r(1) ti(1) T(2) by (simp add: UnbindTag_def Let_def)
      moreover have "pt_spec (pt_slots pt) (unat (pt_peerCapacity pt)) (unat (pt_tagCapacity pt)) m (UnbindPeerTag s tag) (Done Ok) ?m"
        using h mem by simp
      ultimately show ?thesis unfolding step_ok_def using ch by blast
    qed
  qed
qed

text \<open>Removal of a peer.\<close>

lemma release_slot:
  assumes "slots_ok pt m" and "s \<in> pt_slots pt" and "s \<notin> free_slots (pt_pool pt)"
  obtains pool where "SlotPool_Release s (pt_pool pt) = Some pool" "\<exists>a b. pool_inv a b pool"
    "sp_capacity pool = sp_capacity (pt_pool pt)" "free_slots pool = insert s (free_slots (pt_pool pt))"
proof -
  obtain pool where p: "SlotPool_Release s (pt_pool pt) = Some pool" "\<exists>a b. pool_inv a b pool"
    "{i. i < sp_capacity pool} = pt_slots pt" "free_slots pool = insert s (free_slots (pt_pool pt))"
    using slot_pool.release_some [OF slots_okD(1) [OF assms(1)] assms(2,3)] by blast
  moreover have "sp_capacity pool = sp_capacity (pt_pool pt)"
    using p(3) by (metis mem_Collect_eq not_less_iff_gr_or_eq)
  ultimately show thesis using that by blast
qed

lemma drop_map:
  assumes "peers_ok pt m" and "pm_addr m a = Some s"
  shows "pm_addr (drop_peer s m) = (pm_addr m)(a := None)" "pm_live (drop_peer s m) = pm_live m - {s}"
    "pm_id (drop_peer s m) = (if pe_hasId (peer_at pt s) then (pm_id m)(pe_id (peer_at pt s) := None) else pm_id m)"
proof -
  have one: "pm_addr m b = Some s \<longleftrightarrow> b = a" for b using one_addr [OF assms(1)] assms(2) by blast
  then show "pm_addr (drop_peer s m) = (pm_addr m)(a := None)" by (auto simp: drop_peer_def fun_eq_iff)
  have "pm_addr (drop_peer s m) b = Some s' \<longleftrightarrow> pm_addr m b = Some s' \<and> s' \<noteq> s" for b s' by (auto simp: drop_peer_def)
  then show "pm_live (drop_peer s m) = pm_live m - {s}" unfolding ran_def by blast
  have "s \<in> pm_live m" using assms(2) unfolding ran_def by blast
  then have "pm_id m i = Some s \<longleftrightarrow> pe_hasId (peer_at pt s) \<and> pe_id (peer_at pt s) = i" for i
    using peers_okD(2) [OF assms(1)] by blast
  then show "pm_id (drop_peer s m) = (if pe_hasId (peer_at pt s) then (pm_id m)(pe_id (peer_at pt s) := None) else pm_id m)"
    by (auto simp: drop_peer_def fun_eq_iff)
qed

lemma drop_rel:
  assumes rel: "pt_rel fam k j pt m" and a: "pm_addr m a = Some s"
    and idx: "addr_index.index_rel fam k ai (pm_addr (drop_peer s m))" "id_index.index_rel k bi (pm_id (drop_peer s m))"
    and tg: "tag_rel j ti (pm_tags (drop_peer s m))" "size (pm_tags (drop_peer s m)) = unat tc" "unat tc \<le> unat (pt_tagCapacity pt)"
  shows "\<exists>pt'. DrainAndFree s (pt\<lparr>pt_addrIdx := ai, pt_bcpIdx := bi, pt_tagIdx := ti, pt_tagCount := tc,
      pt_version := v, pt_peerCount := pt_peerCount pt - 1\<rparr>) = Some pt' \<and> pt_rel fam k j pt' (drop_peer s m) \<and> keeps pt pt'"
proof -
  note R = pt_relD [OF rel] note I = idx_okD [OF R(1)] note T = tags_okD [OF R(2)]
  note S = slots_okD [OF R(3)] note P = peers_okD [OF R(4)] note D = drop_map [OF R(4) a]
  let ?m = "drop_peer s m"
  let ?q = "pt\<lparr>pt_addrIdx := ai, pt_bcpIdx := bi, pt_tagIdx := ti, pt_tagCount := tc, pt_version := v, pt_peerCount := pt_peerCount pt - 1\<rparr>"
  have live: "s \<in> pm_live m" using a unfolding ran_def by blast
  have sl: "s \<in> pt_slots pt" "s \<notin> pm_parked m" "s \<notin> free_slots (pt_pool pt)" using live S(3,5,6) by blast+
  have ul: "unat s < length (pt_peers pt)" by (rule slot_in_peers [OF R(3) sl(1)])
  have em: "pe_emitting (peer_at pt s) \<longleftrightarrow> s \<in> pm_emitting m" using P(4) [OF sl(1)] by blast
  have dm: "pm_parked ?m = (if s \<in> pm_emitting m then insert s (pm_parked m) else pm_parked m)" "pm_emitting ?m = pm_emitting m"
    "pm_tags ?m = filter_mset (\<lambda>x. snd x \<noteq> s) (pm_tags m)" by (simp_all add: drop_peer_def)
  have ids: "pm_id ?m i = Some s' \<longleftrightarrow> pm_id m i = Some s' \<and> s' \<noteq> s" for i s' by (auto simp: drop_peer_def)
  have addrs: "pm_addr ?m b = Some s' \<longleftrightarrow> pm_addr m b = Some s' \<and> s' \<noteq> s" for b s' by (auto simp: drop_peer_def)
  have card: "card (dom (pm_addr ?m)) = card (dom (pm_addr m)) - 1" "0 < card (dom (pm_addr m))"
    using I(8) domI [of "pm_addr m", OF a] unfolding D(1) by (auto simp: card_gt_0_iff)
  have "pt_peerCount pt \<noteq> 0" using card(2) I(5) by (intro notI) simp
  then have cnt: "card (dom (pm_addr ?m)) = unat (pt_peerCount pt - 1)" "unat (pt_peerCount pt - 1) \<le> unat (pt_peerCapacity pt)"
    using card(1) I(5,6) by (simp_all add: unat_minus_one)
  have build: "pt_rel fam k j q ?m \<and> keeps pt q"
    if q: "pt_addrIdx q = ai" "pt_bcpIdx q = bi" "pt_tagIdx q = ti" "pt_tagCount q = tc" "pt_peerCount q = pt_peerCount pt - 1"
      "pt_idxMask q = pt_idxMask pt" "pt_idxCapacity q = pt_idxCapacity pt" "pt_peerCapacity q = pt_peerCapacity pt"
      "pt_tagIdxMask q = pt_tagIdxMask pt" "pt_tagIdxCapacity q = pt_tagIdxCapacity pt" "pt_tagCapacity q = pt_tagCapacity pt"
      and pool: "\<exists>a b. pool_inv a b (pt_pool q)" "sp_capacity (pt_pool q) = sp_capacity (pt_pool pt)"
        "free_slots (pt_pool q) = pt_slots pt - pm_live ?m - pm_parked ?m"
      and peers: "length (pt_peers q) = length (pt_peers pt)" "\<And>s'. s' \<noteq> s \<Longrightarrow> peer_at q s' = peer_at pt s'"
        "pe_freeWhenRead (peer_at q s) \<longleftrightarrow> s \<in> pm_parked ?m" "pe_emitting (peer_at q s) \<longleftrightarrow> s \<in> pm_emitting m" for q
  proof -
    have "idx_ok fam k q ?m" unfolding idx_ok_def q using idx I(3,4,7) cnt by simp
    moreover have "tags_ok j q ?m" unfolding tags_ok_def q using T(2,3,6) tg by simp
    moreover have "slots_ok q ?m" unfolding slots_ok_def peers(1) S(2) pool(2,3) using pool(1) S(3,4,5) D(2) dm(1) sl(1)
      by (simp split: if_split) blast
    moreover have "peers_ok q ?m"
    proof -
      have 1: "pe_addr (peer_at q s') = b" if "pm_addr ?m b = Some s'" for b s' using that addrs P(1) peers(2) by metis
      have 2: "pm_id ?m i = Some s' \<longleftrightarrow> s' \<in> pm_live ?m \<and> pe_hasId (peer_at q s') \<and> pe_id (peer_at q s') = i" for i s'
      proof (cases "s' = s")
        case True
        then show ?thesis unfolding ids D(2) by blast
      next
        case False
        then show ?thesis using P(2) [of i s'] unfolding ids D(2) peers(2) [OF False] by blast
      qed
      have 3: "snd x \<in> pm_live ?m" if "x \<in># pm_tags ?m" for x using that P(3) [of x] unfolding dm(3) D(2) by simp
      have 4: "(pe_freeWhenRead (peer_at q s') \<longleftrightarrow> s' \<in> pm_parked ?m) \<and> (pe_emitting (peer_at q s') \<longleftrightarrow> s' \<in> pm_emitting ?m)"
        if "s' \<in> pt_slots q" for s'
      proof (cases "s' = s")
        case True
        then show ?thesis using peers(3,4) dm(2) by simp
      next
        case False
        then show ?thesis using P(4) [of s'] that pool(2) unfolding peers(2) [OF False] dm(1,2) by simp
      qed
      show ?thesis unfolding peers_ok_def using 1 2 3 4 by blast
    qed
    moreover have "pm_emitting ?m \<subseteq> pt_slots q" using R(5) unfolding dm(2) pool(2) .
    moreover have "keeps pt q" unfolding keeps_def q pool(2) by simp
    ultimately show ?thesis unfolding pt_rel_def by blast
  qed
  show ?thesis
  proof (cases "s \<in> pm_emitting m")
    case True
    let ?r = "?q\<lparr>pt_peers := (pt_peers pt)[unat s := (peer_at pt s)\<lparr>pe_freeWhenRead := True\<rparr>]\<rparr>"
    have "DrainAndFree s ?q = Some ?r" using True em by (simp add: DrainAndFree_def Let_def)
    moreover have "free_slots (pt_pool pt) = pt_slots pt - pm_live ?m - pm_parked ?m" using True S(6) live unfolding D(2) dm(1) by auto
    ultimately show ?thesis
      using build [of ?r] S(1) True em peer_at_upd [OF ul] ul dm(1) by simp
  next
    case False
    obtain pool where pl: "SlotPool_Release s (pt_pool pt) = Some pool" "\<exists>a b. pool_inv a b pool"
      "sp_capacity pool = sp_capacity (pt_pool pt)" "free_slots pool = insert s (free_slots (pt_pool pt))"
      by (rule release_slot [OF R(3) sl(1,3)])
    let ?r = "?q\<lparr>pt_pool := pool\<rparr>"
    have "DrainAndFree s ?q = Some ?r" using False em pl(1) by (simp add: DrainAndFree_def Let_def)
    moreover have "free_slots pool = pt_slots pt - pm_live ?m - pm_parked ?m" using False S(6) sl live unfolding pl(4) D(2) dm(1) by auto
    moreover have "\<not> pe_freeWhenRead (peer_at pt s)" using P(4) [OF sl(1)] sl(2) by blast
    ultimately show ?thesis
      using build [of ?r] pl(2,3) False em sl(2) dm(1) by simp
  qed
qed

lemma remove_common:
  assumes rel: "pt_rel fam k j pt m" and a: "pm_addr m a = Some s"
    and ap: "unat ap < length (pt_addrIdx pt)" "pt_addrIdx pt ! unat ap = \<lparr>ix_hash = HashAddr fam a, ix_idx = s, ix_key = a\<rparr>"
  obtains ai bp bi ti tc pt' where "(if pe_hasId (peer_at pt s) then find_id pt (pe_id (peer_at pt s)) else Some NPOS) = Some bp"
    "RemoveEntryAt (pt_addrIdx pt) (pt_idxMask pt) ap = Some ai"
    "(if bp \<noteq> NPOS then RemoveEntryAt (pt_bcpIdx pt) (pt_idxMask pt) bp else Some (pt_bcpIdx pt)) = Some bi"
    "ClearTagsLocked s (pt\<lparr>pt_addrIdx := ai, pt_bcpIdx := bi\<rparr>) = Some (pt\<lparr>pt_addrIdx := ai, pt_bcpIdx := bi, pt_tagIdx := ti, pt_tagCount := tc\<rparr>)"
    "DrainAndFree s (pt\<lparr>pt_addrIdx := ai, pt_bcpIdx := bi, pt_tagIdx := ti, pt_tagCount := tc,
      pt_version := pt_version pt + 2, pt_peerCount := pt_peerCount pt - 1\<rparr>) = Some pt'"
    "pt_rel fam k j pt' (drop_peer s m)" "keeps pt pt'"
    "pe_hasId (peer_at pt s) \<Longrightarrow> bp \<noteq> NPOS \<and> pm_id m (pe_id (peer_at pt s)) = Some s"
proof -
  note R = pt_relD [OF rel] note I = idx_okD [OF R(1)] note T = tags_okD [OF R(2)] note P = peers_okD [OF R(4)]
  note D = drop_map [OF R(4) a]
  let ?i = "pe_id (peer_at pt s)"
  have cd: "card (dom (pm_addr m)) < 2 ^ k" "card (dom (pm_id m)) < 2 ^ k" using ids_fewer [OF R(1,4)] by simp_all
  have live: "s \<in> pm_live m" using a unfolding ran_def by blast
  obtain ai where ai: "RemoveEntryAt (pt_addrIdx pt) (mask k) ap = Some ai" "addr_index.index_rel fam k ai ((pm_addr m)(a := None))"
    by (rule addr_index.index_remove [OF I(1) cd(1) ap(1) a ap(2)])
  obtain bp bi where b: "(if pe_hasId (peer_at pt s) then find_id pt ?i else Some NPOS) = Some bp"
    "(if bp \<noteq> NPOS then RemoveEntryAt (pt_bcpIdx pt) (mask k) bp else Some (pt_bcpIdx pt)) = Some bi"
    "id_index.index_rel k bi (pm_id (drop_peer s m))" "pe_hasId (peer_at pt s) \<longrightarrow> bp \<noteq> NPOS \<and> pm_id m ?i = Some s"
  proof (cases "pe_hasId (peer_at pt s)")
    case True
    then have i: "pm_id m ?i = Some s" using P(2) live by blast
    obtain bp where bp: "find_id pt ?i = Some bp" "bp = NPOS \<longleftrightarrow> pm_id m ?i = None"
      "bp \<noteq> NPOS \<longrightarrow> unat bp < length (pt_bcpIdx pt) \<and> (\<exists>s. pm_id m ?i = Some s
         \<and> pt_bcpIdx pt ! unat bp = \<lparr>ix_hash = HashId ?i, ix_idx = s, ix_key = ?i\<rparr>)" by (rule find_id_exact [OF R(1,4)])
    have nb: "bp \<noteq> NPOS" using bp(2) i by simp
    then have e: "unat bp < length (pt_bcpIdx pt)" "pt_bcpIdx pt ! unat bp = \<lparr>ix_hash = HashId ?i, ix_idx = s, ix_key = ?i\<rparr>"
      using bp(3) i by auto
    obtain bi where "RemoveEntryAt (pt_bcpIdx pt) (mask k) bp = Some bi" "id_index.index_rel k bi ((pm_id m)(?i := None))"
      by (rule id_index.index_remove [OF I(2) cd(2) e(1) i e(2)])
    then show thesis using that [of bp bi] bp(1) nb i True D(3) by simp
  next
    case False
    then show thesis using that [of NPOS "pt_bcpIdx pt"] I(2) D(3) by simp
  qed
  let ?p = "pt\<lparr>pt_addrIdx := ai, pt_bcpIdx := bi\<rparr>"
  have "tags_ok j ?p m" using R(2) unfolding tags_ok_def by simp
  then obtain ti tc where t: "ClearTagsLocked s ?p = Some (?p\<lparr>pt_tagIdx := ti, pt_tagCount := tc\<rparr>)"
    "tag_rel j ti (filter_mset (\<lambda>x. snd x \<noteq> s) (pm_tags m))" "size (filter_mset (\<lambda>x. snd x \<noteq> s) (pm_tags m)) = unat tc"
    by (rule ClearTags_exact)
  have tm: "pm_tags (drop_peer s m) = filter_mset (\<lambda>x. snd x \<noteq> s) (pm_tags m)" by (simp add: drop_peer_def)
  have le: "unat tc \<le> unat (pt_tagCapacity pt)"
    using size_filter_mset_lesseq [of "\<lambda>x. snd x \<noteq> s" "pm_tags m"] t(3) T(4,5) by simp
  obtain pt' where pt': "DrainAndFree s (pt\<lparr>pt_addrIdx := ai, pt_bcpIdx := bi, pt_tagIdx := ti, pt_tagCount := tc,
      pt_version := pt_version pt + 2, pt_peerCount := pt_peerCount pt - 1\<rparr>) = Some pt'" "pt_rel fam k j pt' (drop_peer s m)" "keeps pt pt'"
    using drop_rel [OF rel a, of ai bi ti tc "pt_version pt + 2"] ai(2) b(3) t(2,3) le unfolding D(1) tm by blast
  show thesis
    by (rule that [OF b(1) _ _ _ pt']) (use ai(1) b(2,4) t(1) I(3) in \<open>simp_all split: if_splits\<close>)
qed

lemma RemoveAddr_step:
  assumes rel: "pt_rel fam k j pt m"
  shows "step_ok fam k j pt m (RemoveByAddr a)"
proof -
  note R = pt_relD [OF rel] note up = table_up [OF R(1)]
  obtain ap where ap: "find_addr fam pt a = Some ap" "ap = NPOS \<longleftrightarrow> pm_addr m a = None"
    "ap \<noteq> NPOS \<longrightarrow> unat ap < length (pt_addrIdx pt) \<and> (\<exists>s. pm_addr m a = Some s
       \<and> pt_addrIdx pt ! unat ap = \<lparr>ix_hash = HashAddr fam a, ix_idx = s, ix_key = a\<rparr>)" by (rule find_addr_exact [OF R(1)])
  show ?thesis
  proof (cases "ap = NPOS")
    case True
    then have n: "pm_addr m a = None" using ap(2) by blast
    show ?thesis using True up ap(1) n by (intro step_stays [OF rel]) (simp_all add: RemovePeer_addr_def)
  next
    case False
    then obtain s where s: "unat ap < length (pt_addrIdx pt)" "pm_addr m a = Some s"
      "pt_addrIdx pt ! unat ap = \<lparr>ix_hash = HashAddr fam a, ix_idx = s, ix_key = a\<rparr>" using ap(3) by blast
    obtain ai bp bi ti tc pt' where c: "(if pe_hasId (peer_at pt s) then find_id pt (pe_id (peer_at pt s)) else Some NPOS) = Some bp"
      "RemoveEntryAt (pt_addrIdx pt) (pt_idxMask pt) ap = Some ai"
      "(if bp \<noteq> NPOS then RemoveEntryAt (pt_bcpIdx pt) (pt_idxMask pt) bp else Some (pt_bcpIdx pt)) = Some bi"
      "ClearTagsLocked s (pt\<lparr>pt_addrIdx := ai, pt_bcpIdx := bi\<rparr>) = Some (pt\<lparr>pt_addrIdx := ai, pt_bcpIdx := bi, pt_tagIdx := ti, pt_tagCount := tc\<rparr>)"
      "DrainAndFree s (pt\<lparr>pt_addrIdx := ai, pt_bcpIdx := bi, pt_tagIdx := ti, pt_tagCount := tc,
        pt_version := pt_version pt + 2, pt_peerCount := pt_peerCount pt - 1\<rparr>) = Some pt'"
      "pt_rel fam k j pt' (drop_peer s m)" "keeps pt pt'" by (rule remove_common [OF rel s(2,1,3)])
    have "ix_idx (pt_addrIdx pt ! unat ap) = s" unfolding s(3) by simp
    then have "RemovePeer_addr fam a pt = Some (Ok, pt')"
      using up False by (simp only: RemovePeer_addr_def ap(1) bind.bind_lunit if_False Let_def c(1-3)) (simp add: c(4,5))
    then have "pt_step fam pt (RemoveByAddr a) = Some (Done Ok, pt')" by simp
    moreover have "pt_spec (pt_slots pt) (unat (pt_peerCapacity pt)) (unat (pt_tagCapacity pt)) m (RemoveByAddr a) (Done Ok) (drop_peer s m)"
      using s(2) by simp
    ultimately show ?thesis unfolding step_ok_def using c(6,7) by blast
  qed
qed

lemma RemoveId_step:
  assumes rel: "pt_rel fam k j pt m"
  shows "step_ok fam k j pt m (RemoveById i)"
proof -
  note R = pt_relD [OF rel] note up = table_up [OF R(1)] note P = peers_okD [OF R(4)]
  obtain bp where bp: "find_id pt i = Some bp" "bp = NPOS \<longleftrightarrow> pm_id m i = None"
    "bp \<noteq> NPOS \<longrightarrow> unat bp < length (pt_bcpIdx pt) \<and> (\<exists>s. pm_id m i = Some s
       \<and> pt_bcpIdx pt ! unat bp = \<lparr>ix_hash = HashId i, ix_idx = s, ix_key = i\<rparr>)" by (rule find_id_exact [OF R(1,4)])
  show ?thesis
  proof (cases "bp = NPOS")
    case True
    then have n: "pm_id m i = None" using bp(2) by blast
    show ?thesis using True up bp(1) n by (intro step_stays [OF rel]) (simp_all add: RemovePeer_id_def)
  next
    case False
    then obtain s where s: "pm_id m i = Some s" "pt_bcpIdx pt ! unat bp = \<lparr>ix_hash = HashId i, ix_idx = s, ix_key = i\<rparr>"
      using bp(3) by blast
    let ?a = "pe_addr (peer_at pt s)"
    have l: "s \<in> pm_live m" "pe_hasId (peer_at pt s)" "pe_id (peer_at pt s) = i" using P(2) s(1) by blast+
    obtain ap where ap: "find_addr fam pt ?a = Some ap" "ap = NPOS \<or> ix_idx (pt_addrIdx pt ! unat ap) \<noteq> s \<longleftrightarrow> s \<notin> pm_live m"
      "s \<in> pm_live m \<longrightarrow> unat ap < length (pt_addrIdx pt) \<and> pm_addr m ?a = Some s
         \<and> pt_addrIdx pt ! unat ap = \<lparr>ix_hash = HashAddr fam ?a, ix_idx = s, ix_key = ?a\<rparr>" by (rule live_check [OF R(1,4)])
    have A: "unat ap < length (pt_addrIdx pt)" "pm_addr m ?a = Some s"
      "pt_addrIdx pt ! unat ap = \<lparr>ix_hash = HashAddr fam ?a, ix_idx = s, ix_key = ?a\<rparr>" "ap \<noteq> NPOS" using ap(2,3) l(1) by blast+
    obtain ai bp' bi ti tc pt' where c: "(if pe_hasId (peer_at pt s) then find_id pt (pe_id (peer_at pt s)) else Some NPOS) = Some bp'"
      "RemoveEntryAt (pt_addrIdx pt) (pt_idxMask pt) ap = Some ai"
      "(if bp' \<noteq> NPOS then RemoveEntryAt (pt_bcpIdx pt) (pt_idxMask pt) bp' else Some (pt_bcpIdx pt)) = Some bi"
      "ClearTagsLocked s (pt\<lparr>pt_addrIdx := ai, pt_bcpIdx := bi\<rparr>) = Some (pt\<lparr>pt_addrIdx := ai, pt_bcpIdx := bi, pt_tagIdx := ti, pt_tagCount := tc\<rparr>)"
      "DrainAndFree s (pt\<lparr>pt_addrIdx := ai, pt_bcpIdx := bi, pt_tagIdx := ti, pt_tagCount := tc,
        pt_version := pt_version pt + 2, pt_peerCount := pt_peerCount pt - 1\<rparr>) = Some pt'"
      "pt_rel fam k j pt' (drop_peer s m)" "keeps pt pt'" by (rule remove_common [OF rel A(2,1,3)])
    have bb: "bp' = bp" using c(1) l(2,3) bp(1) by simp
    have "ix_idx (pt_bcpIdx pt ! unat bp) = s" unfolding s(2) by simp
    then have "RemovePeer_id fam i pt = Some (Ok, pt')"
      using up False A(4) c(3) unfolding bb
      by (simp only: RemovePeer_id_def bp(1) ap(1) bind.bind_lunit if_False if_True Let_def c(2) simp_thms) (simp add: c(4,5))
    then have "pt_step fam pt (RemoveById i) = Some (Done Ok, pt')" by simp
    moreover have "pt_spec (pt_slots pt) (unat (pt_peerCapacity pt)) (unat (pt_tagCapacity pt)) m (RemoveById i) (Done Ok) (drop_peer s m)"
      using s(1) by simp
    ultimately show ?thesis unfolding step_ok_def using c(6,7) by blast
  qed
qed

text \<open>The readers.\<close>

lemma GetPeer_addr_exact:
  assumes rel: "pt_rel fam k j pt m"
  shows "GetPeer_addr fam a pt = (case pm_addr m a of None \<Rightarrow> Inl NotFound | Some s \<Rightarrow> Inr s)"
proof -
  note R = pt_relD [OF rel] note I = idx_okD [OF R(1)]
  have "Lookup (pt_addrIdx pt) (mask k) (2 ^ k) (HashAddr fam a) (\<lambda>slot. Address_eq (pe_addr (peer_at pt slot)) a)
      = (case pm_addr m a of None \<Rightarrow> Inl NotFound | Some s \<Rightarrow> Inr s)"
    by (rule addr_index.index_lookup [OF I(1)]) (use ids_fewer [OF R(1,4)] peers_okD(1) [OF R(4)] in simp_all)
  then show ?thesis using table_up [OF R(1)] I(3,4) by (simp add: GetPeer_addr_def)
qed

lemma GetPeer_id_exact:
  assumes rel: "pt_rel fam k j pt m"
  shows "GetPeer_id i pt = (case pm_id m i of None \<Rightarrow> Inl NotFound | Some s \<Rightarrow> Inr s)"
proof -
  note R = pt_relD [OF rel] note I = idx_okD [OF R(1)]
  have "(pe_hasId (peer_at pt s) \<and> pe_id (peer_at pt s) = i) = (b = i)" if "pm_id m b = Some s" for b s
    using that peers_okD(2) [OF R(4), of b s] by blast
  then have "Lookup (pt_bcpIdx pt) (mask k) (2 ^ k) (HashId i) (\<lambda>slot. pe_hasId (peer_at pt slot) \<and> pe_id (peer_at pt slot) = i)
      = (case pm_id m i of None \<Rightarrow> Inl NotFound | Some s \<Rightarrow> Inr s)"
    using ids_fewer [OF R(1,4)] by (intro id_index.index_lookup [OF I(2)]) linarith+
  then show ?thesis using table_up [OF R(1)] I(3,4) by (simp add: GetPeer_id_def)
qed

lemma FindTag_step:
  assumes rel: "pt_rel fam k j pt m"
  shows "step_ok fam k j pt m (FindByTag tag n)"
proof -
  note R = pt_relD [OF rel] note T = tags_okD [OF R(2)] note up = table_up [OF R(1)]
  let ?h = "HashTag tag" and ?t = "pt_tagIdx pt"
  show ?thesis
  proof (cases "n = 0 \<or> ?h = 0")
    case True
    then have "GetPeersByTag tag n pt = (0, [])" by (auto simp: GetPeersByTag_def)
    then show ?thesis using True by (intro step_stays [OF rel, of _ "Holders 0 []"]) auto
  next
    case False
    have rh: "rh_inv j ?t" using T(1) by (simp add: tag_rel_def)
    have M: "pm_tags m = image_mset (\<lambda>e. (ix_hash e, ix_idx e)) (contents ?t)" by (rule tag_pairs [OF T(1)])
    have F: "filter_mset (\<lambda>x. fst x = ?h) (pm_tags m) = image_mset (\<lambda>e. (ix_hash e, ix_idx e)) (filter_mset (\<lambda>e. ix_hash e = ?h) (contents ?t))"
      unfolding M filter_mset_image_mset by (simp add: comp_def)
    have h: "?h \<noteq> 0" using False by simp
    obtain found out where r: "tag_probe ?t (mask j) ?h n (unat (2 ^ j :: u32)) (ucast ?h AND mask j) 0 0 [] = (found, out)"
      "unat found = size (filter_mset (\<lambda>e. ix_hash e = ?h) (contents ?t))" "length out = min (unat n) (unat found)"
      "mset out \<subseteq># image_mset ix_idx (filter_mset (\<lambda>e. ix_hash e = ?h) (contents ?t))"
      using tag_probe_exact [OF rh tag_spare [OF T(1,7)] h, of n] by blast
    have "GetPeersByTag tag n pt = (found, out)" using r(1) up False T(2,3) by (simp add: GetPeersByTag_def Let_def)
    moreover have "unat found = size (filter_mset (\<lambda>x. fst x = ?h) (pm_tags m))" unfolding F r(2) by simp
    moreover have "mset out \<subseteq># image_mset snd (filter_mset (\<lambda>x. fst x = ?h) (pm_tags m))"
      using r(4) unfolding F by (simp add: image_mset.compositionality comp_def)
    ultimately show ?thesis using False r(3) by (intro step_stays [OF rel, of _ "Holders found out"]) simp_all
  qed
qed

text \<open>A change of the two event flags of a peer.\<close>

lemma flags_change:
  assumes rel: "pt_rel fam k j pt m" and s: "s \<in> pt_slots pt"
    and q: "q = pt\<lparr>pt_pool := pool, pt_peers := (pt_peers pt)[unat s := (peer_at pt s)\<lparr>pe_emitting := em, pe_freeWhenRead := fr\<rparr>]\<rparr>"
    and m': "m' = m\<lparr>pm_emitting := (if em then insert s (pm_emitting m) else pm_emitting m - {s}), pm_parked := (if fr then pm_parked m else pm_parked m - {s})\<rparr>"
    and fr: "fr \<Longrightarrow> s \<in> pm_parked m"
    and pool: "\<exists>a b. pool_inv a b pool" "sp_capacity pool = sp_capacity (pt_pool pt)" "free_slots pool = pt_slots pt - pm_live m - pm_parked m'"
  shows "pt_rel fam k j q m'" "keeps pt q"
proof -
  note R = pt_relD [OF rel] note S = slots_okD [OF R(3)] note P = peers_okD [OF R(4)]
  have ul: "unat s < length (pt_peers pt)" by (rule slot_in_peers [OF R(3) s])
  have e: "pm_addr m' = pm_addr m" "pm_id m' = pm_id m" "pm_tags m' = pm_tags m" "pt_pool q = pool" "pt_slots q = pt_slots pt"
    using pool(2) unfolding q m' by simp_all
  have pa: "peer_at q s' = (if s' = s then (peer_at pt s)\<lparr>pe_emitting := em, pe_freeWhenRead := fr\<rparr> else peer_at pt s')" for s'
    unfolding q using peer_at_upd [OF ul] by simp
  have pk: "pm_parked m' \<subseteq> pm_parked m" "s \<in> pm_parked m' \<longleftrightarrow> fr" "s' \<noteq> s \<Longrightarrow> s' \<in> pm_parked m' \<longleftrightarrow> s' \<in> pm_parked m"
    "s \<in> pm_emitting m' \<longleftrightarrow> em" "s' \<noteq> s \<Longrightarrow> s' \<in> pm_emitting m' \<longleftrightarrow> s' \<in> pm_emitting m" for s'
    unfolding m' using fr by auto
  have "idx_ok fam k q m'" using R(1) unfolding idx_ok_def e q by simp
  moreover have "tags_ok j q m'" using R(2) unfolding tags_ok_def e q by simp
  moreover have "slots_ok q m'"
  proof -
    have "length (pt_peers q) = unat (sp_capacity pool)" using S(2) pool(2) unfolding q by simp
    moreover have "pm_parked m' \<subseteq> pt_slots pt" "pm_live m \<inter> pm_parked m' = {}" using S(4,5) pk(1) by blast+
    ultimately show ?thesis unfolding slots_ok_def e(1-4) pool(2,3) using S(3) pool(1) by simp
  qed
  moreover have "peers_ok q m'"
  proof -
    have 1: "pe_addr (peer_at q s') = a" if "pm_addr m' a = Some s'" for a s' using that P(1) [of a s'] unfolding pa e by auto
    have 2: "pm_id m' i = Some s' \<longleftrightarrow> s' \<in> pm_live m' \<and> pe_hasId (peer_at q s') \<and> pe_id (peer_at q s') = i" for i s'
      using P(2) [of i s'] unfolding pa e by simp
    have 4: "(pe_freeWhenRead (peer_at q s') \<longleftrightarrow> s' \<in> pm_parked m') \<and> (pe_emitting (peer_at q s') \<longleftrightarrow> s' \<in> pm_emitting m')"
      if "s' \<in> pt_slots q" for s'
    proof (cases "s' = s")
      case True
      then show ?thesis using pk(2,4) unfolding pa by simp
    next
      case False
      then show ?thesis using pk(3,5) [OF False] P(4) [of s'] that unfolding pa e(5) by simp
    qed
    show ?thesis unfolding peers_ok_def using 1 2 P(3) 4 unfolding e(1,3) by blast
  qed
  moreover have "pm_emitting m' \<subseteq> pt_slots q" using R(5) s unfolding e(5) m' by auto
  ultimately show "pt_rel fam k j q m'" unfolding pt_rel_def by blast
  show "keeps pt q" using pool(2) unfolding keeps_def q by simp
qed

lemma Emit_step:
  assumes rel: "pt_rel fam k j pt m"
  shows "step_ok fam k j pt m (Emit a)"
proof (cases "pm_addr m a")
  case None
  then show ?thesis using GetPeer_addr_exact [OF rel, of a] by (intro step_stays [OF rel]) simp_all
next
  case (Some s)
  note R = pt_relD [OF rel] note S = slots_okD [OF R(3)] note P = peers_okD [OF R(4)]
  have l: "s \<in> pm_live m" using Some unfolding ran_def by blast
  then have s: "s \<in> pt_slots pt" "s \<notin> pm_parked m" using S(3,5) by blast+
  have nf: "\<not> pe_freeWhenRead (peer_at pt s)" using P(4) [OF s(1)] s(2) by blast
  let ?m = "m\<lparr>pm_emitting := insert s (pm_emitting m)\<rparr>"
  have q: "mark_emitting s pt = pt\<lparr>pt_pool := pt_pool pt, pt_peers := (pt_peers pt)[unat s := (peer_at pt s)\<lparr>pe_emitting := True, pe_freeWhenRead := False\<rparr>]\<rparr>"
  proof -
    have "p\<lparr>pe_emitting := True, pe_freeWhenRead := False\<rparr> = p\<lparr>pe_emitting := True\<rparr>" if "\<not> pe_freeWhenRead p" for p :: Peer
      using that by (cases p) simp
    note flags = this [OF nf]
    show ?thesis unfolding mark_emitting_def flags by simp
  qed
  have m': "?m = m\<lparr>pm_emitting := (if True then insert s (pm_emitting m) else pm_emitting m - {s}), pm_parked := (if False then pm_parked m else pm_parked m - {s})\<rparr>"
    using s(2) by simp
  have fs: "free_slots (pt_pool pt) = pt_slots pt - pm_live m - pm_parked ?m" using S(6) by simp
  have ch: "pt_rel fam k j (mark_emitting s pt) ?m" "keeps pt (mark_emitting s pt)"
    by (rule flags_change [OF rel s(1) q m' _ S(1) refl fs]; simp)+
  have "pt_step fam pt (Emit a) = Some (Done Ok, mark_emitting s pt)" using GetPeer_addr_exact [OF rel, of a] Some by simp
  moreover have "pt_spec (pt_slots pt) (unat (pt_peerCapacity pt)) (unat (pt_tagCapacity pt)) m (Emit a) (Done Ok) ?m" using Some by simp
  ultimately show ?thesis unfolding step_ok_def using ch by blast
qed

lemma EventRead_step:
  assumes rel: "pt_rel fam k j pt m"
  shows "step_ok fam k j pt m (EventRead s)"
proof -
  note R = pt_relD [OF rel] note S = slots_okD [OF R(3)] note P = peers_okD [OF R(4)]
  let ?m = "m\<lparr>pm_emitting := pm_emitting m - {s}, pm_parked := pm_parked m - {s}\<rparr>"
  show ?thesis
  proof (cases "s \<in> pt_slots pt")
    case False
    then have "pm_emitting m - {s} = pm_emitting m" "pm_parked m - {s} = pm_parked m" using R(5) S(4) by blast+
    then have "?m = m" by simp
    then show ?thesis using False in_slots [of pt s] by (intro step_stays [OF rel]) (simp_all add: ClearEmitting_def)
  next
    case True
    have fl: "pe_freeWhenRead (peer_at pt s) \<longleftrightarrow> s \<in> pm_parked m" using P(4) [OF True] by blast
    have m': "?m = m\<lparr>pm_emitting := (if False then insert s (pm_emitting m) else pm_emitting m - {s}), pm_parked := (if False then pm_parked m else pm_parked m - {s})\<rparr>"
      by simp
    have spec: "pt_spec (pt_slots pt) (unat (pt_peerCapacity pt)) (unat (pt_tagCapacity pt)) m (EventRead s) (Done Ok) ?m" by simp
    obtain pool where pl: "(if s \<in> pm_parked m then SlotPool_Release s (pt_pool pt) else Some (pt_pool pt)) = Some pool"
      "\<exists>a b. pool_inv a b pool" "sp_capacity pool = sp_capacity (pt_pool pt)" "free_slots pool = pt_slots pt - pm_live m - pm_parked ?m"
    proof (cases "s \<in> pm_parked m")
      case park: True
      have nf: "s \<notin> free_slots (pt_pool pt)" "s \<notin> pm_live m" using park S(5,6) by blast+
      obtain pool where p: "SlotPool_Release s (pt_pool pt) = Some pool" "\<exists>a b. pool_inv a b pool"
        "sp_capacity pool = sp_capacity (pt_pool pt)" "free_slots pool = insert s (free_slots (pt_pool pt))"
        by (rule release_slot [OF R(3) True nf(1)])
      have "free_slots pool = pt_slots pt - pm_live m - pm_parked ?m" using True nf(2) unfolding p(4) S(6) by auto
      then show thesis using that p park by simp
    next
      case park: False
      then show thesis using that [of "pt_pool pt"] S(1,6) by simp
    qed
    let ?q = "pt\<lparr>pt_pool := pool, pt_peers := (pt_peers pt)[unat s := (peer_at pt s)\<lparr>pe_emitting := False, pe_freeWhenRead := False\<rparr>]\<rparr>"
    have ch: "pt_rel fam k j ?q ?m" "keeps pt ?q" by (rule flags_change [OF rel True refl m' _ pl(2,3,4)]; simp)+
    have "ClearEmitting s pt = Some ?q" using pl(1) True fl by (cases "s \<in> pm_parked m") (simp_all add: ClearEmitting_def Let_def)
    then have "pt_step fam pt (EventRead s) = Some (Done Ok, ?q)" by simp
    then show ?thesis unfolding step_ok_def using spec ch by blast
  qed
qed

section \<open>Every sequence of calls\<close>

text \<open>The addresses a client registers are of the two families that compare equal to themselves.\<close>

fun op_addr_ok :: "pt_op \<Rightarrow> bool" where
  "op_addr_ok (Register a pid now hint) = comparable a"
| "op_addr_ok (Move s a) = comparable a"
| "op_addr_ok _ = True"

lemma pt_step_ok:
  assumes rel: "pt_rel fam k j pt m" and "op_addr_ok op" shows "step_ok fam k j pt m op"
proof (cases op)
  case (FindByAddr a)
  then show ?thesis using GetPeer_addr_exact [OF rel, of a] by (intro step_stays [OF rel]) simp_all
next
  case (FindById i)
  then show ?thesis using GetPeer_id_exact [OF rel, of i] by (intro step_stays [OF rel]) simp_all
qed (use assms(2) Register_step [OF rel] BindId_step [OF rel] RemoveAddr_step [OF rel] RemoveId_step [OF rel] Move_step [OF rel]
  BindTag_step [OF rel] UnbindTag_step [OF rel] UnbindTags_step [OF rel] Emit_step [OF rel] EventRead_step [OF rel] FindTag_step [OF rel] in simp_all)

lemma pt_run_ok:
  assumes "pt_rel fam k j pt m" and "list_all op_addr_ok ops"
    and "S = pt_slots pt" and "cap = unat (pt_peerCapacity pt)" and "tcap = unat (pt_tagCapacity pt)"
  shows "\<exists>rs pt' m'. run_ops (pt_step fam) pt ops = Some (rs, pt') \<and> pt_spec_run S cap tcap m ops rs m' \<and> pt_rel fam k j pt' m'"
  using assms
proof (induction ops arbitrary: pt m)
  case (Cons op ops)
  obtain r p1 m1 where s: "pt_step fam pt op = Some (r, p1)" "pt_spec S cap tcap m op r m1" "pt_rel fam k j p1 m1" "keeps pt p1"
    using pt_step_ok [OF Cons.prems(1), of op] Cons.prems(2-) unfolding step_ok_def by auto
  have "S = pt_slots p1" "cap = unat (pt_peerCapacity p1)" "tcap = unat (pt_tagCapacity p1)"
    using s(4) Cons.prems(3-) by (simp_all add: keeps_def)
  then obtain rs p2 m2 where "run_ops (pt_step fam) p1 ops = Some (rs, p2)" "pt_spec_run S cap tcap m1 ops rs m2" "pt_rel fam k j p2 m2"
    using Cons.IH [OF s(3)] Cons.prems(2) by auto
  then show ?case using s(1,2) by (intro exI [of _ "r # rs"] exI [of _ p2] exI [of _ m2]) auto
qed auto

section \<open>A fresh table\<close>

lemma index_size:
  assumes n: "0 < unat n" "unat n < 17179869184" and b: "index_need n \<le> 0x40000000"
  obtains k where "1 \<le> k" "k \<le> 30" "NextPowerOfTwo (ucast (index_need n)) = 2 ^ k" "unat n < 2 ^ k"
proof -
  have m: "unat (n * 100 :: u64) = unat n * 100" by (subst unat_mult_small) (use n in simp_all)
  have "unat (n * 100 + 85 :: u64) = unat n * 100 + 85" by (subst unat_add_small) (use n m in simp_all)
  moreover have "(1 :: u64) \<le> n * 100 + 85" using calculation by (simp add: word_le_nat_alt)
  ultimately have "unat (n * 100 + 85 - 1 :: u64) = unat n * 100 + 84" by (subst unat_sub_le) simp_all
  then have u: "unat (index_need n) = (unat n * 100 + 84) div 85" unfolding index_need_def unat_div by simp
  have lo: "unat n < unat (index_need n)" using n(1) u by linarith
  have hi: "unat (index_need n) \<le> 2 ^ 30" using b by (simp add: word_le_nat_alt)
  have c: "unat (ucast (index_need n) :: u32) = unat (index_need n)" using hi by (simp add: unat_ucast)
  then obtain k where k: "unat (NextPowerOfTwo (ucast (index_need n))) = 2 ^ k" "unat (index_need n) \<le> 2 ^ k"
    "\<forall>j. unat (index_need n) \<le> 2 ^ j \<longrightarrow> k \<le> j"
    using NextPowerOfTwo_power [of "ucast (index_need n)"] hi by auto
  have k30: "k \<le> 30" using k(3) hi by blast
  have "k \<noteq> 0" using k(2) lo n(1) by (intro notI) simp
  moreover have "NextPowerOfTwo (ucast (index_need n)) = 2 ^ k" using k(1) k30 by (simp add: word_unat_eq_iff unat_exp)
  moreover have "unat n < 2 ^ k" using lo k(2) by linarith
  ultimately show thesis using that [of k] k30 by simp
qed

lemma mask_of_power: "k < 32 \<Longrightarrow> (2 ^ k :: u32) - 1 = mask k"
  by (simp add: mask_eq_exp_minus_1)

lemma rh_empty: "1 \<le> n \<Longrightarrow> n \<le> 30 \<Longrightarrow> ix_hash e = 0 \<Longrightarrow> rh_inv n (replicate (2 ^ n) e)"
  by (simp add: rh_inv_def)

lemma Init_rel:
  assumes c: "capacity \<noteq> 0" and b: "index_need (ucast capacity * 4) \<le> 0x40000000"
  shows "\<exists>pt k j. PeerTable_Init stride capacity PeerTable_fresh = (Ok, pt) \<and> pt_rel fam k j pt no_peers
    \<and> pt_slots pt = {i. unat i < unat (NextPowerOfTwo capacity)} \<and> pt_peerCapacity pt = capacity \<and> unat (pt_tagCapacity pt) = 4 * unat capacity"
proof -
  have uc: "unat (ucast capacity :: u64) = unat capacity" by (simp add: unat_ucast_up)
  have cb: "0 < unat capacity" "unat capacity < 4294967296" using c unat_u32_less [of capacity] by (simp_all add: unat_gt_0)
  have u4: "unat (ucast capacity * 4 :: u64) = 4 * unat capacity" by (subst unat_mult_small) (use cb uc in simp_all)
  obtain j where j: "1 \<le> j" "j \<le> 30" "NextPowerOfTwo (ucast (index_need (ucast capacity * 4))) = 2 ^ j" "4 * unat capacity < 2 ^ j"
    by (rule index_size [of "ucast capacity * 4"]) (use u4 cb b in simp_all)
  have "(2 :: nat) ^ j \<le> 2 ^ 30" using j(2) by (intro power_increasing) simp_all
  then have small: "4 * unat capacity < 1073741824" using j(4) by simp
  have b1: "index_need (ucast capacity) \<le> 0x40000000"
  proof -
    have m: "unat (ucast capacity * 100 + 85 - 1 :: u64) = unat capacity * 100 + 84"
    proof -
      have "unat (ucast capacity * 100 :: u64) = unat capacity * 100" by (subst unat_mult_small) (use uc cb in simp_all)
      then have "unat (ucast capacity * 100 + 85 :: u64) = unat capacity * 100 + 85" by (subst unat_add_small) (use cb in simp_all)
      moreover have "(1 :: u64) \<le> ucast capacity * 100 + 85" using calculation by (simp add: word_le_nat_alt)
      ultimately show ?thesis by (subst unat_sub_le) simp_all
    qed
    have "unat (index_need (ucast capacity)) = (unat capacity * 100 + 84) div 85" unfolding index_need_def unat_div using m by simp
    then show ?thesis using small by (simp add: word_le_nat_alt)
  qed
  obtain k where k: "1 \<le> k" "k \<le> 30" "NextPowerOfTwo (ucast (index_need (ucast capacity))) = 2 ^ k" "unat capacity < 2 ^ k"
    by (rule index_size [of "ucast capacity"]) (use uc cb b1 in simp_all)
  obtain pool a d where p: "SlotPool_Init capacity stride = Some pool" "pool_inv a d pool"
    "free_slots pool = {i. unat i < unat (NextPowerOfTwo capacity)}" "unat (NextPowerOfTwo capacity) = 2 ^ (a + d)"
    using Init_spec [of capacity stride] small by auto
  have cap: "unat (sp_capacity pool) = unat (NextPowerOfTwo capacity)"
    using p(2,4) shape_words(3) [of a d pool] by (simp add: pool_inv_def power_add)
  define pt where "pt = snd (PeerTable_Init stride capacity PeerTable_fresh)"
  have nb: "\<not> 0x40000000 < index_need (ucast capacity)" "\<not> 0x40000000 < index_need (ucast capacity * 4)"
    using b b1 by (simp_all only: not_less)
  have init: "PeerTable_Init stride capacity PeerTable_fresh = (Ok, pt)"
    using c nb p(1) by (simp add: pt_def PeerTable_Init_def Let_def)
  have uk: "unat (2 ^ k :: u32) = 2 ^ k" "unat (2 ^ j :: u32) = 2 ^ j" using k(2) j(2) by (simp_all add: unat_exp)
  have f: "pt_addrIdx pt = replicate (2 ^ k) \<lparr>ix_hash = 0, ix_idx = 0, ix_key = no_address\<rparr>"
      "pt_bcpIdx pt = replicate (2 ^ k) \<lparr>ix_hash = 0, ix_idx = 0, ix_key = replicate 32 0\<rparr>"
      "pt_tagIdx pt = replicate (2 ^ j) \<lparr>ix_hash = 0, ix_idx = 0, ix_key = ()\<rparr>"
      "pt_idxCapacity pt = 2 ^ k" "pt_idxMask pt = mask k" "pt_tagIdxCapacity pt = 2 ^ j" "pt_tagIdxMask pt = mask j"
      "pt_tagCapacity pt = ucast (ucast capacity * 4 :: u64)" "pt_tagCount pt = 0" "pt_pool pt = pool"
      "pt_peers pt = replicate (unat (sp_capacity pool)) zero_peer" "pt_peerCapacity pt = capacity" "pt_peerCount pt = 0"
    using c nb k(2,3) j(2,3) p(1) uk mask_of_power [of k] mask_of_power [of j]
    by (simp_all add: pt_def PeerTable_Init_def PeerTable_fresh_def Let_def)
  have tc: "unat (pt_tagCapacity pt) = 4 * unat capacity" unfolding f(8) using u4 small by (simp add: unat_ucast)
  have sl: "pt_slots pt = {i. unat i < unat (NextPowerOfTwo capacity)}" unfolding f(10) using cap by (simp add: word_less_nat_alt)
  have nm: "pm_addr no_peers = Map.empty" "pm_id no_peers = Map.empty" "pm_tags no_peers = {#}" "pm_parked no_peers = {}" "pm_emitting no_peers = {}"
    by (simp_all add: no_peers_def)
  have "addr_index.index_rel fam k (pt_addrIdx pt) (pm_addr no_peers)" unfolding f(1) nm by (rule addr_index.index_empty [OF k(1,2)]) simp_all
  moreover have "id_index.index_rel k (pt_bcpIdx pt) (pm_id no_peers)" unfolding f(2) nm by (rule id_index.index_empty [OF k(1,2)]) simp_all
  ultimately have "idx_ok fam k pt no_peers" unfolding idx_ok_def f(4,5,12,13) using k(4) by (simp add: nm)
  moreover have "tags_ok j pt no_peers"
    unfolding tags_ok_def tc f(6,7,9) using j(4) rh_empty [OF j(1,2), of "\<lparr>ix_hash = 0, ix_idx = 0, ix_key = ()\<rparr>"] by (simp add: nm f(3) tag_rel_def contents_def)
  moreover have "slots_ok pt no_peers"
  proof -
    have "free_slots (pt_pool pt) = pt_slots pt" unfolding sl using p(3) f(10) by simp
    then show ?thesis unfolding slots_ok_def nm using p(2) f(10,11) by auto
  qed
  moreover have "peers_ok pt no_peers"
  proof -
    have "\<not> pe_freeWhenRead (peer_at pt s) \<and> \<not> pe_emitting (peer_at pt s)" if "s \<in> pt_slots pt" for s
      using that unfolding f(10,11) by (simp add: zero_peer_def word_less_nat_alt)
    then show ?thesis unfolding peers_ok_def nm by simp
  qed
  moreover have "pm_emitting no_peers \<subseteq> pt_slots pt" by (simp add: nm)
  ultimately have "pt_rel fam k j pt no_peers" unfolding pt_rel_def by blast
  then show ?thesis using init sl f(12) tc by blast
qed

lemma insert_ends:
  assumes "insert_from t msk c pos dist = Some t'"
  shows "unat pos < length t \<and> length t = 2 ^ k \<and> msk = mask k \<and> ix_hash c \<noteq> 0 \<longrightarrow> spare t"
proof (rule insert_from.raw_induct [where P = "\<lambda>t msk c pos dist t'. unat pos < length t \<and> length t = 2 ^ k \<and> msk = mask k \<and> ix_hash c \<noteq> 0 \<longrightarrow> spare t", OF _ assms], rule impI)
  fix f t msk c pos dist t'
  assume IH: "\<And>t msk c pos dist t'. f t msk c pos dist = Some t' \<Longrightarrow>
      unat pos < length t \<and> length t = 2 ^ k \<and> msk = mask k \<and> ix_hash c \<noteq> 0 \<longrightarrow> spare t"
    and body: "(let e = t ! unat pos
      in if ix_hash e = 0 then Some (t[unat pos := c])
         else let entryDist = Dist (ix_hash e) pos msk
              in if entryDist < dist
                 then f (t[unat pos := c]) msk e ((pos + 1) AND msk) (entryDist + 1)
                 else f t msk c ((pos + 1) AND msk) (dist + 1)) = Some t'"
    and pre: "unat pos < length t \<and> length t = 2 ^ k \<and> msk = mask k \<and> ix_hash c \<noteq> 0"
  have nx: "unat ((pos + 1) AND msk) < length t" using pre by (simp add: unat_and_mask)
  show "spare t"
  proof (cases "occ t (unat pos)")
    case False
    then show ?thesis using pre unfolding spare_def by blast
  next
    case o: True
    show ?thesis
    proof (cases "Dist (ix_hash (t ! unat pos)) pos msk < dist")
      case True
      then have "f (t[unat pos := c]) msk (t ! unat pos) ((pos + 1) AND msk) (Dist (ix_hash (t ! unat pos)) pos msk + 1) = Some t'"
        using body o by (simp add: Let_def)
      then have "spare (t[unat pos := c])" using IH pre nx o by (metis length_list_update)
      then obtain q where q: "q < length t" "\<not> occ (t[unat pos := c]) q" by (auto simp: spare_def)
      then have "\<not> occ t q" using pre by (cases "q = unat pos") simp_all
      then show ?thesis using q(1) unfolding spare_def by blast
    next
      case False
      then have "f t msk c ((pos + 1) AND msk) (dist + 1) = Some t'" using body o by (simp add: Let_def)
      then show ?thesis using IH pre nx by blast
    qed
  qed
qed

section \<open>Properties\<close>

text \<open>
  C8: The peer table behaves as three finite maps. From a successful initialisation, over every
  sequence of registrations, removals, bindings of identities and tags, moves to another address,
  events and lookups, every call returns, and its answer and effect are those the maps prescribe:
  an address or an identity maps to at most one live peer, a peer is found under each of its keys
  exactly while it has them, a removed peer under none, a slot whose event is still unread is
  never handed to another peer, and the limits on peers and tags are the ones configured. The
  displacements of insertion and the shifts of removal are invisible. Addresses are of the two
  families that compare equal to themselves.\<close>

theorem peer_table_refines_maps:
  assumes "capacity \<noteq> 0" and "index_need (ucast capacity * 4) \<le> 0x40000000" and "list_all op_addr_ok ops"
  shows "\<exists>pt rs pt' m'. PeerTable_Init stride capacity PeerTable_fresh = (Ok, pt)
    \<and> run_ops (pt_step fam) pt ops = Some (rs, pt')
    \<and> pt_spec_run {i. unat i < unat (NextPowerOfTwo capacity)} (unat capacity) (4 * unat capacity) no_peers ops rs m'"
proof -
  obtain pt k j where i: "PeerTable_Init stride capacity PeerTable_fresh = (Ok, pt)" "pt_rel fam k j pt no_peers"
    "pt_slots pt = {i. unat i < unat (NextPowerOfTwo capacity)}" "pt_peerCapacity pt = capacity" "unat (pt_tagCapacity pt) = 4 * unat capacity"
    using Init_rel [OF assms(1,2), of stride fam] by blast
  show ?thesis using pt_run_ok [OF i(2) assms(3) i(3) [symmetric]] i(1,4,5) by metis
qed

definition example_calls :: "pt_op list" where
  "example_calls = [Register (AddrInet [10, 0, 0, 1] [0, 80]) None 5000 0, BindPeerId 0 (replicate 32 7),
     Move 0 (AddrInet [10, 0, 0, 2] [0, 80]), FindByAddr (AddrInet [10, 0, 0, 1] [0, 80]),
     FindByAddr (AddrInet [10, 0, 0, 2] [0, 80]), RemoveById (replicate 32 7), FindById (replicate 32 7)]"

theorem peer_table_refines_maps_witness:
  "\<exists>pt rs pt' m'. PeerTable_Init 512 2 PeerTable_fresh = (Ok, pt) \<and> run_ops (pt_step (2, 10)) pt example_calls = Some (rs, pt')
    \<and> pt_spec_run {i. unat i < unat (NextPowerOfTwo 2)} (unat (2 :: u32)) (4 * unat (2 :: u32)) no_peers example_calls rs m'"
proof (rule peer_table_refines_maps)
  show "(2 :: u32) \<noteq> 0" by simp
  show "index_need (ucast (2 :: u32) * 4) \<le> 0x40000000" by (simp add: index_need_def)
  show "list_all op_addr_ok example_calls" by (simp add: example_calls_def comparable_def)
qed

text \<open>
  C9: The insertion loop of the index, which has no bound of its own, ends exactly if some bucket is
  empty. So the rule that the pool runs out of peers before the index fills up is what keeps a
  registration from spinning forever under the writer lock.\<close>

theorem insert_ends_iff_spare:
  fixes t :: "'k IndexEntry list"
  assumes rh: "rh_inv k t" and h: "h \<noteq> 0"
  shows "InsertEntry t (mask k) h slot key \<noteq> None \<longleftrightarrow> spare t"
proof
  assume "spare t"
  then show "InsertEntry t (mask k) h slot key \<noteq> None" using InsertEntry_exact [OF rh _ h] by (metis option.distinct(1))
next
  assume "InsertEntry t (mask k) h slot key \<noteq> None"
  then obtain t' where t': "insert_from t (mask k) \<lparr>ix_hash = h, ix_idx = slot, ix_key = key\<rparr> (ucast h AND mask k) 0 = Some t'"
    unfolding InsertEntry_def by blast
  note S = rh_shape [OF rh]
  show "spare t"
    by (rule insert_ends [OF t', rule_format]) (use S h unat_home [OF S(3), of h] home_less [of "2 ^ k" h] in simp_all)
qed

theorem insert_ends_iff_spare_witness:
  "InsertEntry [\<lparr>ix_hash = 2, ix_idx = 0, ix_key = ()\<rparr>, \<lparr>ix_hash = 0, ix_idx = 0, ix_key = ()\<rparr>] (mask 1) 4 7 () \<noteq> None
   \<and> InsertEntry [\<lparr>ix_hash = 2, ix_idx = 0, ix_key = ()\<rparr>, \<lparr>ix_hash = 1, ix_idx = 0, ix_key = ()\<rparr>] (mask 1) 4 7 () = None"
proof -
  let ?a = "[\<lparr>ix_hash = 2, ix_idx = 0, ix_key = ()\<rparr>, \<lparr>ix_hash = 0, ix_idx = 0, ix_key = ()\<rparr>]"
  let ?b = "[\<lparr>ix_hash = 2, ix_idx = 0, ix_key = ()\<rparr>, \<lparr>ix_hash = 1, ix_idx = 0, ix_key = ()\<rparr>]"
  have "rh_inv 1 ?a" "rh_inv 1 ?b" by (auto simp: rh_inv_def depth_def dst_def home_def less_2_cases_iff numeral_2_eq_2 [symmetric] simp del: One_nat_def)
  moreover have "spare ?a" "\<not> spare ?b" by (simp_all add: spare_size contents_def)
  ultimately show ?thesis
    using insert_ends_iff_spare [of 1 ?a 4 7 "()"] insert_ends_iff_spare [of 1 ?b 4 7 "()"] by simp
qed

end
