(* ===== verification/Spec2Isabelle.thy ===== *)
theory Spec2Isabelle
  imports Common_Math Bytes_Cursor Replay_Window Rtt Delivery Congestion Batch Split_Assoc_Pool Flow_Delivery Flow_Sender Peer_Map
begin

text \<open>
  Verification of the flux transport library.
\<close>

subsection \<open>Both ends of an ordered flow\<close>

definition four_offers :: "send_op list" where
  "four_offers = map (\<lambda>slot. Offer example_peer slot 100 True 5 0 (replicate 9 0)) [40, 41, 42, 43]"

definition four_sent :: "OutAssociation \<times> u32 list \<times> u32 list" where
  "four_sent = send_run four_offers
     (ResetOutAssoc 1 no_address [] 7 RELIABLE_ORDERED 0 (WindowFor RELIABLE_ORDERED) 4 3 blank_out, [], [])"

lemma four_sent_counts: "out_nextSeq (fst four_sent) = 5 \<and> fst (snd four_sent) = [40, 41, 42, 43]"
  by code_simp



end
